(* ===== verification/Ferro_Prelude.thy ===== *)
theory Ferro_Prelude
  imports Main "HOL-Library.Word"
begin

text \<open>
  What every component of the development shares: the machine types of the Rust source, saturating
  arithmetic, big-endian integers, the effect type of a state-machine handler (a new state, the
  actions it pushed, or a panic), its weakest precondition, and the facts on sorted lists that
  majority counting rests on.

  Counters of the source (\<open>u64\<close> terms and rounds, \<open>u32\<close> ticks and node ids, \<open>usize\<close> lengths) are
  \<open>nat\<close>. A \<open>saturating_add\<close> of the source is written with its ceiling; a plain \<open>+\<close> is the
  mathematical sum, which is what the source computes while the counters stay below their width.
  Digests, whose arithmetic is meant to wrap, are \<open>64 word\<close>.
\<close>

section \<open>Collections of facts\<close>

named_theorems wp_rules \<open>weakest preconditions of the handlers\<close>
named_theorems frame_rules \<open>which fields a helper leaves alone\<close>
named_theorems codec_defs \<open>definitions of the encoders and decoders\<close>

section \<open>Machine types\<close>

type_synonym byte = "8 word"
type_synonym u64 = "64 word"

abbreviation u16_max :: nat where "u16_max \<equiv> 65535"
abbreviation u32_max :: nat where "u32_max \<equiv> 4294967295"
abbreviation u64_max :: nat where "u64_max \<equiv> 18446744073709551615"

definition sat_add32 :: "nat \<Rightarrow> nat \<Rightarrow> nat" where
  "sat_add32 a b = min (a + b) u32_max"

definition sat_add64 :: "nat \<Rightarrow> nat \<Rightarrow> nat" where
  "sat_add64 a b = min (a + b) u64_max"

lemma sat_add64_mono: "a \<le> u64_max \<Longrightarrow> a \<le> sat_add64 a b"
  by (simp add: sat_add64_def)

lemma sat_add64_Suc: "a < u64_max \<Longrightarrow> sat_add64 a 1 = Suc a"
  by (simp add: sat_add64_def)

lemma sat_add32_le: "sat_add32 a b \<le> a + b"
  by (simp add: sat_add32_def)

section \<open>Big-endian integers\<close>

text \<open>\<open>be_bytes w v\<close> is \<open>v.to_be_bytes()\<close> of a \<open>w\<close>-byte integer, \<open>from_be\<close> is \<open>from_be_bytes\<close>.\<close>

fun be_bytes :: "nat \<Rightarrow> nat \<Rightarrow> byte list" where
  "be_bytes 0 v = []"
| "be_bytes (Suc w) v = word_of_nat (v div 256 ^ w) # be_bytes w v"

definition from_be :: "byte list \<Rightarrow> nat" where
  "from_be bs = foldl (\<lambda>a b. a * 256 + unat b) 0 bs"

lemma length_be_bytes [simp]: "length (be_bytes w v) = w"
  by (induction w) auto

lemma foldl_be: "foldl (\<lambda>a b. a * 256 + unat b) a bs = a * 256 ^ length bs + from_be (bs :: byte list)"
proof (induction bs arbitrary: a)
  case Nil
  then show ?case by (simp add: from_be_def)
next
  case (Cons b bs)
  have "from_be (b # bs) = unat b * 256 ^ length bs + from_be bs"
    using Cons[of "unat b"] by (simp add: from_be_def)
  with Cons[of "a * 256 + unat b"] show ?case by (simp add: algebra_simps)
qed

lemma from_be_Nil [simp]: "from_be [] = 0"
  by (simp add: from_be_def)

lemma from_be_Cons: "from_be (b # bs) = unat b * 256 ^ length bs + from_be bs"
  using foldl_be[of "unat b" bs] by (simp add: from_be_def)

lemma unat_byte_lt: "unat (b :: byte) < 256"
  using unsigned_less[of b] by simp

lemma from_be_lt: "from_be bs < 256 ^ length bs"
proof (induction bs)
  case Nil
  then show ?case by simp
next
  case (Cons b bs)
  have "unat b * 256 ^ length bs + from_be bs < unat b * 256 ^ length bs + 256 ^ length bs"
    using Cons by simp
  also have "\<dots> = Suc (unat b) * 256 ^ length bs" by simp
  also have "\<dots> \<le> 256 * 256 ^ length bs"
    using unat_byte_lt[of b] by (intro mult_le_mono1) simp
  finally show ?case by (simp add: from_be_Cons)
qed

lemma unat_byte_of_nat: "unat (word_of_nat v :: byte) = v mod 256"
  by (simp add: unat_of_nat)

lemma from_be_be_bytes_mod: "from_be (be_bytes w v) = v mod 256 ^ w"
proof (induction w)
  case 0
  then show ?case by simp
next
  case (Suc w)
  have "v mod 256 ^ Suc w = v mod (256 ^ w * 256)" by (simp add: mult.commute)
  also have "\<dots> = 256 ^ w * (v div 256 ^ w mod 256) + v mod 256 ^ w"
    by (rule mod_mult2_eq)
  finally show ?case
    using Suc by (simp add: from_be_Cons unat_byte_of_nat mult.commute)
qed

lemma from_be_be_bytes: "v < 256 ^ w \<Longrightarrow> from_be (be_bytes w v) = v"
  by (simp add: from_be_be_bytes_mod)

lemma be_bytes_add: "be_bytes w (k * 256 ^ w + v) = be_bytes w v"
proof -
  have "be_bytes n (k * 256 ^ w + v) = be_bytes n v" if "n \<le> w" for n
    using that
  proof (induction n)
    case 0
    then show ?case by simp
  next
    case (Suc n)
    then obtain d where d: "w = Suc n + d" using le_Suc_ex by blast
    have "(k * 256 ^ w + v) div 256 ^ n = (v + 256 * (k * 256 ^ d) * 256 ^ n) div 256 ^ n"
      by (simp add: d power_add algebra_simps)
    also have "\<dots> = 256 * (k * 256 ^ d) + v div 256 ^ n"
      by (subst div_mult_self1) auto
    finally have "(word_of_nat ((k * 256 ^ w + v) div 256 ^ n) :: byte) = word_of_nat (v div 256 ^ n)"
      by (metis add.commute mod_mult_self2 unat_byte_of_nat word_unat_eq_iff)
    with Suc show ?case by simp
  qed
  then show ?thesis by blast
qed

lemma be_bytes_from_be: "be_bytes (length bs) (from_be bs) = bs"
proof (induction bs)
  case Nil
  then show ?case by simp
next
  case (Cons b bs)
  have "(unat b * 256 ^ length bs + from_be bs) div 256 ^ length bs = unat b"
    using from_be_lt[of bs] by simp
  with Cons show ?case by (simp add: from_be_Cons be_bytes_add)
qed

lemma be_bytes_inject:
  "a < 256 ^ w \<Longrightarrow> b < 256 ^ w \<Longrightarrow> be_bytes w a = be_bytes w b \<longleftrightarrow> a = b"
  by (metis from_be_be_bytes)

section \<open>Handlers\<close>

text \<open>
  A method \<open>fn f(&mut self, .., out: &mut Vec<Action>)\<close> of the source becomes a function into
  \<open>(state \<times> action list) option\<close>: the new state and the actions it pushed, in order, or \<open>None\<close>
  for a panic (an \<open>assert!\<close>, an \<open>expect\<close>, an out-of-range index). \<open>andthen\<close> is sequencing.
\<close>

type_synonym ('s, 'a) handler = "('s \<times> 'a list) option"

definition done_with :: "'s \<Rightarrow> ('s, 'a) handler" where
  "done_with s = Some (s, [])"

definition emit :: "'s \<Rightarrow> 'a list \<Rightarrow> ('s, 'a) handler" where
  "emit s as = Some (s, as)"

definition andthen :: "('s, 'a) handler \<Rightarrow> ('s \<Rightarrow> ('s, 'a) handler) \<Rightarrow> ('s, 'a) handler" where
  "andthen m f =
     (case m of None \<Rightarrow> None
      | Some (s, as) \<Rightarrow>
          (case f s of None \<Rightarrow> None | Some (s', bs) \<Rightarrow> Some (s', as @ bs)))"

text \<open>\<open>wp m Q\<close>: \<open>m\<close> does not panic, and \<open>Q\<close> holds of what it leaves.\<close>

definition wp :: "('s, 'a) handler \<Rightarrow> ('s \<Rightarrow> 'a list \<Rightarrow> bool) \<Rightarrow> bool" where
  "wp m Q = (case m of None \<Rightarrow> False | Some (s, as) \<Rightarrow> Q s as)"

lemma wp_done [simp, wp_rules]: "wp (done_with s) Q = Q s []"
  by (simp add: wp_def done_with_def)

lemma wp_emit [simp, wp_rules]: "wp (emit s as) Q = Q s as"
  by (simp add: wp_def emit_def)

lemma wp_andthen [simp, wp_rules]:
  "wp (andthen m f) Q = wp m (\<lambda>s as. wp (f s) (\<lambda>s' bs. Q s' (as @ bs)))"
  by (auto simp: wp_def andthen_def split: option.splits prod.splits)

lemma wp_if [simp, wp_rules]: "wp (if b then m else n) Q = (if b then wp m Q else wp n Q)"
  by simp

lemma andthen_done [simp]: "andthen (done_with s) f = f s"
  by (simp add: andthen_def done_with_def split: option.split)

lemma andthen_SomeE:
  assumes "andthen m f = Some (d, as)"
  obtains b bs cs where "m = Some (b, bs)" "as = bs @ cs" "f b = Some (d, cs)"
  using assms by (auto simp: andthen_def split: option.splits)

lemma wp_mono: "wp m P \<Longrightarrow> (\<And>s as. P s as \<Longrightarrow> Q s as) \<Longrightarrow> wp m Q"
  by (auto simp: wp_def split: option.splits)

lemma wp_conj: "wp m P \<Longrightarrow> wp m Q \<Longrightarrow> wp m (\<lambda>s as. P s as \<and> Q s as)"
  by (auto simp: wp_def split: option.splits)

lemma wp_Some: "wp m Q \<longleftrightarrow> (\<exists>s as. m = Some (s, as) \<and> Q s as)"
  by (auto simp: wp_def split: option.splits)

lemma andthen_assoc: "andthen (andthen m f) g = andthen m (\<lambda>s. andthen (f s) g)"
  by (auto simp: andthen_def split: option.splits prod.splits)

text \<open>
  Running a handler once for each element of a list, as a \<open>for\<close> loop over it does.
\<close>

fun for_each :: "'x list \<Rightarrow> ('x \<Rightarrow> 's \<Rightarrow> ('s, 'a) handler) \<Rightarrow> 's \<Rightarrow> ('s, 'a) handler" where
  "for_each [] f s = done_with s"
| "for_each (x # xs) f s = andthen (f x s) (for_each xs f)"

text \<open>
  A relation between the state before, the state after and the actions pushed that holds of doing
  nothing and composes. Such a relation is proved of each helper once and of every handler built
  from helpers by composition.
\<close>

locale step_rel =
  fixes R :: "'s \<Rightarrow> 's \<Rightarrow> 'a list \<Rightarrow> bool"
  assumes R_refl: "R s s []"
    and R_trans: "R s t as \<Longrightarrow> R t u bs \<Longrightarrow> R s u (as @ bs)"
begin

definition obeys :: "('s \<Rightarrow> ('s, 'a) handler) \<Rightarrow> bool" where
  "obeys f \<longleftrightarrow> (\<forall>s s' as. f s = Some (s', as) \<longrightarrow> R s s' as)"

lemma obeysI: "(\<And>s s' as. f s = Some (s', as) \<Longrightarrow> R s s' as) \<Longrightarrow> obeys f"
  by (simp add: obeys_def)

lemma obeysD: "obeys f \<Longrightarrow> f s = Some (s', as) \<Longrightarrow> R s s' as"
  by (simp add: obeys_def)

lemma R_andthen:
  assumes "andthen m f = Some (s', cs)"
    and "\<And>t as. m = Some (t, as) \<Longrightarrow> R s t as"
    and "\<And>t as t' bs. m = Some (t, as) \<Longrightarrow> f t = Some (t', bs) \<Longrightarrow> R t t' bs"
  shows "R s s' cs"
  using assms by (fastforce simp: andthen_def split: option.splits intro: R_trans)

lemma R_for_each:
  assumes "for_each xs f s = Some (s', cs)"
    and "\<And>x t t' as. x \<in> set xs \<Longrightarrow> f x t = Some (t', as) \<Longrightarrow> R t t' as"
  shows "R s s' cs"
  using assms
proof (induction xs arbitrary: s cs)
  case Nil
  then show ?case by (simp add: done_with_def R_refl)
next
  case (Cons x xs)
  show ?case
  proof (rule R_andthen)
    show "andthen (f x s) (for_each xs f) = Some (s', cs)" using Cons.prems(1) by simp
  next
    show "R s t as" if "f x s = Some (t, as)" for t as
      using that Cons.prems(2)[of x s t as] by simp
  next
    fix t as t' bs
    assume "f x s = Some (t, as)" and rest: "for_each xs f t = Some (t', bs)"
    have "for_each xs f t = Some (s', bs)"
      using Cons.prems(1) \<open>f x s = Some (t, as)\<close> rest by (auto simp: andthen_def)
    with Cons show "R t t' bs" using rest by fastforce
  qed
qed

end

text \<open>
  The same for total correctness: a handler run from a state satisfying \<open>I\<close> does not panic, leaves
  \<open>I\<close> standing, and relates the two states by \<open>R\<close>.
\<close>

locale step_inv = step_rel R for R :: "'s \<Rightarrow> 's \<Rightarrow> 'a list \<Rightarrow> bool" +
  fixes I :: "'s \<Rightarrow> bool"
begin

definition sound :: "'s \<Rightarrow> ('s, 'a) handler \<Rightarrow> bool" where
  "sound s m \<longleftrightarrow> wp m (\<lambda>s' as. I s' \<and> R s s' as)"

lemma sound_done: "I s \<Longrightarrow> sound s (done_with s)"
  by (simp add: sound_def R_refl)

lemma sound_emit: "I s' \<Longrightarrow> R s s' as \<Longrightarrow> sound s (emit s' as)"
  by (simp add: sound_def)

lemma sound_upd: "I s' \<Longrightarrow> R s s' [] \<Longrightarrow> sound s (done_with s')"
  by (simp add: sound_def)

lemma sound_andthen:
  assumes "sound s m"
    and "\<And>t as. m = Some (t, as) \<Longrightarrow> I t \<Longrightarrow> R s t as \<Longrightarrow> sound t (f t)"
  shows "sound s (andthen m f)"
proof -
  from assms(1) obtain t as where t: "m = Some (t, as)" "I t" "R s t as"
    by (auto simp: sound_def wp_Some)
  with assms(2)[OF t] obtain u bs where "f t = Some (u, bs)" "I u" "R t u bs"
    by (auto simp: sound_def wp_Some)
  with t show ?thesis by (auto simp: sound_def wp_Some andthen_def intro: R_trans)
qed

lemma sound_for_each:
  assumes "I s" and "\<And>x t. x \<in> set xs \<Longrightarrow> I t \<Longrightarrow> sound t (f x t)"
  shows "sound s (for_each xs f s)"
  using assms
proof (induction xs arbitrary: s)
  case (Cons x xs)
  show ?case
    unfolding for_each.simps
    by (rule sound_andthen) (use Cons in auto)
qed (simp add: sound_done)

lemma sound_emit_then:
  assumes "R s t as" "sound t (f t)"
  shows "sound s (andthen (emit t as) f)"
  using assms by (auto simp: sound_def wp_Some andthen_def emit_def intro: R_trans)

lemma sound_from:
  assumes "R s t as" "sound t m"
  shows "sound s (andthen (emit t as) (\<lambda>_. m))"
  using assms by (auto simp: sound_def wp_Some andthen_def emit_def intro: R_trans)

end

text \<open>An invariant kept by each round of a loop is kept by the loop, and no round panics.\<close>

lemma wp_for_each:
  assumes "I s" and "\<And>x t. x \<in> set xs \<Longrightarrow> I t \<Longrightarrow> wp (f x t) (\<lambda>t' as. I t')"
  shows "wp (for_each xs f s) (\<lambda>t' as. I t')"
  using assms
proof (induction xs arbitrary: s)
  case Nil
  then show ?case by simp
next
  case (Cons x xs)
  have "wp (f x s) (\<lambda>t as. I t)" using Cons.prems by simp
  then show ?case
    by (simp, elim wp_mono) (use Cons in auto)
qed

section \<open>Sorted lists and majority counting\<close>

text \<open>
  The \<open>q\<close>-th largest element of a list is at least \<open>r\<close> exactly when at least \<open>q\<close> of its elements
  are; dually for the \<open>q\<close>-th smallest. These two are what reading a majority off a sorted list means.
\<close>

lemma sorted_nth_filter_le:
  fixes xs :: "'a::linorder list"
  assumes "sorted xs" "0 < q" "q \<le> length xs"
  shows "xs ! (q - 1) \<le> a \<longleftrightarrow> q \<le> length (filter (\<lambda>x. x \<le> a) xs)"
  using assms
proof (induction xs arbitrary: q)
  case Nil
  then show ?case by simp
next
  case (Cons x xs)
  show ?case
  proof (cases "q = 1")
    case True
    show ?thesis
    proof (cases "x \<le> a")
      case False
      then have "filter (\<lambda>x. x \<le> a) xs = []"
        using Cons.prems(1) by (auto simp: filter_empty_conv)
      with True False show ?thesis by simp
    qed (use True in simp)
  next
    case False
    with Cons.prems have q: "0 < q - 1" "q - 1 \<le> length xs" by auto
    have nth: "(x # xs) ! (q - 1) = xs ! (q - 1 - 1)" using q by (simp add: nth_Cons')
    show ?thesis
    proof (cases "x \<le> a")
      case True
      then show ?thesis using Cons.IH[of "q - 1"] Cons.prems q nth by auto
    next
      case x: False
      then have "filter (\<lambda>x. x \<le> a) xs = []"
        using Cons.prems(1) by (auto simp: filter_empty_conv)
      then have "\<not> xs ! (q - 1 - 1) \<le> a"
        using Cons.IH[of "q - 1"] Cons.prems q by auto
      with x \<open>filter (\<lambda>x. x \<le> a) xs = []\<close> nth q show ?thesis by simp
    qed
  qed
qed

lemma length_filter_mono:
  "(\<And>x. x \<in> set xs \<Longrightarrow> P x \<Longrightarrow> Q x) \<Longrightarrow> length (filter P xs) \<le> length (filter Q xs)"
  by (induction xs) (auto simp: le_SucI)

lemma length_filter_sort: "length (filter P (sort xs)) = length (filter P xs)"
  by (simp add: filter_sort)

lemma sort_nth_le:
  "0 < q \<Longrightarrow> q \<le> length xs \<Longrightarrow>
   sort xs ! (q - 1) \<le> a \<longleftrightarrow> q \<le> length (filter (\<lambda>x. x \<le> a) xs)"
  by (subst sorted_nth_filter_le) (auto simp: length_filter_sort)

text \<open>Sorting in descending order is \<open>rev (sort xs)\<close>.\<close>

lemma rev_sort_nth_ge:
  fixes xs :: "'a::linorder list"
  assumes "0 < q" "q \<le> length xs"
  shows "r \<le> rev (sort xs) ! (q - 1) \<longleftrightarrow> q \<le> length (filter (\<lambda>x. r \<le> x) xs)"
proof -
  let ?n = "length xs"
  let ?p = "?n - q + 1"
  have idx: "rev (sort xs) ! (q - 1) = sort xs ! (?p - 1)"
    using assms by (simp add: rev_nth)
  have split: "length (filter (\<lambda>x. x < r) xs) + length (filter (\<lambda>x. r \<le> x) xs) = ?n"
    using sum_length_filter_compl[of "\<lambda>x. x < r" xs] by (simp add: not_less)
  have "\<not> r \<le> sort xs ! (?p - 1) \<longleftrightarrow> ?p \<le> length (filter (\<lambda>x. x < r) xs)"
  proof -
    have p: "0 < ?p" "?p \<le> ?n" using assms by auto
    show ?thesis
    proof
      assume "\<not> r \<le> sort xs ! (?p - 1)"
      then have lt: "sort xs ! (?p - 1) < r" by simp
      have "?p \<le> length (filter (\<lambda>x. x \<le> sort xs ! (?p - 1)) xs)"
        using sort_nth_le[OF p, of "sort xs ! (?p - 1)"] by simp
      also have "\<dots> \<le> length (filter (\<lambda>x. x < r) xs)"
        by (rule length_filter_mono) (use lt in simp)
      finally show "?p \<le> length (filter (\<lambda>x. x < r) xs)" .
    next
      assume c: "?p \<le> length (filter (\<lambda>x. x < r) xs)"
      have ne: "filter (\<lambda>x. x < r) xs \<noteq> []" using c by auto
      let ?m = "Max (set (filter (\<lambda>x. x < r) xs))"
      have m: "?m < r" using Max_in[of "set (filter (\<lambda>x. x < r) xs)"] ne by fastforce
      have "filter (\<lambda>x. x \<le> ?m) xs = filter (\<lambda>x. x < r) xs"
        using m by (intro filter_cong) (auto intro: Max_ge)
      with c have "sort xs ! (?p - 1) \<le> ?m" using sort_nth_le[OF p, of ?m] by simp
      with m show "\<not> r \<le> sort xs ! (?p - 1)" by auto
    qed
  qed
  with split assms show ?thesis unfolding idx by linarith
qed

lemma length_filter_card: "distinct xs \<Longrightarrow> length (filter P xs) = card {x \<in> set xs. P x}"
  by (metis distinct_card distinct_filter set_filter)

end
