(* ===== verification/Config.thy ===== *)
theory Config
  imports Ferro_Prelude
begin

text \<open>
  \<open>consensus/config.rs\<close>: the voter set, and what a majority of it is. A configuration is one
  immutable value; its constructors sort and de-duplicate, which is what makes \<open>quorum\<close> a strict
  majority of a set and not of a list with repetitions.
\<close>

section \<open>The data\<close>

type_synonym node_id = nat

record cfg_at =
  at_version :: nat
  at_term :: nat

record config =
  members :: "node_id list"
  learners :: "node_id list"
  cfg_version :: nat
  cfg_term :: nat

text \<open>The derived \<open>Ord\<close> of \<open>CfgAt\<close>: version first, then term.\<close>

definition cfg_at_less :: "cfg_at \<Rightarrow> cfg_at \<Rightarrow> bool" where
  "cfg_at_less a b \<longleftrightarrow>
     at_version a < at_version b \<or> at_version a = at_version b \<and> at_term a < at_term b"

definition cfg_at_le :: "cfg_at \<Rightarrow> cfg_at \<Rightarrow> bool" where
  "cfg_at_le a b \<longleftrightarrow> cfg_at_less a b \<or> a = b"

section \<open>The operations\<close>

definition config_empty :: config where
  "config_empty = \<lparr>members = [], learners = [], cfg_version = 0, cfg_term = 0\<rparr>"

text \<open>\<open>Vec::dedup\<close> removes consecutive repetitions.\<close>

fun dedup :: "'a list \<Rightarrow> 'a list" where
  "dedup [] = []"
| "dedup [x] = [x]"
| "dedup (x # y # zs) = (if x = y then dedup (y # zs) else x # dedup (y # zs))"

definition config_new :: "node_id list \<Rightarrow> nat \<Rightarrow> nat \<Rightarrow> config" where
  "config_new ms version trm =
     \<lparr>members = dedup (sort ms), learners = [], cfg_version = version, cfg_term = trm\<rparr>"

text \<open>
  \<open>slice::binary_search\<close>, reduced to whether it finds the key: the search over the half-open range
  \<open>[lo, hi)\<close> of a list.
\<close>

function bsearch :: "'a::linorder list \<Rightarrow> 'a \<Rightarrow> nat \<Rightarrow> nat \<Rightarrow> bool" where
  "bsearch xs k lo hi =
     (if lo < hi then
        (let mid = (lo + hi) div 2 in
         if xs ! mid = k then True
         else if xs ! mid < k then bsearch xs k (mid + 1) hi
         else bsearch xs k lo mid)
      else False)"
  by pat_completeness auto
termination
  by (relation "measure (\<lambda>(xs, k, lo, hi). hi - lo)") auto

declare bsearch.simps [simp del]

definition retain_absent :: "'a::linorder list \<Rightarrow> 'a list \<Rightarrow> 'a list" where
  "retain_absent items sorted_ref =
     filter (\<lambda>n. \<not> bsearch sorted_ref n 0 (length sorted_ref)) items"

definition with_learners :: "config \<Rightarrow> node_id list \<Rightarrow> config" where
  "with_learners c ls = c\<lparr>learners := retain_absent (dedup (sort ls)) (members c)\<rparr>"

definition contains :: "config \<Rightarrow> node_id \<Rightarrow> bool" where
  "contains c n \<longleftrightarrow> n \<in> set (members c)"

definition is_known :: "config \<Rightarrow> node_id \<Rightarrow> bool" where
  "is_known c n \<longleftrightarrow> n \<in> set (members c) \<or> n \<in> set (learners c)"

definition config_len :: "config \<Rightarrow> nat" where
  "config_len c = length (members c)"

definition config_is_empty :: "config \<Rightarrow> bool" where
  "config_is_empty c \<longleftrightarrow> members c = []"

definition quorum :: "config \<Rightarrow> nat" where
  "quorum c = length (members c) div 2 + 1"

definition has_quorum :: "config \<Rightarrow> nat \<Rightarrow> bool" where
  "has_quorum c votes \<longleftrightarrow> members c \<noteq> [] \<and> quorum c \<le> votes"

definition config_at :: "config \<Rightarrow> cfg_at" where
  "config_at c = \<lparr>at_version = cfg_version c, at_term = cfg_term c\<rparr>"

definition adding :: "config \<Rightarrow> node_id \<Rightarrow> nat \<Rightarrow> config" where
  "adding c n trm =
     with_learners (config_new (members c @ [n]) (cfg_version c + 1) trm)
       (filter (\<lambda>x. x \<noteq> n) (learners c))"

definition removing :: "config \<Rightarrow> node_id \<Rightarrow> nat \<Rightarrow> config" where
  "removing c n trm =
     with_learners (config_new (filter (\<lambda>x. x \<noteq> n) (members c)) (cfg_version c + 1) trm)
       (filter (\<lambda>x. x \<noteq> n) (learners c))"

definition adding_learner :: "config \<Rightarrow> node_id \<Rightarrow> nat \<Rightarrow> config" where
  "adding_learner c n trm =
     with_learners (config_new (members c) (cfg_version c + 1) trm) (learners c @ [n])"

section \<open>What the constructors guarantee\<close>

text \<open>
  The representation invariant: strictly ascending voters, strictly ascending learners, no node in
  both. Every constructor establishes it.
\<close>

definition config_wf :: "config \<Rightarrow> bool" where
  "config_wf c \<longleftrightarrow> sorted_wrt (<) (members c) \<and> sorted_wrt (<) (learners c) \<and>
     set (members c) \<inter> set (learners c) = {}"

lemma set_dedup [simp]: "set (dedup xs) = set xs"
  by (induction xs rule: dedup.induct) auto

lemma dedup_sorted: "sorted xs \<Longrightarrow> sorted_wrt (<) (dedup (xs :: 'a::linorder list))"
proof (induction xs rule: dedup.induct)
  case (3 x y zs)
  have "set (dedup (y # zs)) = set (y # zs)" by simp
  with 3 show ?case by (auto simp: order.strict_iff_order)
qed auto

lemma dedup_strict: "sorted_wrt (<) xs \<Longrightarrow> dedup (xs :: 'a::linorder list) = xs"
  by (induction xs rule: dedup.induct) auto

lemma strict_sorted: "sorted_wrt (<) xs \<Longrightarrow> sorted (xs :: 'a::linorder list)"
  by (simp add: strict_sorted_iff)

lemma dedup_sort_strict: "sorted_wrt (<) xs \<Longrightarrow> dedup (sort xs) = (xs :: 'a::linorder list)"
  using dedup_strict sorted_sort_id strict_sorted by metis

lemma bsearch_iff:
  assumes "sorted_wrt (<) xs" "hi \<le> length xs"
  shows "bsearch xs k lo hi \<longleftrightarrow> (\<exists>i. lo \<le> i \<and> i < hi \<and> xs ! i = k)"
  using assms
proof (induction xs k lo hi rule: bsearch.induct)
  case (1 xs k lo hi)
  show ?case
  proof (cases "lo < hi")
    case False
    then show ?thesis by (subst bsearch.simps) auto
  next
    case lt: True
    define mid where "mid = (lo + hi) div 2"
    have mid: "lo \<le> mid" "mid < hi" using lt by (auto simp: mid_def)
    have less: "i < j \<Longrightarrow> j < length xs \<Longrightarrow> xs ! i < xs ! j" for i j
      using "1.prems"(1) by (auto simp: sorted_wrt_iff_nth_less)
    consider "xs ! mid = k" | "xs ! mid < k" | "k < xs ! mid" by fastforce
    then show ?thesis
    proof cases
      case eq: 1
      then show ?thesis using lt mid by (subst bsearch.simps) (auto simp: Let_def mid_def[symmetric])
    next
      case gt: 2
      then have "bsearch xs k lo hi = bsearch xs k (mid + 1) hi"
        using lt by (subst bsearch.simps) (auto simp: Let_def mid_def[symmetric])
      also have "\<dots> = (\<exists>i. mid + 1 \<le> i \<and> i < hi \<and> xs ! i = k)"
        using "1.IH"(1)[of mid] lt gt "1.prems" by (simp add: mid_def)
      also have "\<dots> = (\<exists>i. lo \<le> i \<and> i < hi \<and> xs ! i = k)"
      proof -
        have "mid < i" if "i < hi" "xs ! i = k" for i
        proof (rule ccontr)
          assume "\<not> mid < i"
          then have "i = mid \<or> i < mid" by auto
          then have "i = mid \<or> xs ! i < xs ! mid" using less[of i mid] mid "1.prems"(2) by auto
          with that gt show False by auto
        qed
        then show ?thesis using mid by (metis Suc_eq_plus1 Suc_leD Suc_leI le_trans)
      qed
      finally show ?thesis .
    next
      case lt': 3
      then have "bsearch xs k lo hi = bsearch xs k lo mid"
        using lt by (subst bsearch.simps) (auto simp: Let_def mid_def[symmetric])
      also have "\<dots> = (\<exists>i. lo \<le> i \<and> i < mid \<and> xs ! i = k)"
        using "1.IH"(2)[of mid] lt lt' "1.prems" mid by (simp add: mid_def)
      also have "\<dots> = (\<exists>i. lo \<le> i \<and> i < hi \<and> xs ! i = k)"
      proof -
        have "i < mid" if "i < hi" "xs ! i = k" for i
        proof (rule ccontr)
          assume "\<not> i < mid"
          then have "i = mid \<or> mid < i" by auto
          then have "i = mid \<or> xs ! mid < xs ! i" using less[of mid i] that "1.prems"(2) by auto
          with that lt' show False by auto
        qed
        then show ?thesis using mid by (metis less_trans)
      qed
      finally show ?thesis .
    qed
  qed
qed

lemma retain_absent_eq:
  "sorted_wrt (<) ref \<Longrightarrow> retain_absent items ref = filter (\<lambda>n. n \<notin> set ref) items"
  by (simp add: retain_absent_def bsearch_iff in_set_conv_nth)

lemma config_new_wf [simp]: "config_wf (config_new ms v t)"
  by (simp add: config_wf_def config_new_def dedup_sorted)

lemma sorted_wrt_filter_strict: "sorted_wrt (<) xs \<Longrightarrow> sorted_wrt (<) (filter P xs)"
  by (induction xs) auto

lemma with_learners_wf: "sorted_wrt (<) (members c) \<Longrightarrow> config_wf (with_learners c ls)"
  by (auto simp: config_wf_def with_learners_def retain_absent_eq sorted_wrt_filter_strict
      dedup_sorted)

lemma members_new [simp]: "members (config_new ms v t) = dedup (sort ms)"
  by (simp add: config_new_def)

lemma members_with_learners [simp]: "members (with_learners c ls) = members c"
  by (simp add: with_learners_def)

lemma version_simps [simp]:
  "cfg_version (config_new ms v t) = v" "cfg_term (config_new ms v t) = t"
  "cfg_version (with_learners c ls) = cfg_version c" "cfg_term (with_learners c ls) = cfg_term c"
  by (auto simp: config_new_def with_learners_def)

lemma set_learners_with:
  "sorted_wrt (<) (members c) \<Longrightarrow> set (learners (with_learners c ls)) = set ls - set (members c)"
  by (auto simp: with_learners_def retain_absent_eq)

lemma config_wf_simps [simp]:
  "config_wf (adding c n t)" "config_wf (removing c n t)" "config_wf (adding_learner c n t)"
  by (auto simp: adding_def removing_def adding_learner_def intro!: with_learners_wf
      simp: dedup_sorted)

lemma config_wf_distinct: "config_wf c \<Longrightarrow> distinct (members c)"
  by (simp add: config_wf_def strict_sorted_iff)

lemma config_len_card: "config_wf c \<Longrightarrow> length (members c) = card (set (members c))"
  by (simp add: config_wf_distinct distinct_card)

section \<open>Majorities\<close>

text \<open>
  An abstract quorum system, and the model's: the sets of voters that \<open>has_quorum\<close> accepts. That
  two of them meet is the fact elections and commits rest on.
\<close>

locale quorum_system =
  fixes is_quorum :: "'n set \<Rightarrow> bool"
  assumes quorum_meet: "is_quorum P \<Longrightarrow> is_quorum Q \<Longrightarrow> P \<inter> Q \<noteq> {}"
begin

lemma quorum_nonempty: "is_quorum Q \<Longrightarrow> Q \<noteq> {}"
  using quorum_meet by blast

lemma unique_by_quorum:
  assumes "is_quorum P" "is_quorum Q"
    and "\<And>n. n \<in> P \<Longrightarrow> choice n = x" "\<And>n. n \<in> Q \<Longrightarrow> choice n = y"
  shows "x = y"
  using quorum_meet[OF assms(1,2)] assms(3,4) by fastforce

end

definition majority :: "config \<Rightarrow> node_id set \<Rightarrow> bool" where
  "majority c V \<longleftrightarrow> V \<subseteq> set (members c) \<and> has_quorum c (card V)"

lemma majorities_meet:
  assumes "finite M" "P \<subseteq> M" "Q \<subseteq> M" "card M < card P + card Q"
  shows "P \<inter> Q \<noteq> {}"
proof
  assume "P \<inter> Q = {}"
  then have "card (P \<union> Q) = card P + card Q"
    using assms finite_subset card_Un_disjoint by metis
  moreover have "card (P \<union> Q) \<le> card M" using assms by (intro card_mono) auto
  ultimately show False using assms(4) by simp
qed

lemma majority_meet:
  assumes "majority c P" "majority c Q"
  shows "P \<inter> Q \<noteq> {}"
proof (rule majorities_meet)
  have "card (set (members c)) \<le> length (members c)" by (rule card_length)
  then show "card (set (members c)) < card P + card Q"
    using assms by (auto simp: majority_def has_quorum_def quorum_def)
qed (use assms in \<open>auto simp: majority_def\<close>)

interpretation voters: quorum_system "majority c" for c
  by unfold_locales (rule majority_meet)

text \<open>
  Two configurations one step apart: the larger has at most one more voter. A majority of either
  meets a majority of the other.
\<close>

lemma adjacent_majorities_meet:
  assumes wf: "config_wf c" "config_wf d"
    and sub: "set (members c) \<subseteq> set (members d)"
    and one: "card (set (members d) - set (members c)) \<le> 1"
    and P: "majority c P" and Q: "majority d Q"
  shows "P \<inter> Q \<noteq> {}"
proof (rule majorities_meet)
  have "card (set (members d)) \<le> card (set (members c)) + 1"
  proof -
    have "card (set (members d)) = card (set (members c)) + card (set (members d) - set (members c))"
      using sub by (metis List.finite_set card_Diff_subset card_mono le_add_diff_inverse)
    with one show ?thesis by simp
  qed
  then show "card (set (members d)) < card P + card Q"
    using P Q wf by (auto simp: majority_def has_quorum_def quorum_def config_len_card)
qed (use P Q sub in \<open>auto simp: majority_def\<close>)

end
