(* ===== verification/Wire_Bytes.thy ===== *)
theory Wire_Bytes
  imports Ferro_Prelude "HOL-Library.Sublist"
begin

text \<open>
  The bounds-checked readers of \<open>wal/log.rs\<close> (\<open>take_u8\<close> \<dots> \<open>take_str\<close>, \<open>write_str\<close>), the error type
  of \<open>error.rs\<close>, and the interface every codec of the development satisfies: a reader returns a
  value exactly when the bytes at its cursor begin with that value's encoding.
\<close>

text \<open>The size of a page of the database file.\<close>

definition PAGE_SIZE :: nat where "PAGE_SIZE = 4096"

section \<open>Errors\<close>

text \<open>
  The variants of \<open>FerroError\<close>. A message's text is a formatted sentence for an operator; here it is a
  short tag naming which refusal it is. \<open>Panic\<close> is not a variant of the source: it is what a fallible
  function of the model returns where the source aborts.
\<close>

datatype log_behind_cause = ReplicaFile | MissingLog | EmptyLog

datatype ferro_error =
    Io string | NotEnoughSpace | SlotDeleted | KeyNotFound | EmptyList | PagePinned
  | SqlParseError string | IndexAlreadyExists | Constraint string | OnlyDML | Bind string
  | Wal string | Txn string | BranchError string | Cow string | MergeError string
  | CellAbsent string | Provenance string | Eval string | Internal string | Corruption string
  | Unrepresentable string nat nat
  | Publication string
  | LogBehindPages string log_behind_cause nat nat
  | NotLeader "string option"
  | Panic

type_synonym 'a result = "ferro_error + 'a"

text \<open>The \<open>?\<close> operator.\<close>

definition rbind :: "('e + 'a) \<Rightarrow> ('a \<Rightarrow> 'e + 'b) \<Rightarrow> 'e + 'b" where
  "rbind m f = (case m of Inl e \<Rightarrow> Inl e | Inr x \<Rightarrow> f x)"

lemma rbind_simps [simp]: "rbind (Inl e) f = Inl e" "rbind (Inr x) f = f x"
  by (auto simp: rbind_def)

lemma rbind_Inr: "rbind m f = Inr y \<longleftrightarrow> (\<exists>x. m = Inr x \<and> f x = Inr y)"
  by (cases m) auto

definition isOk :: "('e + 'a) \<Rightarrow> bool" where
  "isOk r = (case r of Inl e \<Rightarrow> False | Inr x \<Rightarrow> True)"

lemma isOk_simps [simp]: "\<not> isOk (Inl e)" "isOk (Inr x)"
  by (auto simp: isOk_def)

text \<open>\<open>Result::map_err\<close>; a panic is not an error and passes through.\<close>

definition map_err :: "(ferro_error \<Rightarrow> ferro_error) \<Rightarrow> 'a result \<Rightarrow> 'a result" where
  "map_err f r = (case r of Inl e \<Rightarrow> Inl (if e = Panic then Panic else f e) | Inr x \<Rightarrow> Inr x)"

lemma map_err_Inr [simp]: "map_err f r = Inr x \<longleftrightarrow> r = Inr x"
  by (cases r) (auto simp: map_err_def)

section \<open>Strings\<close>

text \<open>
  A Rust \<open>String\<close> is its UTF-8 bytes. \<open>utf8_valid\<close> is the test \<open>String::from_utf8\<close> makes: the
  well-formed byte sequences of the Unicode standard.
\<close>

type_synonym rstring = "byte list"

definition cont :: "byte \<Rightarrow> bool" where
  "cont b \<longleftrightarrow> 0x80 \<le> b \<and> b \<le> 0xBF"

fun utf8_valid :: "byte list \<Rightarrow> bool" where
  "utf8_valid [] = True"
| "utf8_valid (a # r) =
     (if a \<le> 0x7F then utf8_valid r
      else if 0xC2 \<le> a \<and> a \<le> 0xDF then
        (case r of b # r' \<Rightarrow> cont b \<and> utf8_valid r' | _ \<Rightarrow> False)
      else if 0xE0 \<le> a \<and> a \<le> 0xEF then
        (case r of b # c # r' \<Rightarrow>
           (if a = 0xE0 then 0xA0 \<le> b \<and> b \<le> 0xBF
            else if a = 0xED then 0x80 \<le> b \<and> b \<le> 0x9F else cont b)
           \<and> cont c \<and> utf8_valid r'
         | _ \<Rightarrow> False)
      else if 0xF0 \<le> a \<and> a \<le> 0xF4 then
        (case r of b # c # d # r' \<Rightarrow>
           (if a = 0xF0 then 0x90 \<le> b \<and> b \<le> 0xBF
            else if a = 0xF4 then 0x80 \<le> b \<and> b \<le> 0x8F else cont b)
           \<and> cont c \<and> cont d \<and> utf8_valid r'
         | _ \<Rightarrow> False)
      else False)"

section \<open>Bounds-checked readers\<close>

type_synonym 'a reader = "byte list \<Rightarrow> nat \<Rightarrow> ('a \<times> nat) result"

text \<open>\<open>slice::get(a..e)\<close>.\<close>

definition get_range :: "byte list \<Rightarrow> nat \<Rightarrow> nat \<Rightarrow> byte list option" where
  "get_range bs a e = (if a \<le> e \<and> e \<le> length bs then Some (take (e - a) (drop a bs)) else None)"

definition short_record :: ferro_error where
  "short_record = Wal ''log record is truncated''"

definition take_u8 :: "byte reader" where
  "take_u8 bs at = (if at < length bs then Inr (bs ! at, at + 1) else Inl short_record)"

definition take_u16 :: "nat reader" where
  "take_u16 bs at =
     (case get_range bs at (at + 2) of None \<Rightarrow> Inl short_record | Some s \<Rightarrow> Inr (from_be s, at + 2))"

definition take_u32 :: "nat reader" where
  "take_u32 bs at =
     (case get_range bs at (at + 4) of None \<Rightarrow> Inl short_record | Some s \<Rightarrow> Inr (from_be s, at + 4))"

definition take_u64 :: "nat reader" where
  "take_u64 bs at =
     (case get_range bs at (at + 8) of None \<Rightarrow> Inl short_record | Some s \<Rightarrow> Inr (from_be s, at + 8))"

definition take_array :: "nat \<Rightarrow> byte list reader" where
  "take_array n bs at =
     (case get_range bs at (at + n) of None \<Rightarrow> Inl short_record | Some s \<Rightarrow> Inr (s, at + n))"

definition take_str :: "rstring reader" where
  "take_str bs at =
     rbind (take_u16 bs at) (\<lambda>(len, at).
       case get_range bs at (at + len) of
         None \<Rightarrow> Inl short_record
       | Some s \<Rightarrow>
           if utf8_valid s then Inr (s, at + len) else Inl (Wal ''log record holds a non-utf8 string''))"

text \<open>\<open>write_str\<close> appends to the buffer, or refuses a string its \<open>u16\<close> prefix cannot express.\<close>

definition write_str :: "byte list \<Rightarrow> rstring \<Rightarrow> string \<Rightarrow> byte list result" where
  "write_str buf s what =
     (if length s \<le> u16_max then Inr (buf @ be_bytes 2 (length s) @ s)
      else Inl (Unrepresentable what (length s) u16_max))"

text \<open>A \<open>for _ in 0..n\<close> loop that reads one item per round into a vector.\<close>

fun read_n :: "nat \<Rightarrow> 'a reader \<Rightarrow> 'a list reader" where
  "read_n 0 rd bs at = Inr ([], at)"
| "read_n (Suc n) rd bs at =
     rbind (rd bs at) (\<lambda>(x, at). rbind (read_n n rd bs at) (\<lambda>(xs, at). Inr (x # xs, at)))"

section \<open>The codec interface\<close>

lemma prefix_append_drop:
  "prefix (xs @ ys) (drop k zs) \<longleftrightarrow> prefix xs (drop k zs) \<and> prefix ys (drop (k + length xs) zs)"
  by (auto simp: prefix_def) (metis append_eq_conv_conj drop_drop add.commute)+

lemma prefix_drop_le: "prefix xs (drop k zs) \<Longrightarrow> k \<le> length zs \<Longrightarrow> k + length xs \<le> length zs"
  using prefix_length_le by fastforce

lemma prefix_take: "length xs = n \<Longrightarrow> prefix xs ys \<longleftrightarrow> n \<le> length ys \<and> take n ys = xs"
  by (auto simp: prefix_def) (metis append_take_drop_id)

text \<open>
  A decoder: it reads back every encoding of a value that fits the format.
\<close>

locale decoder =
  fixes put :: "'a \<Rightarrow> byte list" and rd :: "'a reader" and ok :: "'a \<Rightarrow> bool"
  assumes reads_put: "ok x \<Longrightarrow> at \<le> length bs \<Longrightarrow> prefix (put x) (drop at bs) \<Longrightarrow>
    rd bs at = Inr (x, at + length (put x))"
begin

lemma bind_put:
  "prefix (put x) (drop at bs) \<Longrightarrow> at \<le> length bs \<Longrightarrow> ok x \<Longrightarrow>
   rbind (rd bs at) f = f (x, at + length (put x))"
  by (simp add: reads_put)

lemma read_n_put:
  "list_all ok xs \<Longrightarrow> at \<le> length bs \<Longrightarrow> prefix (concat (map put xs)) (drop at bs) \<Longrightarrow>
   read_n (length xs) rd bs at = Inr (xs, at + length (concat (map put xs)))"
proof (induction xs arbitrary: at)
  case Nil
  then show ?case by simp
next
  case (Cons x xs)
  then have p: "prefix (put x) (drop at bs)" "prefix (concat (map put xs)) (drop (at + length (put x)) bs)"
    by (simp_all add: prefix_append_drop)
  then have "at + length (put x) \<le> length bs" using Cons.prems(2) prefix_drop_le by blast
  with Cons p show ?case by (simp add: bind_put add.assoc)
qed

end

text \<open>
  \<open>put x\<close> is the encoding of \<open>x\<close>, \<open>rd\<close> the reader, \<open>ok\<close> the values that fit the format. The one law
  says that the reader succeeds exactly on encodings, so it gives both the round trip and
  canonicality: no second spelling of a value is accepted.
\<close>

locale codec =
  fixes put :: "'a \<Rightarrow> byte list" and rd :: "'a reader" and ok :: "'a \<Rightarrow> bool"
  assumes reads: "at \<le> length bs \<Longrightarrow>
    rd bs at = Inr (x, at') \<longleftrightarrow> ok x \<and> at' = at + length (put x) \<and> prefix (put x) (drop at bs)"
begin

lemma reads_bound: "at \<le> length bs \<Longrightarrow> rd bs at = Inr (x, at') \<Longrightarrow> at' \<le> length bs"
  by (simp add: reads prefix_drop_le)

lemma reads_b:
  "at \<le> length bs \<Longrightarrow>
   rd bs at = Inr (x, at') \<longleftrightarrow>
     ok x \<and> at' = at + length (put x) \<and> prefix (put x) (drop at bs) \<and>
     at + length (put x) \<le> length bs"
  using reads[of at bs x at'] reads_bound by blast

lemma round_trip: "ok x \<Longrightarrow> rd (put x) 0 = Inr (x, length (put x))"
  by (simp add: reads)

lemma then_reads:
  assumes "at \<le> length bs"
  shows "rbind (rd bs at) f = Inr y \<longleftrightarrow>
    (\<exists>x. ok x \<and> prefix (put x) (drop at bs) \<and> f (x, at + length (put x)) = Inr y)"
  using reads[OF assms] by (auto simp: rbind_Inr)

lemma put_inject:
  assumes "ok x" "ok y" "prefix (put x) zs" "prefix (put y) zs"
  shows "x = y"
proof -
  have "rd zs 0 = Inr (x, length (put x))" "rd zs 0 = Inr (y, length (put y))"
    using assms by (simp_all add: reads)
  then show ?thesis by simp
qed

lemma read_n_reads:
  "at \<le> length bs \<Longrightarrow>
   read_n n rd bs at = Inr (xs, at') \<longleftrightarrow>
     length xs = n \<and> list_all ok xs \<and> at' = at + length (concat (map put xs)) \<and>
     prefix (concat (map put xs)) (drop at bs)"
proof (induction n arbitrary: at xs)
  case 0
  then show ?case by auto
next
  case (Suc n)
  show ?case
  proof (cases xs)
    case Nil
    then show ?thesis by (auto simp: rbind_Inr split: prod.splits)
  next
    case (Cons z zs)
    have le: "at + length (put z) \<le> length bs" if "prefix (put z) (drop at bs)"
      using that Suc.prems prefix_drop_le by blast
    have "read_n (Suc n) rd bs at = Inr (xs, at') \<longleftrightarrow>
        ok z \<and> prefix (put z) (drop at bs) \<and> read_n n rd bs (at + length (put z)) = Inr (zs, at')"
      unfolding read_n.simps then_reads[OF Suc.prems] Cons by (auto simp: rbind_Inr)
    also have "\<dots> \<longleftrightarrow> ok z \<and> prefix (put z) (drop at bs) \<and> length zs = n \<and> list_all ok zs \<and>
        at' = at + length (put z) + length (concat (map put zs)) \<and>
        prefix (concat (map put zs)) (drop (at + length (put z)) bs)"
      by (intro conj_cong refl Suc.IH le)
    finally show ?thesis
      unfolding Cons by (simp add: prefix_append_drop add.assoc) blast
  qed
qed

end

sublocale codec \<subseteq> decoder
  by unfold_locales (simp add: reads)

text \<open>A decoder whose successes are all encodings is a codec.\<close>

lemma codecI:
  assumes "decoder put rd ok"
    and "\<And>at bs x at'. rd bs at = Inr (x, at') \<Longrightarrow> at \<le> length bs \<Longrightarrow>
      ok x \<and> at' = at + length (put x) \<and> prefix (put x) (drop at bs)"
  shows "codec put rd ok"
proof
  fix at and bs :: "byte list" and x at'
  assume at: "at \<le> length bs"
  show "rd bs at = Inr (x, at') \<longleftrightarrow>
      ok x \<and> at' = at + length (put x) \<and> prefix (put x) (drop at bs)"
    using assms(2)[OF _ at] decoder.reads_put[OF assms(1) _ at] by blast
qed

lemma read_n_yields:
  assumes "\<And>at x at'. rd bs at = Inr (x, at') \<Longrightarrow> at \<le> length bs \<Longrightarrow> P x \<and> at' \<le> length bs"
  shows "read_n n rd bs at = Inr (xs, at') \<Longrightarrow> at \<le> length bs \<Longrightarrow>
    list_all P xs \<and> length xs = n \<and> at' \<le> length bs"
proof (induction n arbitrary: at xs)
  case (Suc n)
  then obtain x at1 ys where x: "rd bs at = Inr (x, at1)"
    and ys: "read_n n rd bs at1 = Inr (ys, at')" "xs = x # ys"
    by (auto simp: rbind_Inr)
  have "P x" "at1 \<le> length bs" using assms[OF x Suc.prems(2)] by auto
  with Suc.IH[OF ys(1)] ys(2) show ?case by simp
qed auto

section \<open>The primitive codecs\<close>

lemma get_range_at:
  "at \<le> length bs \<Longrightarrow>
   get_range bs at (at + n) = Some s \<longleftrightarrow> length s = n \<and> prefix s (drop at bs)"
  by (auto simp: get_range_def prefix_take)

lemma get_range_be:
  assumes "at \<le> length bs"
  shows "(case get_range bs at (at + w) of None \<Rightarrow> Inl e | Some s \<Rightarrow> Inr (from_be s, at + w)) = Inr (x, at') \<longleftrightarrow>
    x < 256 ^ w \<and> at' = at + length (be_bytes w x) \<and> prefix (be_bytes w x) (drop at bs)"
proof (cases "get_range bs at (at + w)")
  case None
  then have "\<not> (at + w \<le> length bs)" by (auto simp: get_range_def split: if_splits)
  then have "\<not> prefix (be_bytes w x) (drop at bs)"
    using prefix_drop_le[of "be_bytes w x" at bs] assms by auto
  with None show ?thesis by simp
next
  case (Some s)
  then have s: "length s = w" "prefix s (drop at bs)" using assms by (simp_all add: get_range_at)
  have "x < 256 ^ w \<and> prefix (be_bytes w x) (drop at bs) \<longleftrightarrow> x = from_be s"
    using s from_be_lt[of s] be_bytes_from_be[of s] from_be_be_bytes
    by (metis length_be_bytes prefix_take)
  with Some s show ?thesis by auto
qed

lemma drop_single: "at \<le> length bs \<Longrightarrow> prefix [x] (drop at bs) \<longleftrightarrow> at < length bs \<and> bs ! at = x"
  by (cases "at < length bs") (auto simp: Cons_nth_drop_Suc[symmetric])

interpretation u8: codec "\<lambda>b. [b]" take_u8 "\<lambda>_. True"
  by unfold_locales (auto simp: take_u8_def drop_single)

interpretation u16: codec "be_bytes 2" take_u16 "\<lambda>v. v < 65536"
  by unfold_locales (subst take_u16_def, subst get_range_be, simp_all)

interpretation u32: codec "be_bytes 4" take_u32 "\<lambda>v. v < 4294967296"
  by unfold_locales (subst take_u32_def, subst get_range_be, simp_all)

interpretation u64: codec "be_bytes 8" take_u64 "\<lambda>v. v < 18446744073709551616"
  by unfold_locales (subst take_u64_def, subst get_range_be, simp_all)

lemma get_range_Some_at:
  "at \<le> length bs \<Longrightarrow>
   (\<exists>s. get_range bs at (at + n) = Some s \<and> P s) \<longleftrightarrow> (\<exists>s. length s = n \<and> prefix s (drop at bs) \<and> P s)"
  by (auto simp: get_range_at)

interpretation arr: codec "\<lambda>s. s" "take_array n" "\<lambda>s. length s = n" for n
proof
  fix at and bs :: "byte list" and x at'
  assume "at \<le> length bs"
  then show "take_array n bs at = Inr (x, at') \<longleftrightarrow>
      length x = n \<and> at' = at + length x \<and> prefix x (drop at bs)"
    using get_range_at[of at bs n x]
    by (auto simp: take_array_def split: option.splits)
qed

definition str_ok :: "rstring \<Rightarrow> bool" where
  "str_ok s \<longleftrightarrow> length s \<le> u16_max \<and> utf8_valid s"

definition str_bytes :: "rstring \<Rightarrow> byte list" where
  "str_bytes s = be_bytes 2 (length s) @ s"

interpretation str: codec str_bytes take_str str_ok
proof
  fix at and bs :: "byte list" and x at'
  assume at: "at \<le> length bs"
  have *: "(case get_range bs k (k + n) of None \<Rightarrow> Inl short_record
       | Some s \<Rightarrow> if utf8_valid s then Inr (s, k + n) else Inl e) = Inr (x, at') \<longleftrightarrow>
      (length x = n \<and> prefix x (drop k bs)) \<and> utf8_valid x \<and> at' = k + n" if "k \<le> length bs" for k n e
    unfolding get_range_at[OF that, of n x, symmetric] by (auto split: option.splits)
  have le: "at + length (be_bytes 2 v) \<le> length bs" if "prefix (be_bytes 2 v) (drop at bs)" for v
    by (rule prefix_drop_le[OF that at])
  have "take_str bs at = Inr (x, at') \<longleftrightarrow>
      (\<exists>len. len < 65536 \<and> prefix (be_bytes 2 len) (drop at bs) \<and>
        (length x = len \<and> prefix x (drop (at + length (be_bytes 2 len)) bs)) \<and> utf8_valid x \<and>
        at' = at + length (be_bytes 2 len) + len)"
    unfolding take_str_def u16.then_reads[OF at] prod.case
    by (intro ex_cong1 conj_cong refl) (erule *[OF le])
  then show "take_str bs at = Inr (x, at') \<longleftrightarrow>
      str_ok x \<and> at' = at + length (str_bytes x) \<and> prefix (str_bytes x) (drop at bs)"
    by (auto simp: str_ok_def str_bytes_def prefix_append_drop)
qed

lemma write_str_Inr: "write_str b s w = Inr b' \<longleftrightarrow> length s \<le> u16_max \<and> b' = b @ str_bytes s"
  by (auto simp: write_str_def str_bytes_def)

end
