(* ===== verification/Wal_Record.thy ===== *)
theory Wal_Record
  imports Wire_Bytes
begin

text \<open>
  \<open>wal/log.rs\<close>: the kinds of log record and their byte format. The heap arms of \<open>deserialize\<close> index
  their slices unchecked, so the model's \<open>deserialize\<close> can panic (\<open>None\<close>); the DDL and run-identity
  arms read through the bounds-checked readers and only ever refuse.
\<close>

section \<open>The data\<close>

datatype data_type =
    IntegerT | FloatT | BooleanT | Varchar nat | BigInt | DecimalT | Timestamp

datatype column_alteration =
    Add rstring
  | Rename rstring rstring
  | Retype rstring data_type

datatype ddl_op = CreateTable | DropTable | AlterColumn column_alteration

type_synonym column = "rstring \<times> data_type \<times> bool"

record run_entity =
  prov_id :: nat
  agent_id :: rstring
  run_id :: rstring
  model :: rstring
  model_version :: rstring
  prompt_hash :: "byte list"
  started_at :: nat
  parent_branch :: "nat \<times> nat"

datatype rec_kind =
    Begin | Commit | Abort | TxnEnd
  | HeapInsert nat nat nat "byte list"
  | HeapDelete nat nat nat "byte list"
  | HeapUpdate nat nat nat "byte list" "byte list"
  | Clr nat nat rec_kind
  | CheckpointRec
  | Ddl ddl_op rstring nat nat "column list"
  | RunIdentity run_entity

section \<open>Writing\<close>

fun write_data_type :: "byte list \<Rightarrow> data_type \<Rightarrow> byte list" where
  "write_data_type b IntegerT = b @ [0]"
| "write_data_type b FloatT = b @ [1]"
| "write_data_type b BooleanT = b @ [2]"
| "write_data_type b (Varchar n) = b @ [3] @ be_bytes 2 n"
| "write_data_type b BigInt = b @ [4]"
| "write_data_type b DecimalT = b @ [5]"
| "write_data_type b Timestamp = b @ [6]"

fun write_ddl_op :: "byte list \<Rightarrow> ddl_op \<Rightarrow> byte list result" where
  "write_ddl_op b CreateTable = Inr (b @ [0])"
| "write_ddl_op b DropTable = Inr (b @ [1])"
| "write_ddl_op b (AlterColumn (Add c)) = write_str (b @ [2, 0]) c ''an added column's name''"
| "write_ddl_op b (AlterColumn (Rename f t)) =
     rbind (write_str (b @ [2, 1]) f ''a renamed column's old name'')
       (\<lambda>b. write_str b t ''a renamed column's new name'')"
| "write_ddl_op b (AlterColumn (Retype c f)) =
     rbind (write_str (b @ [2, 2]) c ''a retyped column's name'') (\<lambda>b. Inr (write_data_type b f))"

fun write_columns :: "byte list \<Rightarrow> column list \<Rightarrow> byte list result" where
  "write_columns b [] = Inr b"
| "write_columns b ((name, ty, nullable) # cs) =
     rbind (write_str b name ''a column name'')
       (\<lambda>b. write_columns (write_data_type b ty @ [if nullable then 1 else 0]) cs)"

fun serialize :: "byte list \<Rightarrow> rec_kind \<Rightarrow> byte list result" where
  "serialize b Begin = Inr (b @ [0])"
| "serialize b Commit = Inr (b @ [1])"
| "serialize b Abort = Inr (b @ [2])"
| "serialize b TxnEnd = Inr (b @ [3])"
| "serialize b CheckpointRec = Inr (b @ [4])"
| "serialize b (HeapInsert d p s t) =
     Inr (b @ [5] @ be_bytes 4 d @ be_bytes 4 p @ be_bytes 2 s @ be_bytes 4 (length t) @ t)"
| "serialize b (HeapDelete d p s old) =
     Inr (b @ [6] @ be_bytes 4 d @ be_bytes 4 p @ be_bytes 2 s @ be_bytes 4 (length old) @ old)"
| "serialize b (HeapUpdate d p s old new) =
     Inr (b @ [7] @ be_bytes 4 d @ be_bytes 4 p @ be_bytes 2 s @ be_bytes 4 (length old) @ old @
          be_bytes 4 (length new) @ new)"
| "serialize b (Ddl oper table d tt cols) =
     rbind (write_ddl_op (b @ [9]) oper) (\<lambda>b.
     rbind (write_str (b @ be_bytes 4 d @ be_bytes 4 tt) table ''a table name'') (\<lambda>b.
     if length cols \<le> u16_max then write_columns (b @ be_bytes 2 (length cols)) cols
     else Inl (Unrepresentable ''a DDL record's column count'' (length cols) u16_max)))"
| "serialize b (RunIdentity r) =
     rbind (write_str (b @ [10] @ be_bytes 4 (prov_id r)) (agent_id r) ''an agent id'') (\<lambda>b.
     rbind (write_str b (run_id r) ''a run id'') (\<lambda>b.
     rbind (write_str b (model r) ''a model name'') (\<lambda>b.
     rbind (write_str b (model_version r) ''a model version'') (\<lambda>b.
     Inr (b @ prompt_hash r @ be_bytes 8 (started_at r) @ be_bytes 8 (fst (parent_branch r)) @
          be_bytes 4 (snd (parent_branch r)))))))"
| "serialize b (Clr u n redo) = serialize (b @ [8] @ be_bytes 8 u @ be_bytes 8 n) redo"

section \<open>Reading\<close>

definition read_data_type :: "data_type reader" where
  "read_data_type bs at =
     rbind (take_u8 bs at) (\<lambda>(t, at).
       if t = 0 then Inr (IntegerT, at)
       else if t = 1 then Inr (FloatT, at)
       else if t = 2 then Inr (BooleanT, at)
       else if t = 3 then rbind (take_u16 bs at) (\<lambda>(n, at). Inr (Varchar n, at))
       else if t = 4 then Inr (BigInt, at)
       else if t = 5 then Inr (DecimalT, at)
       else if t = 6 then Inr (Timestamp, at)
       else Inl (Wal ''unknown column type tag''))"

definition read_alteration :: "column_alteration reader" where
  "read_alteration bs at =
     rbind (take_u8 bs at) (\<lambda>(t, at).
       if t = 0 then rbind (take_str bs at) (\<lambda>(c, at). Inr (Add c, at))
       else if t = 1 then
         rbind (take_str bs at) (\<lambda>(f, at). rbind (take_str bs at) (\<lambda>(s, at). Inr (Rename f s, at)))
       else if t = 2 then
         rbind (take_str bs at) (\<lambda>(c, at).
           rbind (read_data_type bs at) (\<lambda>(f, at). Inr (Retype c f, at)))
       else Inl (Wal ''unknown column alteration tag''))"

definition read_ddl_op :: "ddl_op reader" where
  "read_ddl_op bs at =
     rbind (take_u8 bs at) (\<lambda>(t, at).
       if t = 0 then Inr (CreateTable, at)
       else if t = 1 then Inr (DropTable, at)
       else if t = 2 then rbind (read_alteration bs at) (\<lambda>(a, at). Inr (AlterColumn a, at))
       else Inl (Wal ''unknown ddl op''))"

definition read_column :: "column reader" where
  "read_column bs at =
     rbind (take_str bs at) (\<lambda>(name, at).
     rbind (read_data_type bs at) (\<lambda>(ty, at).
     rbind (take_u8 bs at) (\<lambda>(nullable, at). Inr ((name, ty, nullable \<noteq> 0), at))))"

definition read_ddl :: "rec_kind reader" where
  "read_ddl bs at =
     rbind (read_ddl_op bs at) (\<lambda>(oper, at).
     rbind (take_u32 bs at) (\<lambda>(dir_root, at).
     rbind (take_u32 bs at) (\<lambda>(time_travel_root, at).
     rbind (take_str bs at) (\<lambda>(table, at).
     rbind (take_u16 bs at) (\<lambda>(count, at).
     rbind (read_n count read_column bs at) (\<lambda>(columns, at).
       Inr (Ddl oper table dir_root time_travel_root columns, at)))))))"

definition read_run :: "rec_kind reader" where
  "read_run bs at =
     rbind (take_u32 bs at) (\<lambda>(prov, at).
     if prov = 0 then Inl (Wal ''run identity record names ProvId::NONE'')
     else
     rbind (take_str bs at) (\<lambda>(agent, at).
     rbind (take_str bs at) (\<lambda>(rid, at).
     rbind (take_str bs at) (\<lambda>(mdl, at).
     rbind (take_str bs at) (\<lambda>(ver, at).
     rbind (take_array 32 bs at) (\<lambda>(hash, at).
     rbind (take_u64 bs at) (\<lambda>(started, at).
     rbind (take_u64 bs at) (\<lambda>(bid, at).
     rbind (take_u32 bs at) (\<lambda>(gen, at).
       Inr (RunIdentity \<lparr>prov_id = prov, agent_id = agent, run_id = rid, model = mdl,
              model_version = ver, prompt_hash = hash, started_at = started,
              parent_branch = (bid, gen)\<rparr>, at))))))))))"

text \<open>\<open>read_heap\<close> slices without checking: \<open>None\<close> where the source panics.\<close>

definition read_heap :: "byte list \<Rightarrow> (nat \<times> nat \<times> nat \<times> nat) option" where
  "read_heap bs =
     Option.bind (get_range bs 1 5) (\<lambda>d.
     Option.bind (get_range bs 5 9) (\<lambda>p.
     Option.bind (get_range bs 9 11) (\<lambda>s.
     Option.bind (get_range bs 11 15) (\<lambda>l.
       Some (from_be d, from_be p, from_be s, from_be l)))))"

function deserialize :: "byte list \<Rightarrow> rec_kind result option" where
  "deserialize bs =
     (case bs of
        [] \<Rightarrow> Some (Inl (Wal ''empty log record''))
      | t # _ \<Rightarrow>
          if t = 0 then Some (Inr Begin)
          else if t = 1 then Some (Inr Commit)
          else if t = 2 then Some (Inr Abort)
          else if t = 3 then Some (Inr TxnEnd)
          else if t = 4 then Some (Inr CheckpointRec)
          else if t = 5 then
            Option.bind (read_heap bs) (\<lambda>(d, p, s, l).
            Option.bind (get_range bs 15 (15 + l)) (\<lambda>tuple.
              Some (Inr (HeapInsert d p s tuple))))
          else if t = 6 then
            Option.bind (read_heap bs) (\<lambda>(d, p, s, l).
            Option.bind (get_range bs 15 (15 + l)) (\<lambda>old.
              Some (Inr (HeapDelete d p s old))))
          else if t = 7 then
            Option.bind (read_heap bs) (\<lambda>(d, p, s, l).
            Option.bind (get_range bs 15 (15 + l)) (\<lambda>old.
            Option.bind (get_range bs (15 + l) (19 + l)) (\<lambda>nl.
            Option.bind (get_range bs (19 + l) (19 + l + from_be nl)) (\<lambda>new.
              Some (Inr (HeapUpdate d p s old new))))))
          else if t = 9 then Some (rbind (read_ddl bs 1) (\<lambda>(r, at). Inr r))
          else if t = 10 then Some (rbind (read_run bs 1) (\<lambda>(r, at). Inr r))
          else if t = 8 then
            Option.bind (get_range bs 1 9) (\<lambda>u.
            Option.bind (get_range bs 9 17) (\<lambda>n.
            Option.bind (deserialize (drop 17 bs)) (\<lambda>r.
              Some (rbind r (\<lambda>redo. Inr (Clr (from_be u) (from_be n) redo))))))
          else Some (Inl (Wal ''unknown tag'')))"
  by pat_completeness auto
termination
  by (relation "measure length") auto

declare deserialize.simps [simp del]

section \<open>The format, as bytes\<close>

definition dt_bytes :: "data_type \<Rightarrow> byte list" where
  "dt_bytes t = write_data_type [] t"

fun dt_ok :: "data_type \<Rightarrow> bool" where
  "dt_ok (Varchar n) = (n < 65536)"
| "dt_ok t = True"

lemma write_data_type_eq: "write_data_type b t = b @ dt_bytes t"
  by (cases t) (auto simp: dt_bytes_def)

fun alt_bytes :: "column_alteration \<Rightarrow> byte list" where
  "alt_bytes (Add c) = [0] @ str_bytes c"
| "alt_bytes (Rename f t) = [1] @ str_bytes f @ str_bytes t"
| "alt_bytes (Retype c f) = [2] @ str_bytes c @ dt_bytes f"

fun alt_ok :: "column_alteration \<Rightarrow> bool" where
  "alt_ok (Add c) = str_ok c"
| "alt_ok (Rename f t) = (str_ok f \<and> str_ok t)"
| "alt_ok (Retype c f) = (str_ok c \<and> dt_ok f)"

fun op_bytes :: "ddl_op \<Rightarrow> byte list" where
  "op_bytes CreateTable = [0]"
| "op_bytes DropTable = [1]"
| "op_bytes (AlterColumn a) = [2] @ alt_bytes a"

fun op_ok :: "ddl_op \<Rightarrow> bool" where
  "op_ok (AlterColumn a) = alt_ok a"
| "op_ok _ = True"

fun col_bytes :: "column \<Rightarrow> byte list" where
  "col_bytes (name, ty, nullable) = str_bytes name @ dt_bytes ty @ [if nullable then 1 else 0]"

fun col_ok :: "column \<Rightarrow> bool" where
  "col_ok (name, ty, nullable) = (str_ok name \<and> dt_ok ty)"

fun rec_bytes :: "rec_kind \<Rightarrow> byte list" where
  "rec_bytes Begin = [0]"
| "rec_bytes Commit = [1]"
| "rec_bytes Abort = [2]"
| "rec_bytes TxnEnd = [3]"
| "rec_bytes CheckpointRec = [4]"
| "rec_bytes (HeapInsert d p s t) =
     [5] @ be_bytes 4 d @ be_bytes 4 p @ be_bytes 2 s @ be_bytes 4 (length t) @ t"
| "rec_bytes (HeapDelete d p s t) =
     [6] @ be_bytes 4 d @ be_bytes 4 p @ be_bytes 2 s @ be_bytes 4 (length t) @ t"
| "rec_bytes (HeapUpdate d p s t n) =
     [7] @ be_bytes 4 d @ be_bytes 4 p @ be_bytes 2 s @ be_bytes 4 (length t) @ t @
     be_bytes 4 (length n) @ n"
| "rec_bytes (Ddl oper table d tt cols) =
     [9] @ op_bytes oper @ be_bytes 4 d @ be_bytes 4 tt @ str_bytes table @
     be_bytes 2 (length cols) @ concat (map col_bytes cols)"
| "rec_bytes (RunIdentity r) =
     [10] @ be_bytes 4 (prov_id r) @ str_bytes (agent_id r) @ str_bytes (run_id r) @
     str_bytes (model r) @ str_bytes (model_version r) @ prompt_hash r @ be_bytes 8 (started_at r) @
     be_bytes 8 (fst (parent_branch r)) @ be_bytes 4 (snd (parent_branch r))"
| "rec_bytes (Clr u n redo) = [8] @ be_bytes 8 u @ be_bytes 8 n @ rec_bytes redo"

text \<open>
  The records the codec carries whole: the integers fit the widths of their Rust types, and beyond the types, a
  string and a column list fit the \<open>u16\<close> their length is written in (the writer refuses longer ones), a tuple the \<open>u32\<close> its
  length is cast to, the prompt hash has its 32 bytes, and a run identity does not carry provenance id 0, which means
  \<open>no run\<close> and which the reader refuses.
\<close>

fun rec_ok :: "rec_kind \<Rightarrow> bool" where
  "rec_ok (HeapInsert d p s t) =
     (d < 2 ^ 32 \<and> p < 2 ^ 32 \<and> s < 2 ^ 16 \<and> length t < 2 ^ 32)"
| "rec_ok (HeapDelete d p s t) =
     (d < 2 ^ 32 \<and> p < 2 ^ 32 \<and> s < 2 ^ 16 \<and> length t < 2 ^ 32)"
| "rec_ok (HeapUpdate d p s t n) =
     (d < 2 ^ 32 \<and> p < 2 ^ 32 \<and> s < 2 ^ 16 \<and> length t < 2 ^ 32 \<and> length n < 2 ^ 32)"
| "rec_ok (Ddl oper table d tt cols) =
     (op_ok oper \<and> str_ok table \<and> d < 2 ^ 32 \<and> tt < 2 ^ 32 \<and> list_all col_ok cols \<and>
      length cols \<le> u16_max)"
| "rec_ok (RunIdentity r) =
     (prov_id r \<noteq> 0 \<and> prov_id r < 2 ^ 32 \<and> str_ok (agent_id r) \<and> str_ok (run_id r) \<and>
      str_ok (model r) \<and> str_ok (model_version r) \<and> length (prompt_hash r) = 32 \<and>
      started_at r < 2 ^ 64 \<and> fst (parent_branch r) < 2 ^ 64 \<and> snd (parent_branch r) < 2 ^ 32)"
| "rec_ok (Clr u n redo) = (u < 2 ^ 64 \<and> n < 2 ^ 64 \<and> rec_ok redo)"
| "rec_ok _ = True"

section \<open>Every reader inverts its writer\<close>

lemma dt_bytes_simps [simp]:
  "dt_bytes IntegerT = [0]" "dt_bytes FloatT = [1]" "dt_bytes BooleanT = [2]"
  "dt_bytes (Varchar n) = 3 # be_bytes 2 n" "dt_bytes BigInt = [4]" "dt_bytes DecimalT = [5]"
  "dt_bytes Timestamp = [6]"
  by (auto simp: dt_bytes_def)

lemma prefix_Cons_drop:
  "k \<le> length zs \<Longrightarrow>
   prefix (x # ys) (drop k zs) \<longleftrightarrow> k < length zs \<and> zs ! k = x \<and> prefix ys (drop (Suc k) zs)"
  using prefix_append_drop[of "[x]" ys k zs] by (auto simp: drop_single)

lemma bind_u8:
  "k \<le> length bs \<Longrightarrow>
   rbind (take_u8 bs k) f = Inr y \<longleftrightarrow> k < length bs \<and> f (bs ! k, Suc k) = Inr y"
  by (auto simp: take_u8_def)

interpretation dt: codec dt_bytes read_data_type dt_ok
proof
  fix at and bs :: "byte list" and x at'
  assume at: "at \<le> length bs"
  show "read_data_type bs at = Inr (x, at') \<longleftrightarrow>
      dt_ok x \<and> at' = at + length (dt_bytes x) \<and> prefix (dt_bytes x) (drop at bs)"
  proof (cases "at < length bs")
    case True
    then have "Suc at \<le> length bs" by simp
    note u = u16.then_reads[OF this, of "\<lambda>(n, at). Inr (Varchar n, at)"]
    show ?thesis
      unfolding read_data_type_def bind_u8[OF at]
      by (cases x) (use True in \<open>auto simp: u prefix_Cons_drop\<close>)
  next
    case False
    with at show ?thesis
      unfolding read_data_type_def bind_u8[OF at]
      by (cases x) (auto simp: prefix_Cons_drop)
  qed
qed

lemma str_then_le:
  "at \<le> length bs \<Longrightarrow> prefix (str_bytes s) (drop at bs) \<Longrightarrow> at + length (str_bytes s) \<le> length bs"
  by (rule prefix_drop_le)

lemma alt_decoder: "decoder alt_bytes read_alteration alt_ok"
proof
  fix at and bs :: "byte list" and x
  assume "alt_ok x" "at \<le> length bs" and p: "prefix (alt_bytes x) (drop at bs)"
  moreover from p have "at + length (alt_bytes x) \<le> length bs"
    using prefix_drop_le \<open>at \<le> length bs\<close> by blast
  ultimately show "read_alteration bs at = Inr (x, at + length (alt_bytes x))"
    by (cases x) (auto simp: read_alteration_def take_u8_def prefix_Cons_drop prefix_append_drop
        str.bind_put dt.bind_put)
qed

interpretation alt: codec alt_bytes read_alteration alt_ok
proof (rule codecI[OF alt_decoder])
  fix at and bs :: "byte list" and x at'
  assume "read_alteration bs at = Inr (x, at')" "at \<le> length bs"
  then show "alt_ok x \<and> at' = at + length (alt_bytes x) \<and> prefix (alt_bytes x) (drop at bs)"
    unfolding read_alteration_def
    by (auto simp: rbind_Inr prefix_Cons_drop prefix_append_drop add.assoc
        simp: u8.reads_b str.reads_b dt.reads_b split: if_splits)
qed

lemma ddl_oper_decoder: "decoder op_bytes read_ddl_op op_ok"
proof
  fix at and bs :: "byte list" and x
  assume "op_ok x" "at \<le> length bs" and p: "prefix (op_bytes x) (drop at bs)"
  moreover from p have "at + length (op_bytes x) \<le> length bs"
    using prefix_drop_le \<open>at \<le> length bs\<close> by blast
  ultimately show "read_ddl_op bs at = Inr (x, at + length (op_bytes x))"
    by (cases x) (auto simp: read_ddl_op_def take_u8_def prefix_Cons_drop alt.bind_put)
qed

interpretation ddl_oper: codec op_bytes read_ddl_op op_ok
proof (rule codecI[OF ddl_oper_decoder])
  fix at and bs :: "byte list" and x at'
  assume "read_ddl_op bs at = Inr (x, at')" "at \<le> length bs"
  then show "op_ok x \<and> at' = at + length (op_bytes x) \<and> prefix (op_bytes x) (drop at bs)"
    unfolding read_ddl_op_def
    by (auto simp: rbind_Inr prefix_Cons_drop prefix_append_drop add.assoc
        simp: u8.reads_b alt.reads_b split: if_splits)
qed

interpretation col: decoder col_bytes read_column col_ok
proof
  fix at and bs :: "byte list" and x
  assume "col_ok x" "at \<le> length bs" and p: "prefix (col_bytes x) (drop at bs)"
  moreover from p have "at + length (col_bytes x) \<le> length bs"
    using prefix_drop_le \<open>at \<le> length bs\<close> by blast
  ultimately show "read_column bs at = Inr (x, at + length (col_bytes x))"
    by (cases x) (auto simp: read_column_def take_u8_def prefix_append_drop str.bind_put
        dt.bind_put drop_single add.assoc)
qed

text \<open>
  A column's nullable flag is read as \<open>!= 0\<close>, so a column has several spellings; what is read still
  fits the format.
\<close>

lemma read_column_yields:
  "read_column bs at = Inr (x, at') \<Longrightarrow> at \<le> length bs \<Longrightarrow> col_ok x \<and> at' \<le> length bs"
  unfolding read_column_def
  by (auto simp: rbind_Inr simp: u8.reads_b str.reads_b dt.reads_b)

lemma read_columns_yields:
  "read_n n read_column bs at = Inr (xs, at') \<Longrightarrow> at \<le> length bs \<Longrightarrow>
   list_all col_ok xs \<and> length xs = n \<and> at' \<le> length bs"
  by (rule read_n_yields[OF read_column_yields])

lemma read_ddl_yields:
  assumes "read_ddl bs at = Inr (r, at')" "at \<le> length bs"
  shows "rec_ok r \<and> (\<exists>oper table d tt cols. r = Ddl oper table d tt cols)"
  using assms unfolding read_ddl_def
  by (auto simp: rbind_Inr simp: ddl_oper.reads_b u32.reads_b str.reads_b u16.reads_b dest!: read_columns_yields)

text \<open>What a writer leaves in the buffer, when it does not refuse.\<close>

lemma write_ddl_op_Inr:
  "write_ddl_op b x = Inr b' \<Longrightarrow> b' = b @ op_bytes x"
  by (cases "(b, x)" rule: write_ddl_op.cases)
    (auto simp: write_str_Inr rbind_Inr write_data_type_eq)

lemma write_columns_Inr:
  "write_columns b cs = Inr b' \<Longrightarrow> b' = b @ concat (map col_bytes cs)"
  by (induction cs arbitrary: b)
    (fastforce simp: write_str_Inr rbind_Inr write_data_type_eq)+

lemma write_columns_ok:
  "list_all col_ok cs \<Longrightarrow> write_columns b cs = Inr (b @ concat (map col_bytes cs))"
  by (induction b cs rule: write_columns.induct)
    (auto simp: write_str_def str_bytes_def str_ok_def write_data_type_eq)

lemma write_ddl_op_ok: "op_ok x \<Longrightarrow> write_ddl_op b x = Inr (b @ op_bytes x)"
  by (cases "(b, x)" rule: write_ddl_op.cases)
    (auto simp: write_str_def str_bytes_def str_ok_def write_data_type_eq)

lemma serialize_Inr: "serialize b r = Inr b' \<Longrightarrow> b' = b @ rec_bytes r"
  by (induction b r arbitrary: b' rule: serialize.induct)
    (auto simp: rbind_Inr write_str_Inr dest!: write_ddl_op_Inr write_columns_Inr split: if_splits)

lemma serialize_ok: "rec_ok r \<Longrightarrow> serialize b r = Inr (b @ rec_bytes r)"
  by (induction b r rule: serialize.induct)
    (auto simp: write_ddl_op_ok write_columns_ok write_str_def str_bytes_def str_ok_def)

lemma get_range_prefix:
  "prefix s (drop a bs) \<Longrightarrow> a \<le> length bs \<Longrightarrow> e = a + length s \<Longrightarrow> get_range bs a e = Some s"
  by (simp add: get_range_at)

lemma read_ddl_put:
  assumes "rec_ok (Ddl oper table d tt cols)" "prefix (rec_bytes (Ddl oper table d tt cols)) bs"
  shows "rbind (read_ddl bs 1) (\<lambda>(r, at). Inr r) = Inr (Ddl oper table d tt cols)"
proof -
  have "prefix (op_bytes oper @ be_bytes 4 d @ be_bytes 4 tt @ str_bytes table @
      be_bytes 2 (length cols) @ concat (map col_bytes cols)) (drop 1 bs)" and "1 \<le> length bs"
    using assms(2) by (auto simp: prefix_def)
  moreover from this have "1 + length (op_bytes oper @ be_bytes 4 d @ be_bytes 4 tt @ str_bytes table @
      be_bytes 2 (length cols) @ concat (map col_bytes cols)) \<le> length bs"
    using prefix_drop_le by blast
  ultimately show ?thesis
    using assms(1)
    by (clarsimp simp: read_ddl_def prefix_append_drop ddl_oper.bind_put u32.bind_put str.bind_put
        u16.bind_put col.read_n_put add.assoc)
qed

lemma read_run_put:
  assumes "rec_ok (RunIdentity r)" "prefix (rec_bytes (RunIdentity r)) bs"
  shows "rbind (read_run bs 1) (\<lambda>(r, at). Inr r) = Inr (RunIdentity r)"
proof -
  let ?body = "be_bytes 4 (prov_id r) @ str_bytes (agent_id r) @ str_bytes (run_id r) @
     str_bytes (model r) @ str_bytes (model_version r) @ prompt_hash r @ be_bytes 8 (started_at r) @
     be_bytes 8 (fst (parent_branch r)) @ be_bytes 4 (snd (parent_branch r))"
  have "prefix ?body (drop 1 bs)" and "1 \<le> length bs"
    using assms(2) by (auto simp: prefix_def)
  moreover from this have "1 + length ?body \<le> length bs"
    using prefix_drop_le by blast
  ultimately show ?thesis
    using assms(1)
    by (clarsimp simp: read_run_def prefix_append_drop u32.bind_put str.bind_put u64.bind_put arr.bind_put
        add.assoc)
qed

lemma prefix_Cons_hd: "prefix (x # ys) bs \<longleftrightarrow> (\<exists>zs. bs = x # zs \<and> prefix ys zs)"
  by (cases bs) auto

lemma read_heap_put:
  assumes "prefix (h # be_bytes 4 d @ be_bytes 4 p @ be_bytes 2 s @ be_bytes 4 l @ rest) bs"
    "d < 2 ^ 32" "p < 2 ^ 32" "s < 2 ^ 16" "l < 2 ^ 32"
  shows "read_heap bs = Some (d, p, s, l)" "15 \<le> length bs" "prefix rest (drop 15 bs)"
proof -
  let ?body = "be_bytes 4 d @ be_bytes 4 p @ be_bytes 2 s @ be_bytes 4 l @ rest"
  have *: "prefix ?body (drop 1 bs)" "1 \<le> length bs"
    using assms(1) by (auto simp: prefix_def)
  then have "1 + length ?body \<le> length bs" using prefix_drop_le by blast
  then show "read_heap bs = Some (d, p, s, l)" "15 \<le> length bs" "prefix rest (drop 15 bs)"
    using * assms(2-)
    by (auto simp: read_heap_def prefix_append_drop get_range_prefix from_be_be_bytes)
qed

lemma deserialize_put:
  "rec_ok r \<Longrightarrow> prefix (rec_bytes r) bs \<Longrightarrow> deserialize bs = Some (Inr r)"
proof (induction r arbitrary: bs)
  case (HeapInsert d p s t)
  then show ?case
    using read_heap_put[of 5 d p s "length t" t bs] get_range_prefix[of t 15 bs]
    by (subst deserialize.simps) (auto simp: prefix_Cons_hd)
next
  case (HeapDelete d p s t)
  then show ?case
    using read_heap_put[of 6 d p s "length t" t bs] get_range_prefix[of t 15 bs]
    by (subst deserialize.simps) (auto simp: prefix_Cons_hd)
next
  case (HeapUpdate d p s t n)
  let ?k = "15 + length t"
  from HeapUpdate have h: "read_heap bs = Some (d, p, s, length t)" "15 \<le> length bs"
      "prefix (t @ be_bytes 4 (length n) @ n) (drop 15 bs)"
    using read_heap_put[of 7 d p s "length t" "t @ be_bytes 4 (length n) @ n" bs] by simp_all
  then have "15 + length (t @ be_bytes 4 (length n) @ n) \<le> length bs"
    using prefix_drop_le by blast
  with h have "get_range bs 15 ?k = Some t"
      "get_range bs ?k (19 + length t) = Some (be_bytes 4 (length n))"
      "get_range bs (19 + length t) (19 + length t + length n) = Some n"
    by (auto simp: prefix_append_drop get_range_prefix ac_simps)
  with h HeapUpdate show ?case
    by (subst deserialize.simps) (auto simp: prefix_Cons_hd from_be_be_bytes)
next
  case (Ddl oper table d tt cols)
  then show ?case
    using read_ddl_put[of oper table d tt cols bs]
    by (subst deserialize.simps) (auto simp: prefix_Cons_hd)
next
  case (RunIdentity r)
  then show ?case
    using read_run_put[of r bs] by (subst deserialize.simps) (auto simp: prefix_Cons_hd)
next
  case (Clr u n redo)
  then have *: "prefix (be_bytes 8 u @ be_bytes 8 n @ rec_bytes redo) (drop 1 bs)" "1 \<le> length bs"
    by (auto simp: prefix_def)
  then have "1 + length (be_bytes 8 u @ be_bytes 8 n @ rec_bytes redo) \<le> length bs"
    using prefix_drop_le by blast
  with * have g: "get_range bs 1 9 = Some (be_bytes 8 u)" "get_range bs 9 17 = Some (be_bytes 8 n)"
      "prefix (rec_bytes redo) (drop 17 bs)" "17 \<le> length bs"
    by (auto simp: prefix_append_drop get_range_prefix)
  then have "deserialize (drop 17 bs) = Some (Inr redo)" using Clr by simp
  with g Clr show ?case
    by (subst deserialize.simps) (auto simp: prefix_Cons_hd from_be_be_bytes)
qed (subst deserialize.simps, auto simp: prefix_Cons_hd)+

text \<open>
  (C36) The log record codec round-trips: a record is always serialized, and reading its bytes back,
  whatever follows them in the buffer, gives the record itself without a panic, provided its integers
  fit their Rust types, its strings (UTF-8, as Rust's are) and column list are no longer than a \<open>u16\<close> counts, its tuples no
  longer than a \<open>u32\<close> counts, and a run identity in it carries a provenance id other than 0.
\<close>

theorem rec_kind_roundtrip:
  assumes "rec_ok r"
  shows "\<exists>bs. serialize [] r = Inr bs \<and> deserialize (bs @ trailing) = Some (Inr r)"
  using serialize_ok[OF assms, of "[]"] deserialize_put[OF assms, of "rec_bytes r @ trailing"] by simp

theorem rec_kind_roundtrip_witness:
  "rec_ok (Clr 7 9 (HeapUpdate 1 2 3 [4, 5] [6])) \<and>
   (\<exists>bs. serialize [] (Clr 7 9 (HeapUpdate 1 2 3 [4, 5] [6])) = Inr bs \<and>
     deserialize (bs @ [0xFF]) = Some (Inr (Clr 7 9 (HeapUpdate 1 2 3 [4, 5] [6]))))"
  using rec_kind_roundtrip[of "Clr 7 9 (HeapUpdate 1 2 3 [4, 5] [6])" "[0xFF]"] by simp

end
