(* ===== verification/Contract.thy ===== *)
theory Contract
  imports Config Wal_Record
begin

text \<open>
  The data of the consensus state machine: the log entries, messages, events and actions of
  \<open>consensus/mod.rs\<close>, the per-peer progress and in-memory log of \<open>consensus/replicate.rs\<close>, the
  snapshot envelope and transfer cursors of \<open>consensus/snapshot.rs\<close>, and the record \<open>consensus\<close>
  with the fields of the struct \<open>Consensus\<close>.

  Fields of the smaller records carry a prefix naming their struct; those of \<open>consensus\<close> keep the
  source's names. A \<open>BTreeMap\<close> is a map with finite domain, the \<open>BTreeSet\<close> of votes a set. Of the text
  of an error only a short tag is kept.
\<close>

section \<open>Commands and entries\<close>

datatype branch_op =
    Fork nat nat nat nat
  | Merge nat nat
  | Abandon nat
  | Reap nat nat

datatype command =
    WalBatch nat "byte list"
  | Catalog ddl_op rstring "column list"
  | Branch branch_op
  | ArenaGrant node_id nat nat
  | TxnIdRange node_id nat nat
  | LeaseTick nat
  | Checkpoint
  | Membership config
  | NoOp

record entry =
  e_term :: nat
  e_round :: nat
  e_command :: command

datatype role = Follower | PreCandidate | Candidate | Leader

section \<open>Snapshots in transit\<close>

record snapshot_meta =
  sm_last_round :: nat
  sm_last_term :: nat
  sm_config :: config
  sm_total_bytes :: nat

datatype snapshot_error = Refused string

record payload_header =
  ph_base_digest :: u64
  ph_last_round :: nat
  ph_last_term :: nat
  ph_root_page_id :: nat
  ph_catalog_page_id :: nat
  ph_start_lsn :: nat
  ph_end_lsn :: nat
  ph_page_count :: nat
  ph_arena_len :: nat
  ph_branches_len :: nat
  ph_image_len :: nat
  ph_wal_len :: nat
  ph_body_digest :: u64

record snapshot =
  sn_meta :: snapshot_meta
  sn_header :: payload_header
  sn_bytes :: "byte list"

record send_cursor =
  sc_snapshot :: snapshot
  sc_acked :: nat

record recv_cursor =
  rc_meta :: snapshot_meta
  rc_header :: payload_header
  rc_received :: nat
  rc_body_digest :: u64
  rc_complete :: bool

section \<open>Messages, events, actions\<close>

datatype body =
    PreVote nat nat
  | PreVoteResp bool
  | RequestVote nat nat
  | RequestVoteResp bool
  | Append nat nat "entry list" nat
  | AppendResp bool nat nat u64
  | InstallSnapshot snapshot_meta nat "byte list" bool
  | InstallSnapshotResp nat

record message =
  m_from :: node_id
  m_to :: node_id
  m_term :: nat
  m_body :: body

datatype event =
    Tick
  | Recv message
  | Persisted nat nat
  | Propose command

datatype action =
    Send message
  | Persist "entry list"
  | PersistHardState nat "node_id option"
  | Apply nat
  | Truncate nat
  | RoleChanged role nat "node_id option"
  | Refuse ferro_error

fun is_request :: "body \<Rightarrow> bool" where
  "is_request (PreVote _ _) = True"
| "is_request (RequestVote _ _) = True"
| "is_request (Append _ _ _ _) = True"
| "is_request (InstallSnapshot _ _ _ _) = True"
| "is_request _ = False"

text \<open>\<open>None\<close> is the source's \<open>unreachable!\<close>.\<close>

fun stale_refusal :: "body \<Rightarrow> body option" where
  "stale_refusal (PreVote _ _) = Some (PreVoteResp False)"
| "stale_refusal (RequestVote _ _) = Some (RequestVoteResp False)"
| "stale_refusal (Append _ _ _ _) = Some (AppendResp False 0 0 0)"
| "stale_refusal (InstallSnapshot _ _ _ _) = Some (InstallSnapshotResp 0)"
| "stale_refusal _ = None"

section \<open>The state\<close>

record hard_state =
  hs_term :: nat
  hs_voted_for :: "node_id option"

record log_tail =
  lt_base :: nat
  lt_base_digest :: u64
  lt_entries :: "entry list"
  lt_digests :: "u64 list"
  lt_rewritten_in_term :: nat

text \<open>
  Why a peer is latched as diverged: of the message the source formats, the values it is about (the
  peer, the round, the digest it reported, this leader's own).
\<close>

datatype divergence = Diverged node_id nat u64 u64

record progress =
  p_next :: nat
  p_matched :: nat
  p_silent :: nat
  p_needs_snapshot :: bool
  p_diverged :: "divergence option"
  p_own_log :: "log_tail option"
  p_sending :: "send_cursor option"
  p_receiving :: "recv_cursor option"

definition progress_default :: progress where
  "progress_default =
     \<lparr>p_next = 0, p_matched = 0, p_silent = 0, p_needs_snapshot = False, p_diverged = None,
      p_own_log = None, p_sending = None, p_receiving = None\<rparr>"

record consensus =
  self_id :: node_id
  role :: role
  hard :: hard_state
  leader :: "node_id option"
  cfg :: config
  campaign :: "config option"
  acked :: "node_id \<rightharpoonup> cfg_at"
  behind :: bool
  unjoined :: bool
  since_heard :: nat
  since_quorum :: nat
  election_timeout :: nat
  election_base :: nat
  lease :: nat
  heartbeat :: nat
  since_heartbeat :: nat
  votes :: "node_id set"
  progress :: "node_id \<rightharpoonup> progress"
  commit :: nat
  applied :: nat
  durable :: nat
  last_term :: nat
  last_round :: nat
  snapshot_round :: nat
  snapshot_term :: nat
  rng :: u64

type_synonym step = "(consensus, action) handler"

text \<open>\<open>self.progress.entry(n).or_default()\<close>, and an update through it.\<close>

definition progress_entry :: "consensus \<Rightarrow> node_id \<Rightarrow> progress" where
  "progress_entry c n = (case progress c n of None \<Rightarrow> progress_default | Some p \<Rightarrow> p)"

definition upd_progress :: "node_id \<Rightarrow> (progress \<Rightarrow> progress) \<Rightarrow> consensus \<Rightarrow> consensus" where
  "upd_progress n f c = c\<lparr>progress := (progress c)(n \<mapsto> f (progress_entry c n))\<rparr>"

abbreviation cur_term :: "consensus \<Rightarrow> nat" where "cur_term c \<equiv> hs_term (hard c)"

text \<open>An outgoing message always carries this node's id and term.\<close>

definition send_to :: "consensus \<Rightarrow> node_id \<Rightarrow> body \<Rightarrow> action" where
  "send_to c dest b = Send \<lparr>m_from = self_id c, m_to = dest, m_term = cur_term c, m_body = b\<rparr>"

end
