(* ===== verification/Digest.thy ===== *)
theory Digest
  imports Contract
begin

text \<open>
  The rolling entry digest of \<open>consensus/replicate.rs\<close>: FNV-1a folded over a length-prefixed
  rendering of each entry, chained round by round. The arithmetic wraps, so digests are \<open>64 word\<close>.
\<close>

unbundle bit_operations_syntax

section \<open>FNV-1a\<close>

definition fnv_prime :: u64 where "fnv_prime = 0x100000001b3"

definition FNV_OFFSET :: u64 where "FNV_OFFSET = 0xcbf29ce484222325"

fun fnv64_update :: "u64 \<Rightarrow> byte list \<Rightarrow> u64" where
  "fnv64_update h [] = h"
| "fnv64_update h (b # bs) = fnv64_update ((h XOR ucast b) * fnv_prime) bs"

definition fold_bytes :: "u64 \<Rightarrow> byte list \<Rightarrow> u64" where
  "fold_bytes h bs = fnv64_update (fnv64_update h (be_bytes 8 (length bs))) bs"

definition fold_str :: "u64 \<Rightarrow> rstring \<Rightarrow> u64" where
  "fold_str h s = fold_bytes h s"

definition fold_u64 :: "u64 \<Rightarrow> nat \<Rightarrow> u64" where
  "fold_u64 h v = fnv64_update h (be_bytes 8 v)"

definition fold_tag :: "u64 \<Rightarrow> byte \<Rightarrow> u64" where
  "fold_tag h tag = fnv64_update h [tag]"

section \<open>Folding the parts of an entry\<close>

fun fold_data_type :: "u64 \<Rightarrow> data_type \<Rightarrow> u64" where
  "fold_data_type h IntegerT = fold_tag h 0"
| "fold_data_type h FloatT = fold_tag h 1"
| "fold_data_type h BooleanT = fold_tag h 2"
| "fold_data_type h (Varchar n) = fold_u64 (fold_tag h 3) n"
| "fold_data_type h BigInt = fold_tag h 4"
| "fold_data_type h DecimalT = fold_tag h 5"
| "fold_data_type h Timestamp = fold_tag h 6"

fun fold_ddl_op :: "u64 \<Rightarrow> ddl_op \<Rightarrow> u64" where
  "fold_ddl_op h CreateTable = fold_tag h 0"
| "fold_ddl_op h DropTable = fold_tag h 1"
| "fold_ddl_op h (AlterColumn (Add column)) = fold_str (fold_tag (fold_tag h 2) 0) column"
| "fold_ddl_op h (AlterColumn (Rename f t)) = fold_str (fold_str (fold_tag (fold_tag h 2) 1) f) t"
| "fold_ddl_op h (AlterColumn (Retype column f)) =
     fold_data_type (fold_str (fold_tag (fold_tag h 2) 2) column) f"

definition fold_config :: "u64 \<Rightarrow> config \<Rightarrow> u64" where
  "fold_config h c =
     (let h = fold_u64 (fold_u64 h (cfg_version c)) (cfg_term c);
          h = foldl fold_u64 (fold_u64 h (length (members c))) (members c)
      in foldl fold_u64 (fold_u64 h (length (learners c))) (learners c))"

definition fold_column :: "u64 \<Rightarrow> column \<Rightarrow> u64" where
  "fold_column h col =
     (case col of (name, ty, nullable) \<Rightarrow>
        fold_tag (fold_data_type (fold_str h name) ty) (if nullable then 1 else 0))"

fun fold_branch_op :: "u64 \<Rightarrow> branch_op \<Rightarrow> u64" where
  "fold_branch_op h (Fork child par epoch millis) =
     fold_u64 (fold_u64 (fold_u64 (fold_u64 (fold_tag h 0) child) par) epoch) millis"
| "fold_branch_op h (Merge branch base_round) = fold_u64 (fold_u64 (fold_tag h 1) branch) base_round"
| "fold_branch_op h (Abandon branch) = fold_u64 (fold_tag h 2) branch"
| "fold_branch_op h (Reap branch gen) = fold_u64 (fold_u64 (fold_tag h 3) branch) gen"

fun fold_command :: "u64 \<Rightarrow> command \<Rightarrow> u64" where
  "fold_command h (WalBatch lsn bs) = fold_bytes (fold_u64 (fold_tag h 0) lsn) bs"
| "fold_command h (Catalog oper table cols) =
     foldl fold_column
       (fold_u64 (fold_str (fold_ddl_op (fold_tag h 1) oper) table) (length cols)) cols"
| "fold_command h (Branch oper) = fold_branch_op (fold_tag h 2) oper"
| "fold_command h (ArenaGrant node first count) =
     fold_u64 (fold_u64 (fold_u64 (fold_tag h 3) node) first) count"
| "fold_command h (TxnIdRange node lo hi) =
     fold_u64 (fold_u64 (fold_u64 (fold_tag h 4) node) lo) hi"
| "fold_command h (LeaseTick millis) = fold_u64 (fold_tag h 5) millis"
| "fold_command h Checkpoint = fold_tag h 6"
| "fold_command h (Membership c) = fold_config (fold_tag h 7) c"
| "fold_command h NoOp = fold_tag h 8"

definition never_zero :: "u64 \<Rightarrow> u64" where
  "never_zero h = (if h = 0 then FNV_OFFSET else h)"

definition fold_entry :: "u64 \<Rightarrow> entry \<Rightarrow> u64" where
  "fold_entry prev e =
     never_zero (fold_command (fold_u64 (fold_u64 prev (e_term e)) (e_round e)) (e_command e))"

section \<open>What a digest can and cannot be\<close>

lemma fnv64_update_append: "fnv64_update h (xs @ ys) = fnv64_update (fnv64_update h xs) ys"
  by (induction xs arbitrary: h) auto

text \<open>A real digest is never the value that means \<open>not claiming anything\<close>.\<close>

lemma fold_entry_nonzero [simp]: "fold_entry prev e \<noteq> 0"
  by (simp add: fold_entry_def never_zero_def FNV_OFFSET_def)

text \<open>
  The FNV prime is odd, so multiplying by it is invertible modulo \<open>2 ^ 64\<close>: each step loses nothing of
  the running value.
\<close>

lemma fnv_prime_inverse: "fnv_prime * 14886173955864302971 = 1"
  by (simp add: fnv_prime_def)

lemma fnv_mult_inject [simp]: "a * fnv_prime = b * fnv_prime \<longleftrightarrow> a = b"
proof
  assume "a * fnv_prime = b * fnv_prime"
  then have "a * (fnv_prime * 14886173955864302971) = b * (fnv_prime * 14886173955864302971)"
    by (simp add: mult.assoc[symmetric])
  then show "a = b" by (simp add: fnv_prime_inverse)
qed simp

lemma xor_inject_left [simp]: "(h XOR a) = (h' XOR a) \<longleftrightarrow> h = (h' :: u64)"
proof
  assume "(h XOR a) = (h' XOR a)"
  then have "(h XOR a) XOR a = (h' XOR a) XOR a" by simp
  then show "h = h'" by (simp add: xor.assoc)
qed simp

lemma take_bit_byte: "take_bit 64 (unat (a :: byte)) = unat a"
proof -
  have "unat a < 256" by (rule unat_byte_lt)
  then have "unat a < 2 ^ 64" by simp
  then show ?thesis by (rule take_bit_nat_eq_self)
qed

lemma ucast_byte_inject [simp]: "(ucast a :: u64) = ucast b \<longleftrightarrow> a = (b :: byte)"
proof
  assume "(ucast a :: u64) = ucast b"
  then have "unat (ucast a :: u64) = unat (ucast b :: u64)" by simp
  then show "a = b" by (simp add: unsigned_ucast_eq take_bit_byte word_unat_eq_iff)
qed simp

lemma fnv64_update_inject: "fnv64_update h bs = fnv64_update h' bs \<longleftrightarrow> h = h'"
  by (induction bs arbitrary: h h') auto

lemma fnv64_byte_inject: "fnv64_update h (a # bs) = fnv64_update h (b # bs) \<longleftrightarrow> a = b"
proof -
  have "fnv64_update h (a # bs) = fnv64_update h (b # bs) \<longleftrightarrow>
      (h XOR ucast a) = (h XOR (ucast b :: u64))"
    by (simp add: fnv64_update_inject)
  also have "\<dots> \<longleftrightarrow> (ucast a :: u64) = ucast b"
    using xor_inject_left[of "ucast a" h "ucast b"] by (simp add: xor.commute)
  finally show ?thesis by simp
qed

section \<open>The bytes an entry stands for\<close>

text \<open>
  What the folds above consume, as one byte string per value: every field in its order, integers in eight
  bytes, a variable-length piece after its length, a tag in front of each variant.
\<close>

definition str_piece :: "byte list \<Rightarrow> byte list" where
  "str_piece bs = be_bytes 8 (length bs) @ bs"

fun type_piece :: "data_type \<Rightarrow> byte list" where
  "type_piece IntegerT = [0]"
| "type_piece FloatT = [1]"
| "type_piece BooleanT = [2]"
| "type_piece (Varchar n) = 3 # be_bytes 8 n"
| "type_piece BigInt = [4]"
| "type_piece DecimalT = [5]"
| "type_piece Timestamp = [6]"

fun ddl_piece :: "ddl_op \<Rightarrow> byte list" where
  "ddl_piece CreateTable = [0]"
| "ddl_piece DropTable = [1]"
| "ddl_piece (AlterColumn (Add column)) = 2 # 0 # str_piece column"
| "ddl_piece (AlterColumn (Rename f t)) = 2 # 1 # str_piece f @ str_piece t"
| "ddl_piece (AlterColumn (Retype column f)) = 2 # 2 # str_piece column @ type_piece f"

fun column_piece :: "column \<Rightarrow> byte list" where
  "column_piece (name, ty, nullable) = str_piece name @ type_piece ty @ [if nullable then 1 else 0]"

definition list_piece :: "('a \<Rightarrow> byte list) \<Rightarrow> 'a list \<Rightarrow> byte list" where
  "list_piece f xs = be_bytes 8 (length xs) @ concat (map f xs)"

definition config_piece :: "config \<Rightarrow> byte list" where
  "config_piece c = be_bytes 8 (cfg_version c) @ be_bytes 8 (cfg_term c) @
     list_piece (be_bytes 8) (members c) @ list_piece (be_bytes 8) (learners c)"

fun branch_piece :: "branch_op \<Rightarrow> byte list" where
  "branch_piece (Fork child par epoch millis) =
     0 # be_bytes 8 child @ be_bytes 8 par @ be_bytes 8 epoch @ be_bytes 8 millis"
| "branch_piece (Merge branch base_round) = 1 # be_bytes 8 branch @ be_bytes 8 base_round"
| "branch_piece (Abandon branch) = 2 # be_bytes 8 branch"
| "branch_piece (Reap branch gen) = 3 # be_bytes 8 branch @ be_bytes 8 gen"

fun command_piece :: "command \<Rightarrow> byte list" where
  "command_piece (WalBatch lsn bs) = 0 # be_bytes 8 lsn @ str_piece bs"
| "command_piece (Catalog oper table cols) =
     1 # ddl_piece oper @ str_piece table @ list_piece column_piece cols"
| "command_piece (Branch oper) = 2 # branch_piece oper"
| "command_piece (ArenaGrant node first count) = 3 # be_bytes 8 node @ be_bytes 8 first @ be_bytes 8 count"
| "command_piece (TxnIdRange node lo hi) = 4 # be_bytes 8 node @ be_bytes 8 lo @ be_bytes 8 hi"
| "command_piece (LeaseTick millis) = 5 # be_bytes 8 millis"
| "command_piece Checkpoint = [6]"
| "command_piece (Membership c) = 7 # config_piece c"
| "command_piece NoOp = [8]"

definition entry_piece :: "entry \<Rightarrow> byte list" where
  "entry_piece e = be_bytes 8 (e_term e) @ be_bytes 8 (e_round e) @ command_piece (e_command e)"

text \<open>What the Rust types say of the values: every integer is at most a \<open>u64\<close>, every length a \<open>usize\<close>.\<close>

abbreviation u64_fit :: "nat \<Rightarrow> bool" where "u64_fit v \<equiv> v \<le> u64_max"

definition str_fit :: "byte list \<Rightarrow> bool" where "str_fit s \<longleftrightarrow> u64_fit (length s)"

fun type_fit :: "data_type \<Rightarrow> bool" where
  "type_fit (Varchar n) = u64_fit n"
| "type_fit _ = True"

fun ddl_fit :: "ddl_op \<Rightarrow> bool" where
  "ddl_fit (AlterColumn (Add column)) = str_fit column"
| "ddl_fit (AlterColumn (Rename f t)) = (str_fit f \<and> str_fit t)"
| "ddl_fit (AlterColumn (Retype column f)) = (str_fit column \<and> type_fit f)"
| "ddl_fit _ = True"

fun column_fit :: "column \<Rightarrow> bool" where
  "column_fit (name, ty, nullable) = (str_fit name \<and> type_fit ty)"

definition list_fit :: "('a \<Rightarrow> bool) \<Rightarrow> 'a list \<Rightarrow> bool" where
  "list_fit P xs \<longleftrightarrow> u64_fit (length xs) \<and> list_all P xs"

definition config_fit :: "config \<Rightarrow> bool" where
  "config_fit c \<longleftrightarrow> u64_fit (cfg_version c) \<and> u64_fit (cfg_term c) \<and>
     list_fit u64_fit (members c) \<and> list_fit u64_fit (learners c)"

fun branch_fit :: "branch_op \<Rightarrow> bool" where
  "branch_fit (Fork child par epoch millis) = (u64_fit child \<and> u64_fit par \<and> u64_fit epoch \<and> u64_fit millis)"
| "branch_fit (Merge branch base_round) = (u64_fit branch \<and> u64_fit base_round)"
| "branch_fit (Abandon branch) = u64_fit branch"
| "branch_fit (Reap branch gen) = (u64_fit branch \<and> u64_fit gen)"

fun command_fit :: "command \<Rightarrow> bool" where
  "command_fit (WalBatch lsn bs) = (u64_fit lsn \<and> str_fit bs)"
| "command_fit (Catalog oper table cols) = (ddl_fit oper \<and> str_fit table \<and> list_fit column_fit cols)"
| "command_fit (Branch oper) = branch_fit oper"
| "command_fit (ArenaGrant node first count) = (u64_fit node \<and> u64_fit first \<and> u64_fit count)"
| "command_fit (TxnIdRange node lo hi) = (u64_fit node \<and> u64_fit lo \<and> u64_fit hi)"
| "command_fit (LeaseTick millis) = u64_fit millis"
| "command_fit (Membership c) = config_fit c"
| "command_fit _ = True"

definition entry_fit :: "entry \<Rightarrow> bool" where
  "entry_fit e \<longleftrightarrow> u64_fit (e_term e) \<and> u64_fit (e_round e) \<and> command_fit (e_command e)"

subsection \<open>The folds read exactly these bytes\<close>

lemma fold_u64_piece: "fold_u64 h v = fnv64_update h (be_bytes 8 v)"
  by (simp add: fold_u64_def)

lemma fold_str_piece: "fold_str h s = fnv64_update h (str_piece s)" "fold_bytes h s = fnv64_update h (str_piece s)"
  by (simp_all add: fold_str_def fold_bytes_def str_piece_def fnv64_update_append)

lemma fold_tag_piece: "fold_tag h t = fnv64_update h [t]"
  by (simp add: fold_tag_def)

lemma fnv64_tag: "fnv64_update (fnv64_update h [t]) bs = fnv64_update h (t # bs)"
  by simp

lemmas fold_pieces = fold_u64_piece fold_str_piece fold_tag_piece fnv64_tag fnv64_update_append[symmetric]

lemma fold_type_piece: "fold_data_type h ty = fnv64_update h (type_piece ty)"
  by (cases ty) (simp_all only: fold_data_type.simps type_piece.simps fold_pieces append.simps)

lemma fold_ddl_piece: "fold_ddl_op h oper = fnv64_update h (ddl_piece oper)"
  by (cases oper rule: ddl_piece.cases)
    (simp_all only: fold_ddl_op.simps ddl_piece.simps fold_pieces fold_type_piece append.simps append_assoc)

lemma fold_list_piece:
  assumes "\<And>h x. f h x = fnv64_update h (g x)"
  shows "foldl f (fold_u64 h (length xs)) xs = fnv64_update h (list_piece g xs)"
proof -
  have "foldl f h xs = fnv64_update h (concat (map g xs))" for h
    by (induction xs arbitrary: h) (simp_all add: assms fnv64_update_append)
  then show ?thesis by (simp add: list_piece_def fnv64_update_append fold_u64_piece)
qed

lemma fold_column_piece: "fold_column h col = fnv64_update h (column_piece col)"
  by (cases col) (simp add: fold_column_def fold_str_piece fold_type_piece fold_tag_piece fnv64_update_append)

lemma fold_config_piece: "fold_config h c = fnv64_update h (config_piece c)"
  unfolding fold_config_def Let_def fold_list_piece[OF fold_u64_piece] config_piece_def fnv64_update_append
  by (simp only: fold_u64_piece)

lemma fold_branch_piece: "fold_branch_op h oper = fnv64_update h (branch_piece oper)"
  by (cases oper) (simp_all only: fold_branch_op.simps branch_piece.simps fold_pieces append.simps append_assoc)

lemma fold_command_piece: "fold_command h cmd = fnv64_update h (command_piece cmd)"
proof (cases cmd)
  case (Catalog oper table cols)
  show ?thesis
    unfolding Catalog fold_command.simps fold_list_piece[OF fold_column_piece]
    by (simp only: command_piece.simps fold_pieces fold_ddl_piece append.simps append_assoc)
qed (simp_all only: fold_command.simps command_piece.simps fold_pieces fold_branch_piece fold_config_piece
    append.simps append_assoc)

lemma fold_entry_piece: "fold_entry prev e = never_zero (fnv64_update prev (entry_piece e))"
  by (simp add: fold_entry_def entry_piece_def fold_u64_piece fold_command_piece fnv64_update_append)

subsection \<open>No two entries have the same bytes\<close>

text \<open>A prefix-free encoding: what follows it does not matter for telling two values apart.\<close>

locale prefix_free =
  fixes enc :: "'a \<Rightarrow> byte list" and good :: "'a \<Rightarrow> bool"
  assumes free: "good x \<Longrightarrow> good y \<Longrightarrow> enc x @ xs = enc y @ ys \<longleftrightarrow> x = y \<and> xs = ys"
begin

lemma items_free:
  assumes "list_all good as" "list_all good bs" "length as = length bs"
  shows "concat (map enc as) @ xs = concat (map enc bs) @ ys \<longleftrightarrow> as = bs \<and> xs = ys"
  using assms(3,1,2) by (induction as bs rule: list_induct2) (auto simp: free)

end

lemma be_bytes_u64 [simp]: "u64_fit a \<Longrightarrow> u64_fit b \<Longrightarrow> be_bytes 8 a = be_bytes 8 b \<longleftrightarrow> a = b"
  by (rule be_bytes_inject) simp_all

interpretation u64_enc: prefix_free "be_bytes 8" u64_fit
  by unfold_locales simp

lemma list_piece_free:
  assumes "prefix_free enc good"
  shows "prefix_free (list_piece enc) (list_fit good)"
proof
  fix as bs xs ys
  assume fit: "list_fit good as" "list_fit good bs"
  show "list_piece enc as @ xs = list_piece enc bs @ ys \<longleftrightarrow> as = bs \<and> xs = ys"
  proof (cases "length as = length bs")
    case True
    then show ?thesis
      using prefix_free.items_free[OF assms, of as bs xs ys] fit by (simp add: list_piece_def list_fit_def)
  next
    case False
    then show ?thesis
      using u64_enc.free[of "length as" "length bs"] fit by (auto simp: list_piece_def list_fit_def)
  qed
qed

interpretation str_enc: prefix_free str_piece str_fit
proof
  fix s t xs ys :: "byte list"
  assume fit: "str_fit s" "str_fit t"
  show "str_piece s @ xs = str_piece t @ ys \<longleftrightarrow> s = t \<and> xs = ys"
    using u64_enc.free[of "length s" "length t" "s @ xs" "t @ ys"] fit
    by (auto simp: str_piece_def str_fit_def)
qed

interpretation type_enc: prefix_free type_piece type_fit
proof
  fix s t xs ys
  assume "type_fit s" "type_fit t"
  then show "type_piece s @ xs = type_piece t @ ys \<longleftrightarrow> s = t \<and> xs = ys"
    by (cases s; cases t) (simp_all add: u64_enc.free)
qed

interpretation ddl_enc: prefix_free ddl_piece ddl_fit
proof
  fix s t xs ys
  assume "ddl_fit s" "ddl_fit t"
  then show "ddl_piece s @ xs = ddl_piece t @ ys \<longleftrightarrow> s = t \<and> xs = ys"
    by (cases s rule: ddl_piece.cases; cases t rule: ddl_piece.cases)
      (simp_all add: str_enc.free type_enc.free)
qed

interpretation column_enc: prefix_free column_piece column_fit
proof
  fix s t xs ys
  assume "column_fit s" "column_fit t"
  then show "column_piece s @ xs = column_piece t @ ys \<longleftrightarrow> s = t \<and> xs = ys"
    by (cases s; cases t) (auto simp: str_enc.free type_enc.free)
qed

interpretation nodes_enc: prefix_free "list_piece (be_bytes 8)" "list_fit u64_fit"
  by (rule list_piece_free) (rule u64_enc.prefix_free_axioms)

interpretation columns_enc: prefix_free "list_piece column_piece" "list_fit column_fit"
  by (rule list_piece_free) (rule column_enc.prefix_free_axioms)

interpretation config_enc: prefix_free config_piece config_fit
proof
  fix s t xs ys
  assume "config_fit s" "config_fit t"
  then show "config_piece s @ xs = config_piece t @ ys \<longleftrightarrow> s = t \<and> xs = ys"
    by (cases s; cases t) (auto simp: config_piece_def config_fit_def u64_enc.free nodes_enc.free)
qed

interpretation branch_enc: prefix_free branch_piece branch_fit
proof
  fix s t xs ys
  assume "branch_fit s" "branch_fit t"
  then show "branch_piece s @ xs = branch_piece t @ ys \<longleftrightarrow> s = t \<and> xs = ys"
    by (cases s; cases t) (simp_all add: u64_enc.free)
qed

interpretation command_enc: prefix_free command_piece command_fit
proof
  fix s t xs ys
  assume "command_fit s" "command_fit t"
  then show "command_piece s @ xs = command_piece t @ ys \<longleftrightarrow> s = t \<and> xs = ys"
    by (cases s; cases t)
      (simp_all add: u64_enc.free str_enc.free ddl_enc.free columns_enc.free branch_enc.free config_enc.free)
qed

interpretation entry_code: prefix_free entry_piece entry_fit
proof
  fix s t xs ys
  assume "entry_fit s" "entry_fit t"
  then show "entry_piece s @ xs = entry_piece t @ ys \<longleftrightarrow> s = t \<and> xs = ys"
    by (cases s; cases t) (auto simp: entry_piece_def entry_fit_def u64_enc.free command_enc.free)
qed

lemma never_zero_eq: "never_zero x = never_zero y \<longleftrightarrow> x = y \<or> {x, y} = {0, FNV_OFFSET}"
  by (auto simp: never_zero_def doubleton_eq_iff)

text \<open>
  (C26) What the rolling digest detects. An entry's digest is FNV-1a over the running digest and the entry's
  bytes, with zero replaced so that it never is the zero an acknowledgement uses for \<open>not claiming anything\<close>. Those
  bytes determine the entry: two entries whose fields fit the Rust types and that differ in the term, the round or
  anything in the command have different bytes. Two nodes whose digests differed before an entry still differ after
  it, and two entries whose bytes differ in one place get different digests -- with the one exception, in both cases,
  that replacing zero makes: the two values before it are zero and the offset basis.
\<close>

theorem digest_detects:
  assumes "entry_fit e" "entry_fit e'"
  shows "fold_entry h e = never_zero (fnv64_update h (entry_piece e)) \<and> fold_entry h e \<noteq> 0 \<and>
    (entry_piece e = entry_piece e' \<longleftrightarrow> e = e') \<and>
    (fold_entry h e = fold_entry h' e \<longleftrightarrow>
       h = h' \<or> {fnv64_update h (entry_piece e), fnv64_update h' (entry_piece e)} = {0, FNV_OFFSET}) \<and>
    (entry_piece e = before @ a # rest \<and> entry_piece e' = before @ b # rest \<longrightarrow>
      (fold_entry h e = fold_entry h e' \<longleftrightarrow>
         e = e' \<or> {fnv64_update h (entry_piece e), fnv64_update h (entry_piece e')} = {0, FNV_OFFSET}))"
proof -
  have inj: "entry_piece e = entry_piece e' \<longleftrightarrow> e = e'"
    using entry_code.free[OF assms, of "[]" "[]"] by simp
  have one: "fnv64_update h (entry_piece e) = fnv64_update h (entry_piece e') \<longleftrightarrow> e = e'"
    if "entry_piece e = before @ a # rest" "entry_piece e' = before @ b # rest"
    unfolding inj[symmetric] that fnv64_update_append fnv64_byte_inject by simp
  show ?thesis
    unfolding fold_entry_piece never_zero_eq fnv64_update_inject inj
    using one fold_entry_nonzero[of h e, unfolded fold_entry_piece] by blast
qed

lemma be_bytes_numeral:
  "be_bytes (numeral k) v = word_of_nat (v div 256 ^ pred_numeral k) # be_bytes (pred_numeral k) v"
  by (simp add: numeral_eq_Suc)

theorem digest_detects_witness:
  "fold_entry 7 \<lparr>e_term = 1, e_round = 6, e_command = NoOp\<rparr> \<noteq>
   fold_entry 7 \<lparr>e_term = 2, e_round = 6, e_command = NoOp\<rparr>"
proof -
  let ?e = "\<lambda>t. \<lparr>e_term = t, e_round = 6, e_command = NoOp\<rparr>"
  have fit: "entry_fit (?e 1)" "entry_fit (?e 2)" by (simp_all add: entry_fit_def)
  have p: "entry_piece (?e 1) = [0, 0, 0, 0, 0, 0, 0] @ 1 # [0, 0, 0, 0, 0, 0, 0, 6, 8]"
      "entry_piece (?e 2) = [0, 0, 0, 0, 0, 0, 0] @ 2 # [0, 0, 0, 0, 0, 0, 0, 6, 8]"
    by (simp_all add: entry_piece_def be_bytes_numeral)
  have "fnv64_update 7 (entry_piece (?e 1)) \<noteq> 0" "fnv64_update 7 (entry_piece (?e 2)) \<noteq> 0"
    unfolding p by code_simp+
  then have "{fnv64_update 7 (entry_piece (?e 1)), fnv64_update 7 (entry_piece (?e 2))} \<noteq> {0, FNV_OFFSET}"
    by (auto simp: doubleton_eq_iff)
  moreover have "?e 1 \<noteq> ?e 2" by simp
  ultimately show ?thesis
    using digest_detects[OF fit, where h = 7 and h' = 7 and before = "[0, 0, 0, 0, 0, 0, 0]" and a = 1 and b = 2
        and rest = "[0, 0, 0, 0, 0, 0, 0, 6, 8]"] p by blast
qed

end
