(* ===== verification/Sha256.thy ===== *)
theory Sha256
  imports Ferro_Prelude
begin

text \<open>
  \<open>provenance/sha256.rs\<close>: the streaming SHA-256 that prompt digests and the consensus MAC are built
  on. \<open>update\<close> and \<open>finish\<close> are modelled as written, with the partial block and the padding one byte
  at a time; the reference they are proved equal to pads the whole message and folds the compression
  function over its 64-byte blocks. Indexing past the block is a panic (\<open>None\<close>).
\<close>

unbundle bit_operations_syntax

type_synonym w32 = "32 word"

text \<open>The round constants and the initial hash value; the source has the same numbers in hexadecimal.\<close>

definition sha_K :: "w32 list" where
  "sha_K = [
    1116352408, 1899447441, 3049323471, 3921009573, 961987163, 1508970993, 2453635748, 2870763221,
    3624381080, 310598401, 607225278, 1426881987, 1925078388, 2162078206, 2614888103, 3248222580,
    3835390401, 4022224774, 264347078, 604807628, 770255983, 1249150122, 1555081692, 1996064986,
    2554220882, 2821834349, 2952996808, 3210313671, 3336571891, 3584528711, 113926993, 338241895,
    666307205, 773529912, 1294757372, 1396182291, 1695183700, 1986661051, 2177026350, 2456956037,
    2730485921, 2820302411, 3259730800, 3345764771, 3516065817, 3600352804, 4094571909, 275423344,
    430227734, 506948616, 659060556, 883997877, 958139571, 1322822218, 1537002063, 1747873779,
    1955562222, 2024104815, 2227730452, 2361852424, 2428436474, 2756734187, 3204031479, 3329325298]"

definition sha_H0 :: "w32 list" where
  "sha_H0 = [
    1779033703, 3144134277, 1013904242, 2773480762, 1359893119, 2600822924, 528734635, 1541459225]"

record sha256_state =
  sha_h :: "w32 list"
  sha_block :: "byte list"
  sha_used :: nat
  sha_len :: nat

section \<open>The compression function\<close>

definition schedule_step :: "w32 list \<Rightarrow> nat \<Rightarrow> w32 list" where
  "schedule_step w i =
     (let x = w ! (i - 15);
          s0 = word_rotr 7 x XOR word_rotr 18 x XOR drop_bit 3 x;
          y = w ! (i - 2);
          s1 = word_rotr 17 y XOR word_rotr 19 y XOR drop_bit 10 y
      in w @ [w ! (i - 16) + s0 + w ! (i - 7) + s1])"

definition schedule :: "byte list \<Rightarrow> w32 list" where
  "schedule block =
     foldl schedule_step
       (map (\<lambda>i. word_of_nat (from_be (take 4 (drop (i * 4) block)))) [0..<16]) [16..<64]"

type_synonym regs = "w32 \<times> w32 \<times> w32 \<times> w32 \<times> w32 \<times> w32 \<times> w32 \<times> w32"

fun sha_round :: "w32 list \<Rightarrow> regs \<Rightarrow> nat \<Rightarrow> regs" where
  "sha_round w (a, b, c, d, e, f, g, h) i =
     (let s1 = word_rotr 6 e XOR word_rotr 11 e XOR word_rotr 25 e;
          ch = (e AND f) XOR (NOT e AND g);
          t1 = h + s1 + ch + sha_K ! i + w ! i;
          s0 = word_rotr 2 a XOR word_rotr 13 a XOR word_rotr 22 a;
          maj = (a AND b) XOR (a AND c) XOR (b AND c);
          t2 = s0 + maj
      in (t1 + t2, a, b, c, d + t1, e, f, g))"

definition compress :: "w32 list \<Rightarrow> byte list \<Rightarrow> w32 list" where
  "compress hs block =
     (case foldl (sha_round (schedule block))
             (hs ! 0, hs ! 1, hs ! 2, hs ! 3, hs ! 4, hs ! 5, hs ! 6, hs ! 7) [0..<64] of
        (a, b, c, d, e, f, g, h) \<Rightarrow> map2 (+) hs [a, b, c, d, e, f, g, h])"

section \<open>Streaming\<close>

definition sha_new :: sha256_state where
  "sha_new = \<lparr>sha_h = sha_H0, sha_block = replicate 64 0, sha_used = 0, sha_len = 0\<rparr>"

text \<open>The \<open>while data.len() >= 64\<close> loop: the new chaining value and what is left of the input.\<close>

function whole_blocks :: "w32 list \<Rightarrow> byte list \<Rightarrow> w32 list \<times> byte list" where
  "whole_blocks hs bs =
     (if length bs \<ge> 64 then whole_blocks (compress hs (take 64 bs)) (drop 64 bs) else (hs, bs))"
  by pat_completeness auto
termination
  by (relation "measure (\<lambda>(hs, bs). length bs)") auto

declare whole_blocks.simps [simp del]

definition fill_block :: "sha256_state \<Rightarrow> byte list \<Rightarrow> sha256_state \<times> byte list" where
  "fill_block st bs =
     (if 0 < sha_used st then
        (let tk = min (64 - sha_used st) (length bs);
             st = st\<lparr>sha_block := take (sha_used st) (sha_block st) @ take tk bs @
                                  drop (sha_used st + tk) (sha_block st),
                     sha_used := sha_used st + tk\<rparr>;
             st = (if sha_used st = 64
                   then st\<lparr>sha_h := compress (sha_h st) (sha_block st), sha_used := 0\<rparr> else st)
         in (st, drop tk bs))
      else (st, bs))"

text \<open>The rest of \<open>update\<close>: whole blocks straight from the input, and the remainder kept.\<close>

definition take_blocks :: "sha256_state \<Rightarrow> byte list \<Rightarrow> sha256_state" where
  "take_blocks st bs =
     (let (hs, rest) = whole_blocks (sha_h st) bs;
          st = st\<lparr>sha_h := hs\<rparr>
      in if rest \<noteq> []
         then st\<lparr>sha_block := rest @ drop (length rest) (sha_block st), sha_used := length rest\<rparr>
         else st)"

definition sha_update :: "sha256_state \<Rightarrow> byte list \<Rightarrow> sha256_state" where
  "sha_update st bs =
     (let (st, bs) = fill_block (st\<lparr>sha_len := sha_len st + length bs\<rparr>) bs in take_blocks st bs)"

definition pad_byte :: "sha256_state \<Rightarrow> byte \<Rightarrow> sha256_state option" where
  "pad_byte st b =
     (if sha_used st < length (sha_block st) then
        (let st = st\<lparr>sha_block := (sha_block st)[sha_used st := b], sha_used := sha_used st + 1\<rparr>
         in Some (if sha_used st = 64
                  then st\<lparr>sha_h := compress (sha_h st) (sha_block st), sha_used := 0\<rparr> else st))
      else None)"

fun pad_bytes :: "sha256_state \<Rightarrow> byte list \<Rightarrow> sha256_state option" where
  "pad_bytes st [] = Some st"
| "pad_bytes st (b # bs) = Option.bind (pad_byte st b) (\<lambda>st. pad_bytes st bs)"

text \<open>
  The \<open>while self.used != 56\<close> loop. It ends because the block is an array of 64 bytes, which the
  state's \<open>sha_block\<close> is only by invariant; a longer one is cut off here by the explicit test.
\<close>

function pad_zeroes :: "sha256_state \<Rightarrow> sha256_state option" where
  "pad_zeroes st =
     (if sha_used st = 56 then Some st
      else if 64 \<le> sha_used st then None
      else (case pad_byte st 0 of None \<Rightarrow> None | Some st' \<Rightarrow> pad_zeroes st'))"
  by pat_completeness auto
termination
proof (relation "measure (\<lambda>st. if sha_used st \<le> 56 then 56 - sha_used st else 120 - sha_used st)")
  fix st st'
  assume "sha_used st \<noteq> 56" "\<not> 64 \<le> sha_used st" "pad_byte st 0 = Some st'"
  then show "(st', st) \<in> measure (\<lambda>st. if sha_used st \<le> 56 then 56 - sha_used st else 120 - sha_used st)"
    by (auto simp: pad_byte_def Let_def split: if_splits)
qed auto

declare pad_zeroes.simps [simp del]

definition finish :: "sha256_state \<Rightarrow> byte list option" where
  "finish st =
     Option.bind (pad_byte st 0x80) (\<lambda>st1.
     Option.bind (pad_zeroes st1) (\<lambda>st2.
     Option.bind (pad_bytes st2 (be_bytes 8 (sha_len st * 8))) (\<lambda>st3.
       Some (concat (map (\<lambda>x. be_bytes 4 (unat x)) (sha_h st3))))))"

definition sha256 :: "byte list \<Rightarrow> byte list option" where
  "sha256 bs = finish (sha_update sha_new bs)"

section \<open>The reference\<close>

text \<open>The padded message, and the chaining value after its whole blocks.\<close>

definition sha_pad :: "byte list \<Rightarrow> byte list" where
  "sha_pad m = m @ [0x80] @ replicate ((119 - length m mod 64) mod 64) 0 @ be_bytes 8 (length m * 8)"

definition chain :: "byte list \<Rightarrow> w32 list" where
  "chain m = fst (whole_blocks sha_H0 m)"

definition pending :: "byte list \<Rightarrow> byte list" where
  "pending m = snd (whole_blocks sha_H0 m)"

definition sha256_ref :: "byte list \<Rightarrow> byte list" where
  "sha256_ref m = concat (map (\<lambda>x. be_bytes 4 (unat x)) (chain (sha_pad m)))"

section \<open>Streaming computes the reference\<close>

lemma whole_blocks_short: "length bs < 64 \<Longrightarrow> whole_blocks hs bs = (hs, bs)"
  by (subst whole_blocks.simps) simp

lemma whole_blocks_step:
  "length a = 64 \<Longrightarrow> whole_blocks hs (a @ bs) = whole_blocks (compress hs a) bs"
  by (subst whole_blocks.simps) simp

lemma length_snd_whole_blocks: "length (snd (whole_blocks hs bs)) = length bs mod 64"
proof (induction hs bs rule: whole_blocks.induct)
  case (1 hs bs)
  then show ?case
    by (subst whole_blocks.simps) (auto simp: le_mod_geq)
qed

lemma whole_blocks_append:
  "whole_blocks hs (a @ b) =
     (let (hs', p) = whole_blocks hs a in whole_blocks hs' (p @ b))"
proof (induction hs a rule: whole_blocks.induct)
  case (1 hs a)
  show ?case
  proof (cases "length a \<ge> 64")
    case True
    have "whole_blocks hs (a @ b) = whole_blocks hs (take 64 a @ (drop 64 a @ b))"
      by (simp flip: append_assoc)
    also have "\<dots> = whole_blocks (compress hs (take 64 a)) (drop 64 a @ b)"
      using True by (intro whole_blocks_step) simp
    finally show ?thesis
      using 1[OF True] True by (subst (2) whole_blocks.simps) simp
  qed (simp add: whole_blocks_short)
qed

lemma length_pending: "length (pending m) = length m mod 64"
  by (simp add: pending_def length_snd_whole_blocks)

lemma chain_append: "chain (m @ b) = fst (whole_blocks (chain m) (pending m @ b))"
  unfolding chain_def pending_def by (subst whole_blocks_append) (simp add: case_prod_unfold Let_def)

lemma pending_append: "pending (m @ b) = snd (whole_blocks (chain m) (pending m @ b))"
  unfolding chain_def pending_def by (subst whole_blocks_append) (simp add: case_prod_unfold Let_def)

text \<open>
  What a state says of the bytes fed to it, and the same without the length, which padding does not
  count.
\<close>

definition absorbed :: "sha256_state \<Rightarrow> byte list \<Rightarrow> bool" where
  "absorbed st m \<longleftrightarrow> sha_h st = chain m \<and> length (sha_block st) = 64 \<and>
     sha_used st = length m mod 64 \<and> take (sha_used st) (sha_block st) = pending m"

lemma absorbed_new: "absorbed sha_new []"
  by (simp add: absorbed_def sha_new_def chain_def pending_def whole_blocks_short)

lemma absorbed_fields:
  assumes "absorbed st m"
  shows "sha_h st = chain m" "length (sha_block st) = 64" "sha_used st = length m mod 64"
    "take (length m mod 64) (sha_block st) = pending m"
  using assms by (auto simp: absorbed_def)

lemma absorbed_step:
  assumes "length (pending m @ bs) < 64" "length (sha_block st) = 64" "sha_h st = chain m"
    "sha_used st = length (pending m @ bs)" "take (sha_used st) (sha_block st) = pending m @ bs"
  shows "absorbed st (m @ bs)"
proof -
  have "(length m + length bs) mod 64 = (length m mod 64 + length bs) mod 64"
    by (simp add: mod_add_left_eq)
  also have "\<dots> = length m mod 64 + length bs" using assms(1) by (simp add: length_pending)
  finally have "length (m @ bs) mod 64 = length (pending m @ bs)" by (simp add: length_pending)
  with assms show ?thesis
    by (simp add: absorbed_def chain_append pending_append whole_blocks_short del: append_eq_append_conv)
qed

lemma absorbed_full:
  assumes "length (pending m @ bs) = 64" "length (sha_block st) = 64"
    "sha_h st = compress (chain m) (pending m @ bs)" "sha_used st = 0"
  shows "absorbed st (m @ bs)"
proof -
  have "(length m + length bs) mod 64 = (length m mod 64 + length bs) mod 64"
    by (simp add: mod_add_left_eq)
  also have "\<dots> = 0" using assms(1) by (simp add: length_pending)
  finally have len: "length (m @ bs) mod 64 = 0" by simp
  have "whole_blocks (chain m) (pending m @ bs) = (compress (chain m) (pending m @ bs), [])"
    using whole_blocks_step[OF assms(1), of "chain m" "[]"] by (simp add: whole_blocks_short)
  with assms len show ?thesis
    by (simp add: absorbed_def chain_append pending_append)
qed

lemma pad_byte_absorbed:
  assumes "absorbed st m"
  shows "\<exists>st'. pad_byte st b = Some st' \<and> absorbed st' (m @ [b])"
proof -
  note f = absorbed_fields[OF assms]
  let ?u = "length m mod 64"
  have u: "?u < 64" by simp
  have blk: "take (Suc ?u) ((sha_block st)[?u := b]) = pending m @ [b]"
    using f u by (simp add: take_Suc_conv_app_nth)
  show ?thesis
  proof (cases "?u = 63")
    case True
    then have "(sha_block st)[?u := b] = pending m @ [b]"
      using blk f(2) by simp
    with f True show ?thesis
      by (simp add: pad_byte_def Let_def) (rule absorbed_full, simp_all add: length_pending)
  next
    case False
    with f u blk show ?thesis
      by (simp add: pad_byte_def Let_def) (rule absorbed_step, simp_all add: length_pending)
  qed
qed

lemma pad_bytes_absorbed:
  "absorbed st m \<Longrightarrow> \<exists>st'. pad_bytes st bs = Some st' \<and> absorbed st' (m @ bs)"
proof (induction bs arbitrary: st m)
  case (Cons b bs)
  from pad_byte_absorbed[OF Cons.prems, of b] obtain st1
    where "pad_byte st b = Some st1" "absorbed st1 (m @ [b])" by blast
  with Cons.IH[of st1 "m @ [b]"] show ?case by auto
qed auto

lemma pad_byte_len: "pad_byte st b = Some st' \<Longrightarrow> sha_len st' = sha_len st"
  by (auto simp: pad_byte_def Let_def split: if_splits)

lemma pad_zeroes_absorbed:
  "absorbed st m \<Longrightarrow>
   \<exists>st'. pad_zeroes st = Some st' \<and> absorbed st' (m @ replicate ((120 - length m mod 64) mod 64) 0)"
proof (induction st arbitrary: m rule: pad_zeroes.induct)
  case (1 st)
  note f = absorbed_fields[OF "1.prems"]
  show ?case
  proof (cases "length m mod 64 = 56")
    case True
    with f "1.prems" show ?thesis by (subst pad_zeroes.simps) simp
  next
    case False
    let ?u = "length m mod 64"
    have u: "?u < 64" by simp
    obtain st1 where st1: "pad_byte st 0 = Some st1" "absorbed st1 (m @ [0])"
      using pad_byte_absorbed[OF "1.prems"] by blast
    have "\<not> 64 \<le> sha_used st" "sha_used st \<noteq> 56" using f u False by auto
    with "1.IH"[OF this(2) this(1) st1(1) st1(2)] st1(1)
    have "\<exists>st'. pad_zeroes st = Some st' \<and>
        absorbed st' ((m @ [0]) @ replicate ((120 - length (m @ [0]) mod 64) mod 64) 0)"
      by (subst pad_zeroes.simps) simp
    moreover have "(120 - ?u) mod 64 = Suc ((120 - length (m @ [0]) mod 64) mod 64)"
    proof (cases "?u = 63")
      case True
      then show ?thesis by (simp add: mod_Suc)
    next
      case u63: False
      then have l: "length (m @ [0]) mod 64 = Suc ?u" using u by (simp add: mod_Suc)
      show ?thesis
      proof (cases "?u < 56")
        case True
        then have "120 - ?u = 64 + (56 - ?u)" "119 - ?u = 64 + (55 - ?u)" by simp_all
        then have "(120 - ?u) mod 64 = (56 - ?u) mod 64" "(119 - ?u) mod 64 = (55 - ?u) mod 64"
          by (metis mod_add_self1)+
        moreover have "(56 - ?u) mod 64 = 56 - ?u" "(55 - ?u) mod 64 = 55 - ?u"
          by (rule mod_less, simp)+
        moreover have "56 - ?u = Suc (55 - ?u)" using True by arith
        ultimately show ?thesis using l True by simp
      next
        case False
        with \<open>?u \<noteq> 56\<close> u have "(120 - ?u) mod 64 = 120 - ?u" "(119 - ?u) mod 64 = 119 - ?u"
          by auto
        moreover have "120 - ?u = Suc (119 - ?u)" using u by arith
        ultimately show ?thesis using l by simp
      qed
    qed
    ultimately show ?thesis by simp
  qed
qed

lemma take_blocks_absorbed:
  assumes "absorbed st m" "sha_used st = 0"
  shows "absorbed (take_blocks st bs) (m @ bs)"
proof -
  obtain hs rest where w: "whole_blocks (sha_h st) bs = (hs, rest)" by fastforce
  note f = absorbed_fields[OF assms(1)]
  have p: "pending m = []" using f assms(2) length_pending[of m] by simp
  have c: "chain (m @ bs) = hs" "pending (m @ bs) = rest"
    using w f p by (simp_all add: chain_append pending_append)
  then have l: "length rest = length (m @ bs) mod 64" using length_pending by metis
  then have "length rest < 64" by simp
  with c w l f assms(2) show ?thesis by (auto simp: take_blocks_def absorbed_def Let_def)
qed

lemma fill_block_absorbed:
  assumes "absorbed st m"
  shows "\<exists>pre st' bs'. fill_block st bs = (st', bs') \<and> bs = pre @ bs' \<and> absorbed st' (m @ pre) \<and>
    sha_len st' = sha_len st \<and> (sha_used st' = 0 \<or> bs' = [])"
proof (cases "sha_used st = 0")
  case True
  with assms show ?thesis by (simp add: fill_block_def)
next
  case False
  note f = absorbed_fields[OF assms]
  let ?u = "length m mod 64"
  define tk where "tk = min (64 - ?u) (length bs)"
  have u: "0 < ?u" "?u < 64" using False f(3) by auto
  define blk where "blk = take ?u (sha_block st) @ take tk bs @ drop (?u + tk) (sha_block st)"
  have tk: "tk \<le> length bs" "?u + tk \<le> 64" using u by (auto simp: tk_def)
  have len: "length blk = 64" using tk f u by (simp add: blk_def length_pending)
  have t: "take (?u + tk) blk = pending m @ take tk bs" using tk f u by (simp add: blk_def length_pending)
  define st' where "st' = (if ?u + tk = 64
    then st\<lparr>sha_block := blk, sha_h := compress (sha_h st) blk, sha_used := 0\<rparr>
    else st\<lparr>sha_block := blk, sha_used := ?u + tk\<rparr>)"
  have "fill_block st bs = (st', drop tk bs)"
    using f(3) u
    by (simp add: fill_block_def Let_def tk_def[symmetric] blk_def[symmetric] st'_def)
      (simp add: blk_def)
  moreover have "absorbed st' (m @ take tk bs)"
  proof (cases "?u + tk = 64")
    case True
    with t len have "blk = pending m @ take tk bs" by simp
    with True f len tk show ?thesis
      by (intro absorbed_full) (simp_all add: st'_def length_pending)
  next
    case False
    with t len tk f show ?thesis
      by (intro absorbed_step) (simp_all add: st'_def length_pending)
  qed
  moreover have "sha_used st' = 0 \<or> drop tk bs = []" "sha_len st' = sha_len st"
    by (auto simp: st'_def tk_def)
  moreover have "bs = take tk bs @ drop tk bs" by simp
  ultimately show ?thesis by blast
qed

lemma update_absorbed:
  assumes "absorbed st m"
  shows "absorbed (sha_update st bs) (m @ bs)"
proof -
  have "absorbed (st\<lparr>sha_len := sha_len st + length bs\<rparr>) m" using assms by (auto simp: absorbed_def)
  from fill_block_absorbed[OF this, of bs] obtain pre st' bs'
    where b: "fill_block (st\<lparr>sha_len := sha_len st + length bs\<rparr>) bs = (st', bs')" "bs = pre @ bs'"
      "absorbed st' (m @ pre)" "sha_used st' = 0 \<or> bs' = []"
    by blast
  have "take_blocks st' [] = st'" by (simp add: take_blocks_def whole_blocks_short)
  with b take_blocks_absorbed[of st' "m @ pre" bs'] show ?thesis
    by (auto simp: sha_update_def)
qed

lemma update_len: "sha_len (sha_update st bs) = sha_len st + length bs"
  by (simp add: sha_update_def fill_block_def take_blocks_def Let_def case_prod_unfold)

lemma finish_absorbed:
  assumes "absorbed st m" "sha_len st = length m"
  shows "finish st = Some (sha256_ref m)"
proof -
  obtain st1 where st1: "pad_byte st 0x80 = Some st1" "absorbed st1 (m @ [0x80])"
    using pad_byte_absorbed[OF assms(1)] by blast
  obtain st2 where st2: "pad_zeroes st1 = Some st2"
      "absorbed st2 ((m @ [0x80]) @ replicate ((120 - length (m @ [0x80]) mod 64) mod 64) 0)"
    using pad_zeroes_absorbed[OF st1(2)] by blast
  have k: "(120 - Suc (length m) mod 64) mod 64 = (119 - length m mod 64) mod 64"
    by (cases "length m mod 64 = 63") (simp_all add: mod_Suc)
  obtain st3 where "pad_bytes st2 (be_bytes 8 (length m * 8)) = Some st3" "absorbed st3 (sha_pad m)"
    using pad_bytes_absorbed[OF st2(2), of "be_bytes 8 (length m * 8)"]
    by (auto simp: sha_pad_def k)
  with st1 st2 assms(2) show ?thesis
    by (simp add: finish_def sha256_ref_def absorbed_def)
qed

lemma updates_absorbed:
  "absorbed (foldl sha_update sha_new parts) (concat parts) \<and>
   sha_len (foldl sha_update sha_new parts) = length (concat parts)"
proof (induction parts rule: rev_induct)
  case Nil
  show ?case by (simp add: absorbed_new) (simp add: sha_new_def)
next
  case (snoc p parts)
  then show ?case by (simp add: update_absorbed update_len)
qed

lemma finish_parts: "finish (foldl sha_update sha_new parts) = Some (sha256_ref (concat parts))"
  using updates_absorbed finish_absorbed by blast

lemma sha256_eq: "sha256 m = Some (sha256_ref m)"
  using finish_parts[of "[m]"] by (simp add: sha256_def)

lemma length_whole_blocks_fst:
  "length hs = 8 \<Longrightarrow> length (fst (whole_blocks hs bs)) = 8"
proof (induction hs bs rule: whole_blocks.induct)
  case (1 hs bs)
  have "length (compress hs (take 64 bs)) = 8"
    using "1.prems" by (simp add: compress_def split: prod.splits)
  with 1 show ?case by (subst whole_blocks.simps) simp
qed

lemma length_sha256_ref [simp]: "length (sha256_ref m) = 32"
proof -
  have l: "length (chain (sha_pad m)) = 8"
    unfolding chain_def by (rule length_whole_blocks_fst) (simp add: sha_H0_def)
  have "length (concat (map (\<lambda>x. be_bytes 4 (unat x)) (xs :: w32 list))) = 4 * length xs" for xs
    by (induction xs) auto
  with l show ?thesis by (simp add: sha256_ref_def)
qed

text \<open>
  (C32) Streaming SHA-256 is SHA-256: however a message is cut into pieces, feeding them to \<open>update\<close>
  one after another and calling \<open>finish\<close> never indexes past the block, ends, and gives the 32 bytes
  of the compression function folded over the padded whole message, so the cut points do not matter.
\<close>

theorem sha256_streaming:
  "finish (foldl sha_update sha_new parts) = Some (sha256_ref (concat parts)) \<and>
   sha256 (concat parts) = finish (foldl sha_update sha_new parts) \<and>
   length (sha256_ref (concat parts)) = 32"
  by (simp add: finish_parts sha256_eq)

end
