(* ===== verification/Signing.thy ===== *)
theory Signing
  imports Sha256 Wire_Bytes
begin

text \<open>
  \<open>consensus/signing.rs\<close>: HMAC-SHA256 over a domain-separated frame body, the constant-time
  comparison, and the two functions that put a tag on a frame and take it off. A \<open>Key\<close> is its bytes;
  reading the key file and judging its permissions is I/O and is not modelled, the checks on the
  bytes read are.
\<close>

unbundle bit_operations_syntax

definition MAC_LEN :: nat where "MAC_LEN = 32"
definition MIN_KEY_BYTES :: nat where "MIN_KEY_BYTES = 32"
definition BLOCK :: nat where "BLOCK = 64"
definition MAX_FRAME_BYTES :: nat where "MAX_FRAME_BYTES = 8 * 1024 * 1024"
definition MAX_ENTRY_BYTES :: nat where "MAX_ENTRY_BYTES = MAX_FRAME_BYTES"
definition CONSENSUS_TAG :: byte where "CONSENSUS_TAG = 67"
definition REPL_VERSION :: nat where "REPL_VERSION = 2"

definition bytes_of :: "string \<Rightarrow> byte list" where
  "bytes_of s = map (\<lambda>c. word_of_nat (of_char c)) s"

definition DOMAIN :: "byte list" where
  "DOMAIN = bytes_of ''ferrodb/consensus/mac/1'' @ [0, CONSENSUS_TAG, word_of_nat REPL_VERSION]"

section \<open>The primitive\<close>

definition hmac_sha256_parts :: "byte list \<Rightarrow> byte list list \<Rightarrow> byte list option" where
  "hmac_sha256_parts key parts =
     Option.bind (if BLOCK < length key then sha256 key else Some key) (\<lambda>k.
     let k0 = k @ replicate (BLOCK - length k) 0;
         ipad = map (\<lambda>b. 0x36 XOR b) k0;
         opad = map (\<lambda>b. 0x5c XOR b) k0
     in Option.bind (finish (foldl sha_update (sha_update sha_new ipad) parts)) (\<lambda>inner.
        finish (sha_update (sha_update sha_new opad) inner)))"

definition hmac_sha256 :: "byte list \<Rightarrow> byte list \<Rightarrow> byte list option" where
  "hmac_sha256 key msg = hmac_sha256_parts key [msg]"

text \<open>The accumulator of the comparison: every byte pair is visited, whatever was seen before.\<close>

fun ct_diff :: "byte \<Rightarrow> byte list \<Rightarrow> byte list \<Rightarrow> byte" where
  "ct_diff d (x # xs) (y # ys) = ct_diff (d OR (x XOR y)) xs ys"
| "ct_diff d _ _ = d"

definition constant_time_eq :: "byte list \<Rightarrow> byte list \<Rightarrow> bool" where
  "constant_time_eq a b = (if length a \<noteq> length b then False else ct_diff 0 a b = 0)"

section \<open>The key and the frame\<close>

definition key_from_file :: "byte list \<Rightarrow> byte list result" where
  "key_from_file bs =
     (if bs \<noteq> [] \<and> list_all (\<lambda>b. b = 0) bs then Inl (Io ''the signing key is zero bytes'')
      else if length bs < MIN_KEY_BYTES then Inl (Io ''the signing key is too short'')
      else Inr bs)"

definition key_tag :: "byte list \<Rightarrow> byte list \<Rightarrow> byte list option" where
  "key_tag key msg = hmac_sha256_parts key [DOMAIN, msg]"

definition key_verify :: "byte list \<Rightarrow> byte list \<Rightarrow> byte list \<Rightarrow> bool option" where
  "key_verify key msg mac = map_option (\<lambda>t. constant_time_eq t mac) (key_tag key msg)"

definition sign_frame :: "byte list \<Rightarrow> byte list \<Rightarrow> byte list result" where
  "sign_frame key msg =
     (if MAX_FRAME_BYTES < length msg + MAC_LEN then Inl (Wal ''a signed message is over the frame limit'')
      else case key_tag key msg of None \<Rightarrow> Inl Panic | Some t \<Rightarrow> Inr (t @ msg))"

definition verify_frame :: "byte list \<Rightarrow> byte list \<Rightarrow> byte list result" where
  "verify_frame key frame =
     (if length frame < MAC_LEN then Inl (Wal ''a frame is too short to hold its tag'')
      else case key_verify key (drop MAC_LEN frame) (take MAC_LEN frame) of
             None \<Rightarrow> Inl Panic
           | Some False \<Rightarrow> Inl (Wal ''a frame did not authenticate'')
           | Some True \<Rightarrow> Inr (drop MAC_LEN frame))"

section \<open>What they compute\<close>

text \<open>HMAC as its standard states it, over the reference hash.\<close>

definition hmac_key :: "byte list \<Rightarrow> byte list" where
  "hmac_key key =
     (let k = (if BLOCK < length key then sha256_ref key else key) in k @ replicate (BLOCK - length k) 0)"

definition hmac_ref :: "byte list \<Rightarrow> byte list \<Rightarrow> byte list" where
  "hmac_ref key msg =
     sha256_ref (map (\<lambda>b. 0x5c XOR b) (hmac_key key) @
       sha256_ref (map (\<lambda>b. 0x36 XOR b) (hmac_key key) @ msg))"

lemma hmac_parts_eq: "hmac_sha256_parts key parts = Some (hmac_ref key (concat parts))"
proof -
  have "finish (foldl sha_update (sha_update sha_new p) ps) = Some (sha256_ref (p @ concat ps))" for p ps
    using finish_parts[of "p # ps"] by simp
  moreover from this[of _ "[_]"]
  have "finish (sha_update (sha_update sha_new p) q) = Some (sha256_ref (p @ q))" for p q
    by simp
  ultimately show ?thesis
    by (simp add: hmac_sha256_parts_def hmac_ref_def hmac_key_def Let_def sha256_eq)
qed

lemma length_hmac_ref [simp]: "length (hmac_ref key msg) = MAC_LEN"
  by (simp add: hmac_ref_def MAC_LEN_def)

lemma key_tag_eq: "key_tag key msg = Some (hmac_ref key (DOMAIN @ msg))"
  by (simp add: key_tag_def hmac_parts_eq)

lemma or_zero_iff: "(x OR y) = 0 \<longleftrightarrow> x = 0 \<and> y = (0 :: byte)"
  by (auto simp: bit_eq_iff bit_simps)

lemma xor_zero_iff: "(x XOR y) = 0 \<longleftrightarrow> x = (y :: byte)"
  by (auto simp: bit_eq_iff bit_simps)

lemma ct_diff_zero: "length a = length b \<Longrightarrow> ct_diff d a b = 0 \<longleftrightarrow> d = 0 \<and> a = b"
  by (induction d a b rule: ct_diff.induct) (auto simp: or_zero_iff xor_zero_iff)

lemma constant_time_eq_iff: "constant_time_eq a b \<longleftrightarrow> a = b"
  by (auto simp: constant_time_eq_def ct_diff_zero)

lemma sign_frame_Inr:
  "sign_frame key msg = Inr f \<longleftrightarrow>
     length msg + MAC_LEN \<le> MAX_FRAME_BYTES \<and> f = hmac_ref key (DOMAIN @ msg) @ msg"
  by (auto simp: sign_frame_def key_tag_eq)

lemma verify_frame_Inr:
  "verify_frame key f = Inr msg \<longleftrightarrow> f = hmac_ref key (DOMAIN @ msg) @ msg"
proof
  assume *: "verify_frame key f = Inr msg"
  then have "msg = drop MAC_LEN f" "take MAC_LEN f = hmac_ref key (DOMAIN @ drop MAC_LEN f)"
    by (auto simp: verify_frame_def key_verify_def key_tag_eq constant_time_eq_iff
        split: if_splits bool.splits)
  then show "f = hmac_ref key (DOMAIN @ msg) @ msg" by (metis append_take_drop_id)
next
  assume "f = hmac_ref key (DOMAIN @ msg) @ msg"
  then show "verify_frame key f = Inr msg"
    by (simp add: verify_frame_def key_verify_def key_tag_eq constant_time_eq_iff)
qed

text \<open>
  (C33) Signing is sound and lossless: the tag is HMAC-SHA256 of the domain prefix followed by the
  body, a frame verifies under a key exactly when it is that tag followed by its body (a single
  changed byte of the tag is refused), so what \<open>verify_frame\<close> returns is what \<open>sign_frame\<close> was
  given, and neither function panics on any input.
\<close>

theorem sign_verify:
  "(verify_frame key f = Inr msg \<longleftrightarrow> f = hmac_ref key (DOMAIN @ msg) @ msg) \<and>
   (sign_frame key msg = Inr g \<longleftrightarrow>
      length msg + MAC_LEN \<le> MAX_FRAME_BYTES \<and> verify_frame key g = Inr msg) \<and>
   verify_frame key f \<noteq> Inl Panic \<and> sign_frame key msg \<noteq> Inl Panic"
  by (simp add: verify_frame_Inr sign_frame_Inr)
    (auto simp: verify_frame_def sign_frame_def key_verify_def key_tag_eq split: bool.splits)

end
