(* ===== verification/Transport_Codec.thy ===== *)
theory Transport_Codec
  imports Contract Signing
begin

text \<open>
  \<open>consensus/transport.rs\<close>, the codec half: every consensus message as the bytes of a frame and back,
  the frame limit applied as the buffer grows, the admission check a proposal passes and the budget a
  batch of entries is cut to. The sockets, threads and dial loop of the same file are not modelled.

  An encoder takes the buffer so far and returns the longer buffer or refuses; a decoder is a reader
  over the frame body.
\<close>

section \<open>Encoding\<close>

definition MAX_CONFIG_NODES :: nat where "MAX_CONFIG_NODES = 1024"
definition RECKIND_DDL_TAG :: byte where "RECKIND_DDL_TAG = 9"
definition usize_max :: nat where "usize_max = u64_max"

definition too_big :: ferro_error where
  "too_big = Wal ''a consensus message is over the frame limit''"

definition room :: "byte list \<Rightarrow> nat \<Rightarrow> unit result" where
  "room b extra = (if MAX_FRAME_BYTES < sat_add64 (length b) extra then Inl too_big else Inr ())"

definition put_u32 :: "byte list \<Rightarrow> nat \<Rightarrow> byte list" where "put_u32 b v = b @ be_bytes 4 v"
definition put_u64 :: "byte list \<Rightarrow> nat \<Rightarrow> byte list" where "put_u64 b v = b @ be_bytes 8 v"
definition put_bool :: "byte list \<Rightarrow> bool \<Rightarrow> byte list" where
  "put_bool b v = b @ [if v then 1 else 0]"

definition put_bytes :: "byte list \<Rightarrow> byte list \<Rightarrow> byte list result" where
  "put_bytes b v = rbind (room b (4 + length v)) (\<lambda>_. Inr (put_u32 b (length v) @ v))"

fun encode_branch_op :: "byte list \<Rightarrow> branch_op \<Rightarrow> byte list" where
  "encode_branch_op b (Fork child par epoch millis) =
     put_u64 (put_u64 (put_u64 (put_u64 (b @ [0]) child) par) epoch) millis"
| "encode_branch_op b (Merge branch base_round) = put_u64 (put_u64 (b @ [1]) branch) base_round"
| "encode_branch_op b (Abandon branch) = put_u64 (b @ [2]) branch"
| "encode_branch_op b (Reap branch gen) = put_u32 (put_u64 (b @ [3]) branch) gen"

definition encode_node_list :: "byte list \<Rightarrow> node_id list \<Rightarrow> byte list result" where
  "encode_node_list b ns =
     (if MAX_CONFIG_NODES < length ns then Inl (Wal ''a configuration holds too many nodes'')
      else rbind (room b (4 + length ns * 4)) (\<lambda>_. Inr (foldl put_u32 (put_u32 b (length ns)) ns)))"

definition encode_config :: "byte list \<Rightarrow> config \<Rightarrow> byte list result" where
  "encode_config b c =
     rbind (encode_node_list (put_u64 (put_u64 b (cfg_version c)) (cfg_term c)) (members c))
       (\<lambda>b. encode_node_list b (learners c))"

fun encode_command :: "byte list \<Rightarrow> command \<Rightarrow> byte list result" where
  "encode_command b (WalBatch start_lsn bs) = put_bytes (put_u64 (b @ [0]) start_lsn) bs"
| "encode_command b (Catalog oper table columns) =
     rbind (serialize [] (Ddl oper table 0 0 columns)) (\<lambda>rec. put_bytes (b @ [1]) rec)"
| "encode_command b (Branch oper) = Inr (encode_branch_op (b @ [2]) oper)"
| "encode_command b (ArenaGrant node first count) =
     Inr (put_u32 (put_u32 (put_u32 (b @ [3]) node) first) count)"
| "encode_command b (TxnIdRange node lo hi) =
     Inr (put_u64 (put_u64 (put_u32 (b @ [4]) node) lo) hi)"
| "encode_command b (LeaseTick millis) = Inr (put_u64 (b @ [5]) millis)"
| "encode_command b Checkpoint = Inr (b @ [6])"
| "encode_command b (Membership c) = encode_config (b @ [7]) c"
| "encode_command b NoOp = Inr (b @ [8])"

definition encode_entry :: "byte list \<Rightarrow> entry \<Rightarrow> byte list result" where
  "encode_entry b e =
     rbind (room b 17) (\<lambda>_. encode_command (put_u64 (put_u64 b (e_term e)) (e_round e)) (e_command e))"

fun encode_entries :: "byte list \<Rightarrow> entry list \<Rightarrow> byte list result" where
  "encode_entries b [] = Inr b"
| "encode_entries b (e # es) = rbind (encode_entry b e) (\<lambda>b. encode_entries b es)"

definition encode_snapshot_meta :: "byte list \<Rightarrow> snapshot_meta \<Rightarrow> byte list result" where
  "encode_snapshot_meta b m =
     encode_config (put_u64 (put_u64 (put_u64 b (sm_last_round m)) (sm_last_term m)) (sm_total_bytes m))
       (sm_config m)"

fun encode_body :: "byte list \<Rightarrow> body \<Rightarrow> byte list result" where
  "encode_body b (PreVote lt lr) = Inr (put_u64 (put_u64 (b @ [0]) lt) lr)"
| "encode_body b (PreVoteResp granted) = Inr (put_bool (b @ [1]) granted)"
| "encode_body b (RequestVote lt lr) = Inr (put_u64 (put_u64 (b @ [2]) lt) lr)"
| "encode_body b (RequestVoteResp granted) = Inr (put_bool (b @ [3]) granted)"
| "encode_body b (Append prev_round prev_term es lc) =
     (let b = put_u64 (put_u64 (put_u64 (b @ [4]) prev_round) prev_term) lc in
      rbind (room b 4) (\<lambda>_.
      if length es \<le> u32_max then encode_entries (put_u32 b (length es)) es else Inl too_big))"
| "encode_body b (AppendResp success matched hint digest) =
     Inr (put_u64 (put_u64 (put_u64 (put_bool (b @ [5]) success) matched) hint) (unat digest))"
| "encode_body b (InstallSnapshot meta offset bs done) =
     rbind (encode_snapshot_meta (b @ [6]) meta) (\<lambda>b. put_bytes (put_bool (put_u64 b offset) done) bs)"
| "encode_body b (InstallSnapshotResp received) = Inr (put_u64 (b @ [7]) received)"

definition message_body :: "message \<Rightarrow> byte list result" where
  "message_body m =
     rbind (encode_body (put_u64 (put_u32 (put_u32 [] (m_from m)) (m_to m)) (m_term m)) (m_body m))
       (\<lambda>b. if MAX_FRAME_BYTES < length b then Inl too_big else Inr b)"

definition encode_signed :: "message \<Rightarrow> byte list option \<Rightarrow> byte list result" where
  "encode_signed m key =
     rbind (message_body m) (\<lambda>body.
     rbind (case key of Some k \<Rightarrow> sign_frame k body | None \<Rightarrow> Inr body) (\<lambda>body.
       Inr ([CONSENSUS_TAG] @ be_bytes 4 (length body) @ body)))"

definition encode :: "message \<Rightarrow> byte list result" where
  "encode m = encode_signed m None"

section \<open>The batching budget and the admission check\<close>

definition append_entries_budget :: nat where
  "append_entries_budget =
     (case message_body \<lparr>m_from = 0, m_to = 0, m_term = 0, m_body = Append 0 0 [] 0\<rparr> of
        Inl _ \<Rightarrow> 0
      | Inr b \<Rightarrow> MAX_FRAME_BYTES - (length b + MAC_LEN))"

definition entry_wire_len :: "entry \<Rightarrow> nat" where
  "entry_wire_len e = (case encode_entry [] e of Inl _ \<Rightarrow> usize_max | Inr b \<Rightarrow> length b)"

definition admit_entry :: "entry \<Rightarrow> unit result" where
  "admit_entry e =
     rbind (encode_entry [] e) (\<lambda>b.
       if append_entries_budget < length b
       then Inl (Wal ''an entry cannot fit one Append frame'') else Inr ())"

section \<open>Decoding\<close>

definition take_bool :: "bool reader" where
  "take_bool bs at =
     rbind (take_u8 bs at) (\<lambda>(v, at).
       if v = 0 then Inr (False, at)
       else if v = 1 then Inr (True, at)
       else Inl (Wal ''a flag byte is neither 0 nor 1''))"

definition take_bytes :: "byte list reader" where
  "take_bytes bs at =
     rbind (take_u32 bs at) (\<lambda>(len, at).
       case get_range bs at (at + len) of None \<Rightarrow> Inl short_record | Some s \<Rightarrow> Inr (s, at + len))"

text \<open>\<open>decode_catalog\<close>, in two parts: what the record's bytes mean, and taking them off the frame.\<close>

definition catalog_of_record :: "byte list \<Rightarrow> command result" where
  "catalog_of_record rec =
     (case rec of
        [] \<Rightarrow> Inl (Wal ''a Catalog command carries an empty log record'')
      | t # _ \<Rightarrow>
          if t \<noteq> RECKIND_DDL_TAG then Inl (Wal ''a Catalog command carries a record that is not a Ddl'')
          else
          case deserialize rec of
            None \<Rightarrow> Inl Panic
          | Some r \<Rightarrow>
              rbind r (\<lambda>decoded.
              rbind (serialize [] decoded) (\<lambda>reencoded.
              if reencoded \<noteq> rec then Inl (Wal ''a Catalog record did not re-encode to its bytes'')
              else
              case decoded of
                Ddl oper table dir_root time_travel_root columns \<Rightarrow>
                  if dir_root \<noteq> 0 \<or> time_travel_root \<noteq> 0
                  then Inl (Wal ''a Catalog command carries page ids'')
                  else Inr (Catalog oper table columns)
              | _ \<Rightarrow> Inl (Wal ''a Catalog record did not deserialize as a Ddl''))))"

definition decode_catalog :: "command reader" where
  "decode_catalog bs at =
     rbind (take_bytes bs at) (\<lambda>(rec, at). rbind (catalog_of_record rec) (\<lambda>c. Inr (c, at)))"

definition decode_branch_op :: "branch_op reader" where
  "decode_branch_op bs at =
     rbind (take_u8 bs at) (\<lambda>(t, at).
       if t = 0 then
         rbind (take_u64 bs at) (\<lambda>(child, at).
         rbind (take_u64 bs at) (\<lambda>(par, at).
         rbind (take_u64 bs at) (\<lambda>(epoch, at).
         rbind (take_u64 bs at) (\<lambda>(millis, at). Inr (Fork child par epoch millis, at)))))
       else if t = 1 then
         rbind (take_u64 bs at) (\<lambda>(branch, at).
         rbind (take_u64 bs at) (\<lambda>(base_round, at). Inr (Merge branch base_round, at)))
       else if t = 2 then rbind (take_u64 bs at) (\<lambda>(branch, at). Inr (Abandon branch, at))
       else if t = 3 then
         rbind (take_u64 bs at) (\<lambda>(branch, at).
         rbind (take_u32 bs at) (\<lambda>(gen, at). Inr (Reap branch gen, at)))
       else Inl (Wal ''unknown branch op tag''))"

text \<open>The loop of \<open>decode_node_list\<close>: \<open>out\<close> is what has been read so far.\<close>

fun decode_nodes :: "nat \<Rightarrow> node_id list \<Rightarrow> node_id list reader" where
  "decode_nodes 0 out bs at = Inr (out, at)"
| "decode_nodes (Suc k) out bs at =
     rbind (take_u32 bs at) (\<lambda>(n, at).
       if out \<noteq> [] \<and> n \<le> last out then Inl (Wal ''a node list is not strictly ascending'')
       else decode_nodes k (out @ [n]) bs at)"

definition decode_node_list :: "node_id list reader" where
  "decode_node_list bs at =
     rbind (take_u32 bs at) (\<lambda>(count, at).
       if MAX_CONFIG_NODES < count then Inl (Wal ''a configuration claims too many nodes'')
       else decode_nodes count [] bs at)"

fun first_common :: "node_id list \<Rightarrow> node_id list \<Rightarrow> node_id option" where
  "first_common (a # as) (b # bs) =
     (if a = b then Some a
      else if a < b then first_common as (b # bs)
      else first_common (a # as) bs)"
| "first_common _ _ = None"

definition decode_config :: "config reader" where
  "decode_config bs at =
     rbind (take_u64 bs at) (\<lambda>(version, at).
     rbind (take_u64 bs at) (\<lambda>(trm, at).
     rbind (decode_node_list bs at) (\<lambda>(ms, at).
     rbind (decode_node_list bs at) (\<lambda>(ls, at).
     case first_common ms ls of
       Some _ \<Rightarrow> Inl (Wal ''a configuration lists a node as both a voter and a learner'')
     | None \<Rightarrow>
         (let c = with_learners (config_new ms version trm) ls in
          if members c \<noteq> ms \<or> learners c \<noteq> ls
          then Inl (Wal ''a configuration changed under Config::new'')
          else Inr (c, at))))))"

definition decode_snapshot_meta :: "snapshot_meta reader" where
  "decode_snapshot_meta bs at =
     rbind (take_u64 bs at) (\<lambda>(lr, at).
     rbind (take_u64 bs at) (\<lambda>(lt, at).
     rbind (take_u64 bs at) (\<lambda>(total, at).
     rbind (decode_config bs at) (\<lambda>(c, at).
       Inr (\<lparr>sm_last_round = lr, sm_last_term = lt, sm_config = c, sm_total_bytes = total\<rparr>, at)))))"

definition decode_command :: "command reader" where
  "decode_command bs at =
     rbind (take_u8 bs at) (\<lambda>(t, at).
       if t = 0 then
         rbind (take_u64 bs at) (\<lambda>(lsn, at).
         rbind (take_bytes bs at) (\<lambda>(v, at). Inr (WalBatch lsn v, at)))
       else if t = 1 then decode_catalog bs at
       else if t = 2 then rbind (decode_branch_op bs at) (\<lambda>(oper, at). Inr (Branch oper, at))
       else if t = 3 then
         rbind (take_u32 bs at) (\<lambda>(node, at).
         rbind (take_u32 bs at) (\<lambda>(first, at).
         rbind (take_u32 bs at) (\<lambda>(count, at). Inr (ArenaGrant node first count, at))))
       else if t = 4 then
         rbind (take_u32 bs at) (\<lambda>(node, at).
         rbind (take_u64 bs at) (\<lambda>(lo, at).
         rbind (take_u64 bs at) (\<lambda>(hi, at). Inr (TxnIdRange node lo hi, at))))
       else if t = 5 then rbind (take_u64 bs at) (\<lambda>(millis, at). Inr (LeaseTick millis, at))
       else if t = 6 then Inr (Checkpoint, at)
       else if t = 7 then rbind (decode_config bs at) (\<lambda>(c, at). Inr (Membership c, at))
       else if t = 8 then Inr (NoOp, at)
       else Inl (Wal ''unknown consensus command tag''))"

definition decode_entry :: "entry reader" where
  "decode_entry bs at =
     rbind (take_u64 bs at) (\<lambda>(trm, at).
     rbind (take_u64 bs at) (\<lambda>(round, at).
     rbind (decode_command bs at) (\<lambda>(c, at).
       Inr (\<lparr>e_term = trm, e_round = round, e_command = c\<rparr>, at))))"

definition decode_append :: "body reader" where
  "decode_append bs at =
     rbind (take_u64 bs at) (\<lambda>(prev_round, at).
     rbind (take_u64 bs at) (\<lambda>(prev_term, at).
     rbind (take_u64 bs at) (\<lambda>(commit, at).
     rbind (take_u32 bs at) (\<lambda>(count, at).
     rbind (read_n count (\<lambda>bs at. map_err (\<lambda>_. Wal ''an entry in an Append frame'') (decode_entry bs at)) bs at)
       (\<lambda>(es, at). Inr (Append prev_round prev_term es commit, at))))))"

definition decode_body :: "body reader" where
  "decode_body bs at =
     rbind (take_u8 bs at) (\<lambda>(k, at).
       if k = 0 then
         rbind (take_u64 bs at) (\<lambda>(lt, at). rbind (take_u64 bs at) (\<lambda>(lr, at). Inr (PreVote lt lr, at)))
       else if k = 1 then rbind (take_bool bs at) (\<lambda>(g, at). Inr (PreVoteResp g, at))
       else if k = 2 then
         rbind (take_u64 bs at) (\<lambda>(lt, at). rbind (take_u64 bs at) (\<lambda>(lr, at). Inr (RequestVote lt lr, at)))
       else if k = 3 then rbind (take_bool bs at) (\<lambda>(g, at). Inr (RequestVoteResp g, at))
       else if k = 4 then decode_append bs at
       else if k = 5 then
         rbind (take_bool bs at) (\<lambda>(success, at).
         rbind (take_u64 bs at) (\<lambda>(matched, at).
         rbind (take_u64 bs at) (\<lambda>(hint, at).
         rbind (take_u64 bs at) (\<lambda>(digest, at).
           Inr (AppendResp success matched hint (word_of_nat digest), at)))))
       else if k = 6 then
         rbind (decode_snapshot_meta bs at) (\<lambda>(meta, at).
         rbind (take_u64 bs at) (\<lambda>(offset, at).
         rbind (take_bool bs at) (\<lambda>(done, at).
         rbind (take_bytes bs at) (\<lambda>(v, at). Inr (InstallSnapshot meta offset v done, at)))))
       else if k = 7 then rbind (take_u64 bs at) (\<lambda>(received, at). Inr (InstallSnapshotResp received, at))
       else Inl (Wal ''unknown consensus message kind''))"

definition decode :: "byte list \<Rightarrow> message result" where
  "decode body =
     rbind (take_u32 body 0) (\<lambda>(from, at).
     rbind (take_u32 body at) (\<lambda>(dest, at).
     rbind (take_u64 body at) (\<lambda>(trm, at).
     rbind (decode_body body at) (\<lambda>(b, at).
       if at \<noteq> length body then Inl (Wal ''a consensus frame has bytes left over'')
       else Inr \<lparr>m_from = from, m_to = dest, m_term = trm, m_body = b\<rparr>))))"

definition decode_verified :: "byte list \<Rightarrow> byte list option \<Rightarrow> message result" where
  "decode_verified body key =
     (case key of Some k \<Rightarrow> rbind (verify_frame k body) decode | None \<Rightarrow> decode body)"

section \<open>The format, as bytes\<close>

definition bool_bytes :: "bool \<Rightarrow> byte list" where "bool_bytes v = [if v then 1 else 0]"

definition vec_bytes :: "byte list \<Rightarrow> byte list" where "vec_bytes v = be_bytes 4 (length v) @ v"

definition vec_ok :: "byte list \<Rightarrow> bool" where "vec_ok v \<longleftrightarrow> length v < 2 ^ 32"

fun branch_bytes :: "branch_op \<Rightarrow> byte list" where
  "branch_bytes (Fork child par epoch millis) =
     [0] @ be_bytes 8 child @ be_bytes 8 par @ be_bytes 8 epoch @ be_bytes 8 millis"
| "branch_bytes (Merge branch base_round) = [1] @ be_bytes 8 branch @ be_bytes 8 base_round"
| "branch_bytes (Abandon branch) = [2] @ be_bytes 8 branch"
| "branch_bytes (Reap branch gen) = [3] @ be_bytes 8 branch @ be_bytes 4 gen"

fun branch_ok :: "branch_op \<Rightarrow> bool" where
  "branch_ok (Fork child par epoch millis) =
     (child < 2 ^ 64 \<and> par < 2 ^ 64 \<and> epoch < 2 ^ 64 \<and> millis < 2 ^ 64)"
| "branch_ok (Merge branch base_round) = (branch < 2 ^ 64 \<and> base_round < 2 ^ 64)"
| "branch_ok (Abandon branch) = (branch < 2 ^ 64)"
| "branch_ok (Reap branch gen) = (branch < 2 ^ 64 \<and> gen < 2 ^ 32)"

definition ids_bytes :: "node_id list \<Rightarrow> byte list" where
  "ids_bytes ns = concat (map (be_bytes 4) ns)"

definition nodes_bytes :: "node_id list \<Rightarrow> byte list" where
  "nodes_bytes ns = be_bytes 4 (length ns) @ ids_bytes ns"

definition nodes_ok :: "node_id list \<Rightarrow> bool" where
  "nodes_ok ns \<longleftrightarrow> length ns \<le> MAX_CONFIG_NODES \<and> list_all (\<lambda>n. n < 2 ^ 32) ns \<and> sorted_wrt (<) ns"

definition config_bytes :: "config \<Rightarrow> byte list" where
  "config_bytes c =
     be_bytes 8 (cfg_version c) @ be_bytes 8 (cfg_term c) @ nodes_bytes (members c) @
     nodes_bytes (learners c)"

text \<open>
  The configurations the wire carries: those of \<open>Config\<close>'s constructors (strictly ascending, no node
  both voter and learner) with at most 1024 voters and 1024 learners.
\<close>

definition config_ok :: "config \<Rightarrow> bool" where
  "config_ok c \<longleftrightarrow> cfg_version c < 2 ^ 64 \<and> cfg_term c < 2 ^ 64 \<and> nodes_ok (members c) \<and>
     nodes_ok (learners c) \<and> set (members c) \<inter> set (learners c) = {}"

definition meta_bytes :: "snapshot_meta \<Rightarrow> byte list" where
  "meta_bytes m =
     be_bytes 8 (sm_last_round m) @ be_bytes 8 (sm_last_term m) @ be_bytes 8 (sm_total_bytes m) @
     config_bytes (sm_config m)"

definition meta_ok :: "snapshot_meta \<Rightarrow> bool" where
  "meta_ok m \<longleftrightarrow> sm_last_round m < 2 ^ 64 \<and> sm_last_term m < 2 ^ 64 \<and> sm_total_bytes m < 2 ^ 64 \<and>
     config_ok (sm_config m)"

fun cmd_bytes :: "command \<Rightarrow> byte list" where
  "cmd_bytes (WalBatch lsn v) = [0] @ be_bytes 8 lsn @ vec_bytes v"
| "cmd_bytes (Catalog oper table cols) = [1] @ vec_bytes (rec_bytes (Ddl oper table 0 0 cols))"
| "cmd_bytes (Branch oper) = [2] @ branch_bytes oper"
| "cmd_bytes (ArenaGrant node first count) = [3] @ be_bytes 4 node @ be_bytes 4 first @ be_bytes 4 count"
| "cmd_bytes (TxnIdRange node lo hi) = [4] @ be_bytes 4 node @ be_bytes 8 lo @ be_bytes 8 hi"
| "cmd_bytes (LeaseTick millis) = [5] @ be_bytes 8 millis"
| "cmd_bytes Checkpoint = [6]"
| "cmd_bytes (Membership c) = [7] @ config_bytes c"
| "cmd_bytes NoOp = [8]"

fun cmd_ok :: "command \<Rightarrow> bool" where
  "cmd_ok (WalBatch lsn v) = (lsn < 2 ^ 64 \<and> vec_ok v)"
| "cmd_ok (Catalog oper table cols) =
     (rec_ok (Ddl oper table 0 0 cols) \<and> vec_ok (rec_bytes (Ddl oper table 0 0 cols)))"
| "cmd_ok (Branch oper) = branch_ok oper"
| "cmd_ok (ArenaGrant node first count) = (node < 2 ^ 32 \<and> first < 2 ^ 32 \<and> count < 2 ^ 32)"
| "cmd_ok (TxnIdRange node lo hi) = (node < 2 ^ 32 \<and> lo < 2 ^ 64 \<and> hi < 2 ^ 64)"
| "cmd_ok (LeaseTick millis) = (millis < 2 ^ 64)"
| "cmd_ok (Membership c) = config_ok c"
| "cmd_ok _ = True"

definition entry_bytes :: "entry \<Rightarrow> byte list" where
  "entry_bytes e = be_bytes 8 (e_term e) @ be_bytes 8 (e_round e) @ cmd_bytes (e_command e)"

definition entry_ok :: "entry \<Rightarrow> bool" where
  "entry_ok e \<longleftrightarrow> e_term e < 2 ^ 64 \<and> e_round e < 2 ^ 64 \<and> cmd_ok (e_command e)"

definition entries_bytes :: "entry list \<Rightarrow> byte list" where
  "entries_bytes es = concat (map entry_bytes es)"

fun body_bytes :: "body \<Rightarrow> byte list" where
  "body_bytes (PreVote lt lr) = [0] @ be_bytes 8 lt @ be_bytes 8 lr"
| "body_bytes (PreVoteResp g) = [1] @ bool_bytes g"
| "body_bytes (RequestVote lt lr) = [2] @ be_bytes 8 lt @ be_bytes 8 lr"
| "body_bytes (RequestVoteResp g) = [3] @ bool_bytes g"
| "body_bytes (Append pr pt es lc) =
     [4] @ be_bytes 8 pr @ be_bytes 8 pt @ be_bytes 8 lc @ be_bytes 4 (length es) @ entries_bytes es"
| "body_bytes (AppendResp success matched hint digest) =
     [5] @ bool_bytes success @ be_bytes 8 matched @ be_bytes 8 hint @ be_bytes 8 (unat digest)"
| "body_bytes (InstallSnapshot meta offset v fin) =
     [6] @ meta_bytes meta @ be_bytes 8 offset @ bool_bytes fin @ vec_bytes v"
| "body_bytes (InstallSnapshotResp received) = [7] @ be_bytes 8 received"

fun body_ok :: "body \<Rightarrow> bool" where
  "body_ok (PreVote lt lr) = (lt < 2 ^ 64 \<and> lr < 2 ^ 64)"
| "body_ok (RequestVote lt lr) = (lt < 2 ^ 64 \<and> lr < 2 ^ 64)"
| "body_ok (Append pr pt es lc) =
     (pr < 2 ^ 64 \<and> pt < 2 ^ 64 \<and> lc < 2 ^ 64 \<and> length es < 2 ^ 32 \<and> list_all entry_ok es)"
| "body_ok (AppendResp success matched hint digest) = (matched < 2 ^ 64 \<and> hint < 2 ^ 64)"
| "body_ok (InstallSnapshot meta offset v fin) = (meta_ok meta \<and> offset < 2 ^ 64 \<and> vec_ok v)"
| "body_ok (InstallSnapshotResp received) = (received < 2 ^ 64)"
| "body_ok _ = True"

definition msg_bytes :: "message \<Rightarrow> byte list" where
  "msg_bytes m =
     be_bytes 4 (m_from m) @ be_bytes 4 (m_to m) @ be_bytes 8 (m_term m) @ body_bytes (m_body m)"

definition msg_ok :: "message \<Rightarrow> bool" where
  "msg_ok m \<longleftrightarrow> m_from m < 2 ^ 32 \<and> m_to m < 2 ^ 32 \<and> m_term m < 2 ^ 64 \<and> body_ok (m_body m)"

section \<open>Every decoder accepts exactly the encodings\<close>

interpretation bl: codec bool_bytes take_bool "\<lambda>_. True"
proof
  fix at and bs :: "byte list" and x at'
  assume at: "at \<le> length bs"
  show "take_bool bs at = Inr (x, at') \<longleftrightarrow>
      True \<and> at' = at + length (bool_bytes x) \<and> prefix (bool_bytes x) (drop at bs)"
    unfolding take_bool_def bind_u8[OF at] using at
    by (auto simp: bool_bytes_def prefix_Cons_drop)
qed

interpretation vec: codec vec_bytes take_bytes vec_ok
proof
  fix at and bs :: "byte list" and x at'
  assume at: "at \<le> length bs"
  have *: "(case get_range bs k (k + n) of None \<Rightarrow> Inl short_record | Some s \<Rightarrow> Inr (s, k + n)) =
      Inr (x, at') \<longleftrightarrow> (length x = n \<and> prefix x (drop k bs)) \<and> at' = k + n" if "k \<le> length bs" for k n
    unfolding get_range_at[OF that, of n x, symmetric] by (auto split: option.splits)
  have le: "at + length (be_bytes 4 v) \<le> length bs" if "prefix (be_bytes 4 v) (drop at bs)" for v
    by (rule prefix_drop_le[OF that at])
  have "take_bytes bs at = Inr (x, at') \<longleftrightarrow>
      (\<exists>len. len < 4294967296 \<and> prefix (be_bytes 4 len) (drop at bs) \<and>
        (length x = len \<and> prefix x (drop (at + length (be_bytes 4 len)) bs)) \<and>
        at' = at + length (be_bytes 4 len) + len)"
    unfolding take_bytes_def u32.then_reads[OF at] prod.case
    by (intro ex_cong1 conj_cong refl) (erule *[OF le])
  then show "take_bytes bs at = Inr (x, at') \<longleftrightarrow>
      vec_ok x \<and> at' = at + length (vec_bytes x) \<and> prefix (vec_bytes x) (drop at bs)"
    by (auto simp: vec_ok_def vec_bytes_def prefix_append_drop)
qed

text \<open>
  The recipe for the composite formats: unfold the decoder, let each part's law rewrite
  what it read, and compare prefixes piecewise. \<open>piecewise\<close> holds the facts every such proof uses.
\<close>

lemmas piecewise = prefix_Cons_drop prefix_append_drop add.assoc

lemmas part_codecs = u8.reads_b u16.reads_b u32.reads_b u64.reads_b str.reads_b bl.reads_b vec.reads_b

lemmas part_puts = u8.bind_put u16.bind_put u32.bind_put u64.bind_put str.bind_put bl.bind_put
  vec.bind_put

lemma decoderI:
  assumes "\<And>at bs x. ok x \<Longrightarrow> at \<le> length bs \<Longrightarrow> prefix (put x) (drop at bs) \<Longrightarrow>
    at + length (put x) \<le> length bs \<Longrightarrow> rd bs at = Inr (x, at + length (put x))"
  shows "decoder put rd ok"
  by unfold_locales (blast intro: assms prefix_drop_le)

lemma branch_decoder: "decoder branch_bytes decode_branch_op branch_ok"
proof (rule decoderI)
  fix at and bs :: "byte list" and x
  assume "branch_ok x" "at \<le> length bs" "prefix (branch_bytes x) (drop at bs)"
    "at + length (branch_bytes x) \<le> length bs"
  then show "decode_branch_op bs at = Inr (x, at + length (branch_bytes x))"
    by (cases x) (auto simp: decode_branch_op_def take_u8_def piecewise part_puts)
qed

interpretation branch_c: codec branch_bytes decode_branch_op branch_ok
proof (rule codecI[OF branch_decoder])
  fix at and bs :: "byte list" and x at'
  assume "decode_branch_op bs at = Inr (x, at')" "at \<le> length bs"
  then show "branch_ok x \<and> at' = at + length (branch_bytes x) \<and> prefix (branch_bytes x) (drop at bs)"
    unfolding decode_branch_op_def
    by (auto simp: rbind_Inr piecewise part_codecs split: if_splits)
qed

text \<open>Node lists: the loop's running order check is strict ascent of the whole list.\<close>

lemma length_ids_bytes [simp]: "length (ids_bytes ns) = 4 * length ns"
  by (induction ns) (auto simp: ids_bytes_def)

lemma strict_snoc:
  "sorted_wrt (<) out \<Longrightarrow>
   sorted_wrt (<) (out @ [n]) \<longleftrightarrow> \<not> (out \<noteq> [] \<and> n \<le> last (out :: nat list))"
  by (cases out rule: rev_cases) (auto simp: sorted_wrt_append)

lemma decode_nodes_reads:
  "at \<le> length bs \<Longrightarrow> sorted_wrt (<) out \<Longrightarrow>
   decode_nodes k out bs at = Inr (xs, at') \<longleftrightarrow>
     (\<exists>ns. xs = out @ ns \<and> length ns = k \<and> list_all (\<lambda>n. n < 2 ^ 32) ns \<and> sorted_wrt (<) xs \<and>
       at' = at + length (ids_bytes ns) \<and> prefix (ids_bytes ns) (drop at bs))"
proof (induction k arbitrary: at out)
  case 0
  then show ?case by (auto simp: ids_bytes_def)
next
  case (Suc k)
  let ?P = "\<lambda>ns. list_all (\<lambda>n. n < 2 ^ 32) ns \<and> prefix (ids_bytes ns) (drop at bs)"
  have step: "decode_nodes (Suc k) out bs at = Inr (xs, at') \<longleftrightarrow>
      (\<exists>n. n < 4294967296 \<and> prefix (be_bytes 4 n) (drop at bs) \<and> sorted_wrt (<) (out @ [n]) \<and>
        decode_nodes k (out @ [n]) bs (at + 4) = Inr (xs, at'))"
    unfolding decode_nodes.simps u32.then_reads[OF Suc.prems(1)]
    using strict_snoc[OF Suc.prems(2)] by (auto split: if_splits)
  have IH: "decode_nodes k (out @ [n]) bs (at + 4) = Inr (xs, at') \<longleftrightarrow>
      (\<exists>ns. xs = (out @ [n]) @ ns \<and> length ns = k \<and> list_all (\<lambda>n. n < 2 ^ 32) ns \<and>
        sorted_wrt (<) xs \<and> at' = at + 4 + length (ids_bytes ns) \<and>
        prefix (ids_bytes ns) (drop (at + 4) bs))"
    if "prefix (be_bytes 4 n) (drop at bs)" "sorted_wrt (<) (out @ [n])" for n
    using prefix_drop_le[OF that(1) Suc.prems(1)] that(2) by (intro Suc.IH) simp_all
  have "(\<exists>n. n < 4294967296 \<and> prefix (be_bytes 4 n) (drop at bs) \<and> sorted_wrt (<) (out @ [n]) \<and>
        decode_nodes k (out @ [n]) bs (at + 4) = Inr (xs, at')) \<longleftrightarrow>
      (\<exists>n ns. n < 4294967296 \<and> prefix (be_bytes 4 n) (drop at bs) \<and> sorted_wrt (<) (out @ [n]) \<and>
        xs = (out @ [n]) @ ns \<and> length ns = k \<and> list_all (\<lambda>n. n < 2 ^ 32) ns \<and>
        sorted_wrt (<) xs \<and> at' = at + 4 + length (ids_bytes ns) \<and>
        prefix (ids_bytes ns) (drop (at + 4) bs))"
    using IH by blast
  also have "\<dots> \<longleftrightarrow> (\<exists>ns. xs = out @ ns \<and> length ns = Suc k \<and> list_all (\<lambda>n. n < 2 ^ 32) ns \<and>
      sorted_wrt (<) xs \<and> at' = at + length (ids_bytes ns) \<and> prefix (ids_bytes ns) (drop at bs))"
    (is "?L \<longleftrightarrow> ?R")
  proof
    assume ?L
    then obtain n ns where *: "n < 4294967296" "prefix (be_bytes 4 n) (drop at bs)"
        "xs = (out @ [n]) @ ns" "length ns = k" "list_all (\<lambda>n. n < 2 ^ 32) ns"
        "sorted_wrt (<) xs" "at' = at + 4 + length (ids_bytes ns)"
        "prefix (ids_bytes ns) (drop (at + 4) bs)"
      by blast
    then show ?R by (intro exI[of _ "n # ns"]) (simp add: ids_bytes_def prefix_append_drop)
  next
    assume ?R
    then obtain ns' where *: "xs = out @ ns'" "length ns' = Suc k" "list_all (\<lambda>n. n < 2 ^ 32) ns'"
        "sorted_wrt (<) xs" "at' = at + length (ids_bytes ns')" "prefix (ids_bytes ns') (drop at bs)"
      by blast
    then obtain n ns where "ns' = n # ns" by (cases ns') auto
    with * show ?L
      by (intro exI[of _ n] exI[of _ ns]) (simp add: ids_bytes_def prefix_append_drop sorted_wrt_append)
  qed
  finally show ?case using step by blast
qed

interpretation nodes_c: codec nodes_bytes decode_node_list nodes_ok
proof
  fix at and bs :: "byte list" and x at'
  assume at: "at \<le> length bs"
  have nodes: "decode_nodes k [] bs (at + length (be_bytes 4 k)) = Inr (x, at') \<longleftrightarrow>
      length x = k \<and> list_all (\<lambda>n. n < 2 ^ 32) x \<and> sorted_wrt (<) x \<and>
      at' = at + length (be_bytes 4 k) + length (ids_bytes x) \<and>
      prefix (ids_bytes x) (drop (at + length (be_bytes 4 k)) bs)"
    if "prefix (be_bytes 4 k) (drop at bs)" for k
    using decode_nodes_reads[of "at + length (be_bytes 4 k)" bs "[]" k x at']
      prefix_drop_le[OF that at] by auto
  have "decode_node_list bs at = Inr (x, at') \<longleftrightarrow>
      (\<exists>k. k < 4294967296 \<and> prefix (be_bytes 4 k) (drop at bs) \<and> k \<le> MAX_CONFIG_NODES \<and>
        decode_nodes k [] bs (at + length (be_bytes 4 k)) = Inr (x, at'))"
    unfolding decode_node_list_def u32.then_reads[OF at] by (auto simp: not_less split: if_splits)
  also have "\<dots> \<longleftrightarrow> nodes_ok x \<and> at' = at + length (nodes_bytes x) \<and> prefix (nodes_bytes x) (drop at bs)"
  proof
    assume "\<exists>k. k < 4294967296 \<and> prefix (be_bytes 4 k) (drop at bs) \<and> k \<le> MAX_CONFIG_NODES \<and>
      decode_nodes k [] bs (at + length (be_bytes 4 k)) = Inr (x, at')"
    then show "nodes_ok x \<and> at' = at + length (nodes_bytes x) \<and> prefix (nodes_bytes x) (drop at bs)"
      using nodes by (auto simp: nodes_ok_def nodes_bytes_def prefix_append_drop)
  next
    assume "nodes_ok x \<and> at' = at + length (nodes_bytes x) \<and> prefix (nodes_bytes x) (drop at bs)"
    then show "\<exists>k. k < 4294967296 \<and> prefix (be_bytes 4 k) (drop at bs) \<and> k \<le> MAX_CONFIG_NODES \<and>
      decode_nodes k [] bs (at + length (be_bytes 4 k)) = Inr (x, at')"
      using nodes[of "length x"]
      by (intro exI[of _ "length x"])
        (auto simp: nodes_ok_def nodes_bytes_def prefix_append_drop MAX_CONFIG_NODES_def)
  qed
  finally show "decode_node_list bs at = Inr (x, at') \<longleftrightarrow>
      nodes_ok x \<and> at' = at + length (nodes_bytes x) \<and> prefix (nodes_bytes x) (drop at bs)" .
qed

lemma first_common_None:
  "sorted_wrt (<) a \<Longrightarrow> sorted_wrt (<) b \<Longrightarrow> first_common a b = None \<longleftrightarrow> set a \<inter> set b = {}"
proof (induction a b rule: first_common.induct)
  case (1 a as b bs)
  show ?case
  proof (cases "a < b")
    case True
    then have "a \<notin> set (b # bs)" using 1(4) by auto
    with 1 True show ?thesis by auto
  next
    case False
    show ?thesis
    proof (cases "a = b")
      case ne: False
      with False have "b < a" by simp
      then have "b \<notin> set (a # as)" using 1(3) by auto
      with 1 False ne show ?thesis by auto
    qed simp
  qed
qed auto

text \<open>A configuration with the wire's shape is a fixed point of the constructors.\<close>

lemma config_rebuild:
  assumes "sorted_wrt (<) ms" "sorted_wrt (<) ls" "set ms \<inter> set ls = {}"
  shows "with_learners (config_new ms v t) ls =
    \<lparr>members = ms, learners = ls, cfg_version = v, cfg_term = t\<rparr>"
proof -
  have "filter (\<lambda>n. n \<notin> set ms) ls = ls" using assms(3) by (auto intro!: filter_True)
  with assms show ?thesis
    by (simp add: with_learners_def config_new_def dedup_sort_strict retain_absent_eq)
qed

lemma config_decoder: "decoder config_bytes decode_config config_ok"
proof (rule decoderI)
  fix at and bs :: "byte list" and x
  assume ok: "config_ok x" "at \<le> length bs" "prefix (config_bytes x) (drop at bs)"
    "at + length (config_bytes x) \<le> length bs"
  have "sorted_wrt (<) (members x)" "sorted_wrt (<) (learners x)"
      "set (members x) \<inter> set (learners x) = {}"
    using ok(1) by (auto simp: config_ok_def nodes_ok_def)
  moreover from this have "first_common (members x) (learners x) = None" using first_common_None by blast
  ultimately show "decode_config bs at = Inr (x, at + length (config_bytes x))"
    using ok by (auto simp: Let_def decode_config_def config_bytes_def config_ok_def piecewise part_puts
        nodes_c.bind_put config_rebuild)
qed

interpretation config_c: codec config_bytes decode_config config_ok
proof (rule codecI[OF config_decoder])
  fix at and bs :: "byte list" and x at'
  assume *: "decode_config bs at = Inr (x, at')" "at \<le> length bs"
  then obtain v t ms ls k where
      p: "v < 2 ^ 64" "t < 2 ^ 64" "nodes_ok ms" "nodes_ok ls" "first_common ms ls = None"
        "at' = at + length (be_bytes 8 v @ be_bytes 8 t @ nodes_bytes ms @ nodes_bytes ls)"
        "prefix (be_bytes 8 v @ be_bytes 8 t @ nodes_bytes ms @ nodes_bytes ls) (drop at bs)"
        "x = with_learners (config_new ms v t) ls"
    unfolding decode_config_def
    by (auto simp: rbind_Inr part_codecs nodes_c.reads_b piecewise Let_def
        split: option.splits if_splits)
  then have s: "sorted_wrt (<) ms" "sorted_wrt (<) ls" by (auto simp: nodes_ok_def)
  with p(5) have "set ms \<inter> set ls = {}" using first_common_None by blast
  with s p show "config_ok x \<and> at' = at + length (config_bytes x) \<and> prefix (config_bytes x) (drop at bs)"
    by (simp add: config_rebuild config_ok_def config_bytes_def)
qed

lemma meta_decoder: "decoder meta_bytes decode_snapshot_meta meta_ok"
  by (rule decoderI)
    (auto simp: decode_snapshot_meta_def meta_bytes_def meta_ok_def piecewise part_puts
      config_c.bind_put)

interpretation meta_c: codec meta_bytes decode_snapshot_meta meta_ok
proof (rule codecI[OF meta_decoder])
  fix at and bs :: "byte list" and x at'
  assume "decode_snapshot_meta bs at = Inr (x, at')" "at \<le> length bs"
  then show "meta_ok x \<and> at' = at + length (meta_bytes x) \<and> prefix (meta_bytes x) (drop at bs)"
    unfolding decode_snapshot_meta_def
    by (auto simp: rbind_Inr part_codecs config_c.reads_b piecewise meta_ok_def meta_bytes_def)
qed

text \<open>
  A \<open>Catalog\<close> command travels as a log record. Its reader accepts several spellings of one record and
  ignores trailing bytes; re-encoding and comparing is what makes the command canonical.
\<close>

lemma deserialize_ddl_tag:
  "deserialize (9 # r) = Some (rbind (read_ddl (9 # r) 1) (\<lambda>(r, at). Inr r))"
  by (subst deserialize.simps) simp

lemma catalog_of_record_Inr:
  "catalog_of_record rec = Inr c \<longleftrightarrow>
    (\<exists>oper table cols. c = Catalog oper table cols \<and> rec_ok (Ddl oper table 0 0 cols) \<and>
      rec = rec_bytes (Ddl oper table 0 0 cols))"
    (is "_ \<longleftrightarrow> ?R")
proof
  assume c: "catalog_of_record rec = Inr c"
  then obtain r where rec: "rec = 9 # r"
    by (auto simp: catalog_of_record_def RECKIND_DDL_TAG_def split: list.splits if_splits)
  show ?R
  proof (cases "read_ddl rec 1")
    case (Inl e)
    with c rec show ?thesis
      by (simp add: catalog_of_record_def RECKIND_DDL_TAG_def deserialize_ddl_tag)
  next
    case (Inr p)
    then obtain x a where x: "read_ddl rec 1 = Inr (x, a)" by (cases p) auto
    obtain oper table d tt cols where ddl: "x = Ddl oper table d tt cols" "rec_ok x"
      using read_ddl_yields[OF x] rec by auto
    have "serialize [] x = Inr (rec_bytes x)" using serialize_ok[OF ddl(2), of "[]"] by simp
    with c rec x ddl show ?thesis
      by (force simp: catalog_of_record_def RECKIND_DDL_TAG_def deserialize_ddl_tag
          simp del: serialize.simps rec_bytes.simps rec_ok.simps split: if_splits)
  qed
next
  assume ?R
  then obtain oper table cols where c: "c = Catalog oper table cols"
      "rec_ok (Ddl oper table 0 0 cols)" "rec = rec_bytes (Ddl oper table 0 0 cols)"
    by blast
  have "deserialize rec = Some (Inr (Ddl oper table 0 0 cols))"
    using deserialize_put[OF c(2)] c(3) by simp
  moreover have "serialize [] (Ddl oper table 0 0 cols) = Inr rec"
    using serialize_ok[OF c(2), of "[]"] c(3) by simp
  moreover have "\<exists>r. rec = RECKIND_DDL_TAG # r" using c(3) by (simp add: RECKIND_DDL_TAG_def)
  ultimately show "catalog_of_record rec = Inr c"
    by (auto simp: catalog_of_record_def c(1) simp del: serialize.simps)
qed

lemma decode_catalog_reads:
  assumes at: "at \<le> length bs"
  shows "decode_catalog bs at = Inr (c, at') \<longleftrightarrow>
    (\<exists>oper table cols. c = Catalog oper table cols \<and> cmd_ok c \<and>
      at' = at + length (vec_bytes (rec_bytes (Ddl oper table 0 0 cols))) \<and>
      prefix (vec_bytes (rec_bytes (Ddl oper table 0 0 cols))) (drop at bs))"
  unfolding decode_catalog_def vec.then_reads[OF at]
  by (auto simp: rbind_Inr catalog_of_record_Inr simp del: rec_bytes.simps rec_ok.simps)

lemma decode_catalog_b:
  "at \<le> length bs \<Longrightarrow>
   decode_catalog bs at = Inr (c, at') \<longleftrightarrow>
    (\<exists>oper table cols. c = Catalog oper table cols \<and> cmd_ok c \<and>
      at' = at + length (vec_bytes (rec_bytes (Ddl oper table 0 0 cols))) \<and>
      prefix (vec_bytes (rec_bytes (Ddl oper table 0 0 cols))) (drop at bs) \<and> at' \<le> length bs)"
  unfolding decode_catalog_reads by (auto dest: prefix_drop_le)

lemma cmd_decoder: "decoder cmd_bytes decode_command cmd_ok"
proof (rule decoderI)
  fix at and bs :: "byte list" and x
  assume ok: "cmd_ok x" "at \<le> length bs" "prefix (cmd_bytes x) (drop at bs)"
    "at + length (cmd_bytes x) \<le> length bs"
  show "decode_command bs at = Inr (x, at + length (cmd_bytes x))"
  proof (cases x)
    case (Catalog oper table cols)
    then have "decode_catalog bs (Suc at) = Inr (x, at + length (cmd_bytes x))"
      using ok by (subst decode_catalog_reads) (auto simp: prefix_Cons_drop simp del: rec_bytes.simps)
    with Catalog ok show ?thesis
      by (auto simp: decode_command_def take_u8_def prefix_Cons_drop)
  qed (use ok in \<open>auto simp: decode_command_def take_u8_def piecewise part_puts branch_c.bind_put
        config_c.bind_put\<close>)
qed

interpretation cmd_c: codec cmd_bytes decode_command cmd_ok
proof (rule codecI[OF cmd_decoder])
  fix at and bs :: "byte list" and x at'
  assume "decode_command bs at = Inr (x, at')" "at \<le> length bs"
  then show "cmd_ok x \<and> at' = at + length (cmd_bytes x) \<and> prefix (cmd_bytes x) (drop at bs)"
    unfolding decode_command_def
    by (auto simp: rbind_Inr part_codecs branch_c.reads_b config_c.reads_b decode_catalog_b piecewise
        simp del: rec_bytes.simps split: if_splits)
qed

lemma entry_decoder: "decoder entry_bytes decode_entry entry_ok"
  by (rule decoderI)
    (auto simp: decode_entry_def entry_bytes_def entry_ok_def piecewise part_puts cmd_c.bind_put)

interpretation entry_c: codec entry_bytes decode_entry entry_ok
proof (rule codecI[OF entry_decoder])
  fix at and bs :: "byte list" and x at'
  assume "decode_entry bs at = Inr (x, at')" "at \<le> length bs"
  then show "entry_ok x \<and> at' = at + length (entry_bytes x) \<and> prefix (entry_bytes x) (drop at bs)"
    unfolding decode_entry_def
    by (auto simp: rbind_Inr part_codecs cmd_c.reads_b piecewise entry_ok_def entry_bytes_def)
qed

text \<open>The reader the entry loop of an \<open>Append\<close> runs, which only rewords the refusal.\<close>

interpretation entry_item: codec entry_bytes
  "\<lambda>bs at. map_err (\<lambda>_. Wal ''an entry in an Append frame'') (decode_entry bs at)" entry_ok
  by unfold_locales (simp add: entry_c.reads)

lemma entries_reads_b:
  "at \<le> length bs \<Longrightarrow>
   read_n n (\<lambda>bs at. map_err (\<lambda>_. Wal ''an entry in an Append frame'') (decode_entry bs at)) bs at =
     Inr (es, at') \<longleftrightarrow>
     length es = n \<and> list_all entry_ok es \<and> at' = at + length (entries_bytes es) \<and>
     prefix (entries_bytes es) (drop at bs) \<and> at' \<le> length bs"
  unfolding entries_bytes_def
  by (subst entry_item.read_n_reads, assumption) (auto dest: prefix_drop_le)

lemma entries_bind_put:
  "prefix (entries_bytes es) (drop at bs) \<Longrightarrow> at \<le> length bs \<Longrightarrow> list_all entry_ok es \<Longrightarrow>
   rbind (read_n (length es)
     (\<lambda>bs at. map_err (\<lambda>_. Wal ''an entry in an Append frame'') (decode_entry bs at)) bs at) f =
   f (es, at + length (entries_bytes es))"
  using entry_item.read_n_put[of es at bs] by (simp add: entries_bytes_def)

lemma u64_of_digest [simp]:
  "unat (d :: u64) < 18446744073709551616" "word_of_nat (unat d) = d"
  using unsigned_less[of d] by simp_all

lemma unat_of_u64: "n < 18446744073709551616 \<Longrightarrow> unat (word_of_nat n :: u64) = n"
  by (simp add: unat_of_nat)

lemma body_decoder: "decoder body_bytes decode_body body_ok"
proof (rule decoderI)
  fix at and bs :: "byte list" and x
  assume "body_ok x" "at \<le> length bs" "prefix (body_bytes x) (drop at bs)"
    "at + length (body_bytes x) \<le> length bs"
  then show "decode_body bs at = Inr (x, at + length (body_bytes x))"
    by (cases x) (auto simp: decode_body_def decode_append_def take_u8_def piecewise part_puts
        meta_c.bind_put entries_bind_put)
qed

interpretation body_c: codec body_bytes decode_body body_ok
proof (rule codecI[OF body_decoder])
  fix at and bs :: "byte list" and x at'
  assume "decode_body bs at = Inr (x, at')" "at \<le> length bs"
  then show "body_ok x \<and> at' = at + length (body_bytes x) \<and> prefix (body_bytes x) (drop at bs)"
    unfolding decode_body_def decode_append_def
    by (auto simp: rbind_Inr part_codecs meta_c.reads_b entries_reads_b piecewise unat_of_u64
        split: if_splits)
qed

lemma prefix_append_start: "prefix (xs @ ys) zs \<longleftrightarrow> prefix xs zs \<and> prefix ys (drop (length xs) zs)"
  using prefix_append_drop[of xs ys 0 zs] by simp

lemma decode_iff: "decode bs = Inr m \<longleftrightarrow> msg_ok m \<and> bs = msg_bytes m"
proof
  assume "decode bs = Inr m"
  then have "msg_ok m \<and> length bs = length (msg_bytes m) \<and> prefix (msg_bytes m) bs"
    unfolding decode_def
    by (auto simp: rbind_Inr part_codecs body_c.reads_b msg_ok_def msg_bytes_def
        prefix_append_start prefix_append_drop split: if_splits)
  then show "msg_ok m \<and> bs = msg_bytes m" by (auto simp: prefix_def)
next
  assume *: "msg_ok m \<and> bs = msg_bytes m"
  then have p: "prefix (be_bytes 4 (m_from m)) (drop 0 bs)" "prefix (be_bytes 4 (m_to m)) (drop 4 bs)"
      "prefix (be_bytes 8 (m_term m)) (drop 8 bs)" "prefix (body_bytes (m_body m)) (drop 16 bs)"
    by (simp_all add: msg_bytes_def)
  have "length bs = 16 + length (body_bytes (m_body m))" using * by (simp add: msg_bytes_def)
  with * p show "decode bs = Inr m"
    unfolding decode_def
    by (auto simp: msg_ok_def u32.bind_put[OF p(1)] part_puts body_c.bind_put)
qed

text \<open>No frame makes the decoder panic: the one arm that could is fenced by the tag check.\<close>

lemma rbind_Inl: "rbind m f = Inl e \<longleftrightarrow> m = Inl e \<or> (\<exists>x. m = Inr x \<and> f x = Inl e)"
  by (cases m) auto

lemma map_err_Panic [simp]: "map_err (\<lambda>_. Wal t) r = Inl Panic \<longleftrightarrow> r = Inl Panic"
  by (cases r) (auto simp: map_err_def)

definition never_panics :: "'a reader \<Rightarrow> bool" where
  "never_panics rd \<longleftrightarrow> (\<forall>bs at. rd bs at \<noteq> Inl Panic)"

lemma read_n_no_panic: "never_panics rd \<Longrightarrow> read_n n rd bs at \<noteq> Inl Panic"
  by (induction n arbitrary: at) (auto simp: rbind_Inl never_panics_def split: prod.splits)

lemma prim_no_panic [simp]:
  "take_u8 bs at \<noteq> Inl Panic" "take_u16 bs at \<noteq> Inl Panic" "take_u32 bs at \<noteq> Inl Panic"
  "take_u64 bs at \<noteq> Inl Panic" "take_str bs at \<noteq> Inl Panic" "take_bytes bs at \<noteq> Inl Panic"
  "take_bool bs at \<noteq> Inl Panic"
  by (auto simp: take_u8_def take_u16_def take_u32_def take_u64_def take_str_def take_bytes_def
      take_bool_def short_record_def rbind_Inl split: option.splits if_splits)

lemma wal_no_panic [simp]:
  "read_data_type bs at \<noteq> Inl Panic" "read_alteration bs at \<noteq> Inl Panic"
  "read_ddl_op bs at \<noteq> Inl Panic" "read_column bs at \<noteq> Inl Panic"
  by (auto simp: read_data_type_def read_alteration_def read_ddl_op_def read_column_def rbind_Inl
      split: if_splits)

lemma read_ddl_no_panic [simp]: "read_ddl bs at \<noteq> Inl Panic"
proof -
  have "read_n n read_column bs at \<noteq> Inl Panic" for n at
    by (rule read_n_no_panic) (simp add: never_panics_def)
  then show ?thesis by (auto simp: read_ddl_def rbind_Inl)
qed

lemma write_str_no_panic [simp]: "write_str b s w \<noteq> Inl Panic"
  by (simp add: write_str_def)

lemma write_no_panic [simp]:
  "write_ddl_op b x \<noteq> Inl Panic" "write_columns b cs \<noteq> Inl Panic"
proof -
  show "write_ddl_op b x \<noteq> Inl Panic"
    by (cases "(b, x)" rule: write_ddl_op.cases) (auto simp: rbind_Inl)
  show "write_columns b cs \<noteq> Inl Panic"
    by (induction b cs rule: write_columns.induct) (auto simp: rbind_Inl)
qed

lemma serialize_no_panic [simp]: "serialize b r \<noteq> Inl Panic"
  by (induction b r rule: serialize.induct) (auto simp: rbind_Inl split: if_splits)

lemma catalog_no_panic [simp]: "catalog_of_record rec \<noteq> Inl Panic"
proof (cases rec)
  case (Cons t r)
  show ?thesis
  proof (cases "t = 9")
    case True
    with Cons show ?thesis
      by (auto simp: catalog_of_record_def RECKIND_DDL_TAG_def deserialize_ddl_tag rbind_Inl
          simp del: serialize.simps split: rec_kind.splits if_splits)
  qed (use Cons in \<open>simp add: catalog_of_record_def RECKIND_DDL_TAG_def\<close>)
qed (simp add: catalog_of_record_def)

lemma nodes_no_panic: "decode_nodes k out bs at \<noteq> Inl Panic"
  by (induction k arbitrary: out at) (auto simp: rbind_Inl split: prod.splits if_splits)

lemma config_no_panic [simp]: "decode_config bs at \<noteq> Inl Panic"
  by (auto simp: decode_config_def decode_node_list_def rbind_Inl nodes_no_panic Let_def
      split: option.splits if_splits)

lemma command_no_panic [simp]: "decode_command bs at \<noteq> Inl Panic"
  by (auto simp: decode_command_def decode_catalog_def decode_branch_op_def rbind_Inl
      split: if_splits)

lemma body_no_panic: "decode_body bs at \<noteq> Inl Panic"
proof -
  have "read_n n (\<lambda>bs at. map_err (\<lambda>_. Wal ''an entry in an Append frame'') (decode_entry bs at)) bs at
      \<noteq> Inl Panic" for n at
    by (rule read_n_no_panic) (auto simp: never_panics_def decode_entry_def rbind_Inl)
  then show ?thesis
    by (auto simp: decode_body_def decode_append_def decode_snapshot_meta_def rbind_Inl
        split: if_splits)
qed

lemma decode_no_panic: "decode bs \<noteq> Inl Panic"
  by (auto simp: decode_def rbind_Inl body_no_panic split: if_splits)

section \<open>What the encoders write, and when they refuse\<close>

lemma room_Inr [simp]: "room b n = Inr () \<longleftrightarrow> length b + n \<le> MAX_FRAME_BYTES"
  by (auto simp: room_def sat_add64_def MAX_FRAME_BYTES_def)

lemma put_simps [simp]:
  "put_u32 b v = b @ be_bytes 4 v" "put_u64 b v = b @ be_bytes 8 v" "put_bool b v' = b @ bool_bytes v'"
  by (auto simp: put_u32_def put_u64_def put_bool_def bool_bytes_def)

lemma put_bytes_Inr [simp]:
  "put_bytes b v = Inr b' \<longleftrightarrow> b' = b @ vec_bytes v \<and> length b + length (vec_bytes v) \<le> MAX_FRAME_BYTES"
  by (auto simp: put_bytes_def rbind_Inr vec_bytes_def)

lemma encode_branch_op_eq [simp]: "encode_branch_op b x = b @ branch_bytes x"
  by (cases x) auto

lemma foldl_put_u32: "foldl put_u32 b ns = b @ ids_bytes ns"
  by (induction ns arbitrary: b) (auto simp: ids_bytes_def)

lemma encode_node_list_Inr [simp]:
  "encode_node_list b ns = Inr b' \<longleftrightarrow>
     length ns \<le> MAX_CONFIG_NODES \<and> b' = b @ nodes_bytes ns \<and>
     length b + length (nodes_bytes ns) \<le> MAX_FRAME_BYTES"
  by (auto simp: encode_node_list_def rbind_Inr foldl_put_u32 nodes_bytes_def)

lemma encode_config_Inr [simp]:
  "encode_config b c = Inr b' \<longleftrightarrow>
     length (members c) \<le> MAX_CONFIG_NODES \<and> length (learners c) \<le> MAX_CONFIG_NODES \<and>
     b' = b @ config_bytes c \<and> length b + length (config_bytes c) \<le> MAX_FRAME_BYTES"
  by (auto simp: encode_config_def rbind_Inr config_bytes_def)

text \<open>What the format can express at all, whatever room is left in the frame.\<close>

fun cmd_enc :: "command \<Rightarrow> bool" where
  "cmd_enc (Catalog oper table cols) = isOk (serialize [] (Ddl oper table 0 0 cols))"
| "cmd_enc (Membership c) =
     (length (members c) \<le> MAX_CONFIG_NODES \<and> length (learners c) \<le> MAX_CONFIG_NODES)"
| "cmd_enc _ = True"

lemma isOk_serialize: "isOk (serialize [] r) \<longleftrightarrow> serialize [] r = Inr (rec_bytes r)"
  using serialize_Inr[of "[]" r] by (cases "serialize [] r") auto

lemma encode_command_Inr:
  "encode_command b c = Inr b' \<Longrightarrow> cmd_enc c \<and> b' = b @ cmd_bytes c"
proof (cases c)
  case (Catalog oper table cols)
  assume "encode_command b c = Inr b'"
  then obtain rec where "serialize [] (Ddl oper table 0 0 cols) = Inr rec"
      "b' = b @ [1] @ vec_bytes rec"
    unfolding Catalog by (auto simp: rbind_Inr simp del: serialize.simps)
  with Catalog serialize_Inr show ?thesis by (fastforce simp del: serialize.simps rec_bytes.simps)
qed (auto simp del: serialize.simps)

lemma encode_command_fits:
  "cmd_enc c \<Longrightarrow> length b + length (cmd_bytes c) \<le> MAX_FRAME_BYTES \<Longrightarrow>
   encode_command b c = Inr (b @ cmd_bytes c)"
  by (cases c) (auto simp: isOk_serialize simp del: serialize.simps rec_bytes.simps)

lemma cmd_bytes_nonempty: "1 \<le> length (cmd_bytes c)"
  by (cases c) auto

definition entry_enc :: "entry \<Rightarrow> bool" where
  "entry_enc e \<longleftrightarrow> cmd_enc (e_command e)"

lemma encode_entry_Inr: "encode_entry b e = Inr b' \<Longrightarrow> entry_enc e \<and> b' = b @ entry_bytes e"
  by (auto simp: encode_entry_def rbind_Inr entry_enc_def entry_bytes_def dest!: encode_command_Inr)

lemma encode_entry_fits:
  "entry_enc e \<Longrightarrow> length b + length (entry_bytes e) \<le> MAX_FRAME_BYTES \<Longrightarrow>
   encode_entry b e = Inr (b @ entry_bytes e)"
  using cmd_bytes_nonempty[of "e_command e"]
  by (simp add: encode_entry_def rbind_Inr entry_enc_def entry_bytes_def encode_command_fits)

lemma encode_entries_Inr:
  "encode_entries b es = Inr b' \<Longrightarrow> list_all entry_enc es \<and> b' = b @ entries_bytes es"
  by (induction es arbitrary: b)
    (fastforce simp: rbind_Inr entries_bytes_def dest: encode_entry_Inr)+

lemma encode_entries_fits:
  "list_all entry_enc es \<Longrightarrow> length b + length (entries_bytes es) \<le> MAX_FRAME_BYTES \<Longrightarrow>
   encode_entries b es = Inr (b @ entries_bytes es)"
  by (induction es arbitrary: b) (auto simp: entries_bytes_def encode_entry_fits)

fun body_enc :: "body \<Rightarrow> bool" where
  "body_enc (Append pr pt es lc) = (list_all entry_enc es \<and> length es \<le> u32_max)"
| "body_enc (InstallSnapshot meta offset v fin) =
     (length (members (sm_config meta)) \<le> MAX_CONFIG_NODES \<and>
      length (learners (sm_config meta)) \<le> MAX_CONFIG_NODES)"
| "body_enc _ = True"

lemma encode_body_Inr: "encode_body b x = Inr b' \<Longrightarrow> body_enc x \<and> b' = b @ body_bytes x"
  by (cases x) (auto simp: rbind_Inr Let_def encode_snapshot_meta_def meta_bytes_def
      dest!: encode_entries_Inr split: if_splits)

lemma encode_body_fits:
  "body_enc x \<Longrightarrow> length b + length (body_bytes x) \<le> MAX_FRAME_BYTES \<Longrightarrow>
   encode_body b x = Inr (b @ body_bytes x)"
  by (cases x) (auto simp: rbind_Inr Let_def encode_snapshot_meta_def meta_bytes_def
      encode_entries_fits)

lemma message_body_Inr:
  "message_body m = Inr b \<longleftrightarrow>
     body_enc (m_body m) \<and> b = msg_bytes m \<and> length (msg_bytes m) \<le> MAX_FRAME_BYTES"
proof
  assume "message_body m = Inr b"
  then show "body_enc (m_body m) \<and> b = msg_bytes m \<and> length (msg_bytes m) \<le> MAX_FRAME_BYTES"
    by (auto simp: message_body_def rbind_Inr msg_bytes_def dest!: encode_body_Inr split: if_splits)
next
  assume "body_enc (m_body m) \<and> b = msg_bytes m \<and> length (msg_bytes m) \<le> MAX_FRAME_BYTES"
  then show "message_body m = Inr b"
    by (simp add: message_body_def msg_bytes_def encode_body_fits)
qed

lemma body_ok_enc: "body_ok x \<Longrightarrow> body_enc x"
proof (cases x)
  case (Append pr pt es lc)
  have "entry_ok e \<Longrightarrow> entry_enc e" for e
    by (cases "e_command e")
      (auto simp: entry_ok_def entry_enc_def isOk_serialize config_ok_def nodes_ok_def
        serialize_ok[where b = "[]", simplified] simp del: serialize.simps rec_bytes.simps rec_ok.simps)
  then show "body_ok x \<Longrightarrow> body_enc x" using Append by (auto simp: list_all_iff)
qed (auto simp: meta_ok_def config_ok_def nodes_ok_def)

lemma encode_signed_Inr:
  "encode_signed m key = Inr f \<longleftrightarrow>
     body_enc (m_body m) \<and>
     length (msg_bytes m) + (if key = None then 0 else MAC_LEN) \<le> MAX_FRAME_BYTES \<and>
     (let body = (case key of None \<Rightarrow> [] | Some k \<Rightarrow> hmac_ref k (DOMAIN @ msg_bytes m)) @ msg_bytes m
      in f = CONSENSUS_TAG # be_bytes 4 (length body) @ body)"
  by (cases key)
    (auto simp: encode_signed_def rbind_Inr message_body_Inr sign_frame_Inr Let_def)

section \<open>The budget\<close>

lemma budget_eq: "append_entries_budget = 8388531"
proof -
  have "message_body \<lparr>m_from = 0, m_to = 0, m_term = 0, m_body = Append 0 0 [] 0\<rparr> =
      Inr (msg_bytes \<lparr>m_from = 0, m_to = 0, m_term = 0, m_body = Append 0 0 [] 0\<rparr>)"
    by (simp add: message_body_Inr msg_bytes_def entries_bytes_def MAX_FRAME_BYTES_def)
  then show ?thesis
    by (simp add: append_entries_budget_def msg_bytes_def entries_bytes_def MAX_FRAME_BYTES_def
        MAC_LEN_def)
qed

text \<open>A batch whose entries stay within the budget is always framed, signed or not.\<close>

lemma batch_encodes:
  assumes "list_all entry_enc es" "length es \<le> u32_max"
    and "length (entries_bytes es) \<le> append_entries_budget"
  shows "isOk (encode_signed \<lparr>m_from = a, m_to = b, m_term = t, m_body = Append pr pt es lc\<rparr> key)"
proof -
  let ?m = "\<lparr>m_from = a, m_to = b, m_term = t, m_body = Append pr pt es lc\<rparr>"
  have "length (msg_bytes ?m) + MAC_LEN \<le> MAX_FRAME_BYTES"
    using assms(3) by (simp add: msg_bytes_def budget_eq MAC_LEN_def MAX_FRAME_BYTES_def)
  then have "\<exists>f. encode_signed ?m key = Inr f"
    using assms(1,2) unfolding encode_signed_Inr Let_def by auto
  then show ?thesis by auto
qed

lemma admit_entry_iff:
  "admit_entry e = Inr () \<longleftrightarrow> entry_enc e \<and> length (entry_bytes e) \<le> append_entries_budget"
proof
  assume "admit_entry e = Inr ()"
  then show "entry_enc e \<and> length (entry_bytes e) \<le> append_entries_budget"
    by (auto simp: admit_entry_def rbind_Inr dest!: encode_entry_Inr split: if_splits)
next
  assume *: "entry_enc e \<and> length (entry_bytes e) \<le> append_entries_budget"
  then have "encode_entry [] e = Inr (entry_bytes e)"
    using encode_entry_fits[of e "[]"] by (simp add: budget_eq MAX_FRAME_BYTES_def)
  with * show "admit_entry e = Inr ()" by (simp add: admit_entry_def)
qed

lemma entry_wire_len_le:
  "n < usize_max \<Longrightarrow>
   entry_wire_len e \<le> n \<longleftrightarrow> isOk (encode_entry [] e) \<and> length (entry_bytes e) \<le> n"
  by (auto simp: entry_wire_len_def isOk_def dest: encode_entry_Inr split: sum.splits)

lemma admitted_wire_len: "admit_entry e = Inr () \<longleftrightarrow> entry_wire_len e \<le> append_entries_budget"
proof -
  have "isOk (encode_entry [] e) \<longleftrightarrow> entry_enc e" if "length (entry_bytes e) \<le> append_entries_budget"
    using that encode_entry_fits[of e "[]"] encode_entry_Inr[of "[]" e]
    by (auto simp: isOk_def budget_eq MAX_FRAME_BYTES_def split: sum.splits)
  moreover have "append_entries_budget < usize_max" by (simp add: budget_eq usize_max_def)
  ultimately show ?thesis by (auto simp: admit_entry_iff entry_wire_len_le)
qed

section \<open>Properties\<close>

text \<open>
  (C29) The wire format is canonical: a frame body decodes to a message exactly when it is the one
  encoding of a message whose fields fit the format. No two byte strings decode to one message, none
  is ambiguous, a decoded configuration is strictly ascending with disjoint voters and learners, and
  no byte string whatever makes the decoder panic.
\<close>

theorem wire_canonical:
  "(decode bs = Inr m \<longleftrightarrow> msg_ok m \<and> bs = msg_bytes m) \<and> decode bs \<noteq> Inl Panic"
  by (simp add: decode_iff decode_no_panic)

text \<open>
  (C30) What is framed is what is read: every message that fits the format and the frame limit is
  encoded, with or without a key; the frame is the consensus tag, the body's length and the body, and
  handing that body to \<open>decode_verified\<close> under the same key gives the message back.
\<close>

theorem wire_roundtrip:
  assumes "msg_ok m" "length (msg_bytes m) + MAC_LEN \<le> MAX_FRAME_BYTES"
  shows "\<exists>body. encode_signed m key = Inr (CONSENSUS_TAG # be_bytes 4 (length body) @ body) \<and>
    length body \<le> MAX_FRAME_BYTES \<and> decode_verified body key = Inr m"
proof -
  let ?body = "(case key of None \<Rightarrow> [] | Some k \<Rightarrow> hmac_ref k (DOMAIN @ msg_bytes m)) @ msg_bytes m"
  have "encode_signed m key = Inr (CONSENSUS_TAG # be_bytes 4 (length ?body) @ ?body)"
    using assms body_ok_enc by (auto simp: encode_signed_Inr msg_ok_def Let_def)
  moreover have "decode_verified ?body key = Inr m"
  proof (cases key)
    case (Some k)
    have "verify_frame k ?body = Inr (msg_bytes m)" using Some by (simp add: verify_frame_Inr)
    with Some assms(1) show ?thesis by (simp add: decode_verified_def decode_iff)
  qed (use assms(1) in \<open>simp add: decode_verified_def decode_iff\<close>)
  moreover have "length ?body \<le> MAX_FRAME_BYTES" using assms(2) by (cases key) auto
  ultimately show ?thesis by blast
qed

theorem wire_roundtrip_witness:
  "let m = \<lparr>m_from = 1, m_to = 2, m_term = 7,
            m_body = Append 3 6 [\<lparr>e_term = 7, e_round = 4,
              e_command = Membership (config_new [3, 1, 2] 5 7)\<rparr>] 2\<rparr>
   in msg_ok m \<and> (\<exists>body. encode_signed m (Some [1, 2, 3]) = Inr (CONSENSUS_TAG # be_bytes 4 (length body) @ body) \<and>
        length body \<le> MAX_FRAME_BYTES \<and> decode_verified body (Some [1, 2, 3]) = Inr m)"
proof -
  let ?m = "\<lparr>m_from = 1, m_to = 2, m_term = 7,
            m_body = Append 3 6 [\<lparr>e_term = 7, e_round = 4,
              e_command = Membership (config_new [3, 1, 2] 5 7)\<rparr>] 2\<rparr>"
  have "msg_ok ?m"
    by (simp add: msg_ok_def entry_ok_def config_ok_def nodes_ok_def config_new_def MAX_CONFIG_NODES_def)
  moreover have "length (msg_bytes ?m) + MAC_LEN \<le> MAX_FRAME_BYTES"
    by (simp add: msg_bytes_def entries_bytes_def entry_bytes_def config_bytes_def nodes_bytes_def
        config_new_def MAC_LEN_def MAX_FRAME_BYTES_def)
  ultimately show ?thesis using wire_roundtrip[of ?m "Some [1, 2, 3]"] by (simp add: Let_def)
qed

text \<open>
  (C39) An admitted proposal can always be shipped: an entry that passes \<open>admit_entry\<close> fits, alone in
  an \<open>Append\<close> from any node at any term, one frame, even one carrying a signature; and an entry it
  refuses either has no encoding or overflows the budget.
\<close>

theorem admitted_entry_ships:
  "(admit_entry e = Inr () \<longrightarrow>
     isOk (encode_signed \<lparr>m_from = a, m_to = b, m_term = t, m_body = Append pr pt [e] lc\<rparr> key)) \<and>
   (admit_entry e = Inr () \<longleftrightarrow> entry_wire_len e \<le> append_entries_budget)"
proof -
  have "isOk (encode_signed \<lparr>m_from = a, m_to = b, m_term = t, m_body = Append pr pt [e] lc\<rparr> key)"
    if "admit_entry e = Inr ()"
    using that by (intro batch_encodes) (simp_all add: admit_entry_iff entries_bytes_def)
  with admitted_wire_len show ?thesis by blast
qed

theorem admitted_entry_ships_witness:
  "let e = \<lparr>e_term = 1, e_round = 1, e_command = WalBatch 0 [7]\<rparr>
   in admit_entry e = Inr () \<and>
      isOk (encode_signed \<lparr>m_from = 1, m_to = 2, m_term = 1, m_body = Append 0 0 [e] 0\<rparr> (Some []))"
proof -
  let ?e = "\<lparr>e_term = 1, e_round = 1, e_command = WalBatch 0 [7]\<rparr>"
  have "admit_entry ?e = Inr ()"
    by (simp add: admit_entry_iff entry_enc_def entry_bytes_def vec_bytes_def budget_eq)
  then show ?thesis using admitted_entry_ships[of ?e 1 2 1 0 0 0 "Some []"] by simp
qed

end
