(* ===== verification/Log_Tail.thy ===== *)
theory Log_Tail
  imports Digest Transport_Codec
begin

text \<open>
  \<open>LogTail\<close> of \<open>consensus/replicate.rs\<close>: the node's own log above the snapshot floor, with the digest
  of each prefix kept beside its entries. Its operations are modelled as written; a failed assertion
  is \<open>None\<close>. The interface \<open>tail_store\<close> is what the append path relies on, and \<open>LogTail\<close> provides it.
\<close>

section \<open>The operations\<close>

definition rebased :: "nat \<Rightarrow> u64 \<Rightarrow> log_tail" where
  "rebased base base_digest =
     \<lparr>lt_base = base, lt_base_digest = base_digest, lt_entries = [], lt_digests = [],
      lt_rewritten_in_term = 0\<rparr>"

definition tail_last_round :: "log_tail \<Rightarrow> nat" where
  "tail_last_round t = lt_base t + length (lt_entries t)"

definition tail_term_at :: "log_tail \<Rightarrow> nat \<Rightarrow> nat option" where
  "tail_term_at t r =
     (if r \<le> lt_base t \<or> tail_last_round t < r then None
      else Some (e_term (lt_entries t ! (r - lt_base t - 1))))"

text \<open>
  The digest vector is as long as the entry vector in every state the operations build
  (\<open>tail_wf\<close> below), so the index is in range.
\<close>

definition tail_digest_at :: "log_tail \<Rightarrow> nat \<Rightarrow> u64 option" where
  "tail_digest_at t r =
     (if r = lt_base t then Some (lt_base_digest t)
      else if r < lt_base t \<or> tail_last_round t < r then None
      else Some (lt_digests t ! (r - lt_base t - 1)))"

definition MAX_ENTRIES_PER_APPEND :: nat where "MAX_ENTRIES_PER_APPEND = 64"

text \<open>The loop of \<open>slice_from\<close>: \<open>taken\<close> and \<open>bytes\<close> are its running batch and size.\<close>

fun take_batch :: "entry list \<Rightarrow> nat \<Rightarrow> entry list \<Rightarrow> nat \<Rightarrow> entry list" where
  "take_batch [] max_bytes taken bytes = taken"
| "take_batch (e # es) max_bytes taken bytes =
     (if taken \<noteq> [] \<and> max_bytes < sat_add64 bytes (entry_wire_len e) then taken
      else take_batch es max_bytes (taken @ [e]) (sat_add64 bytes (entry_wire_len e)))"

definition slice_from :: "log_tail \<Rightarrow> nat \<Rightarrow> nat \<Rightarrow> nat \<Rightarrow> entry list" where
  "slice_from t r limit max_bytes =
     (if r \<le> lt_base t \<or> tail_last_round t < r then []
      else take_batch (take limit (drop (r - lt_base t - 1) (lt_entries t))) max_bytes [] 0)"

definition tail_push :: "log_tail \<Rightarrow> entry \<Rightarrow> log_tail option" where
  "tail_push t e =
     (if e_round e = tail_last_round t + 1 then
        (let prev = (if lt_digests t = [] then lt_base_digest t else last (lt_digests t)) in
         Some (t\<lparr>lt_entries := lt_entries t @ [e], lt_digests := lt_digests t @ [fold_entry prev e]\<rparr>))
      else None)"

definition compact_to :: "log_tail \<Rightarrow> nat \<Rightarrow> u64 \<Rightarrow> log_tail option" where
  "compact_to t base base_digest =
     (if lt_base t < base \<and> base \<le> tail_last_round t then
        (let k = base - lt_base t in
         Some (t\<lparr>lt_entries := drop k (lt_entries t), lt_digests := drop k (lt_digests t),
                 lt_base := base, lt_base_digest := base_digest\<rparr>))
      else None)"

definition truncate_from :: "log_tail \<Rightarrow> nat \<Rightarrow> log_tail" where
  "truncate_from t from =
     (if from \<le> lt_base t then t
      else
        (let keep = from - lt_base t - 1 in
         if keep < length (lt_entries t)
         then t\<lparr>lt_entries := take keep (lt_entries t), lt_digests := take keep (lt_digests t)\<rparr>
         else t))"

section \<open>Well-formed tails\<close>

fun digest_chain :: "u64 \<Rightarrow> entry list \<Rightarrow> u64 list" where
  "digest_chain d [] = []"
| "digest_chain d (e # es) = fold_entry d e # digest_chain (fold_entry d e) es"

definition tail_wf :: "log_tail \<Rightarrow> bool" where
  "tail_wf t \<longleftrightarrow> lt_digests t = digest_chain (lt_base_digest t) (lt_entries t) \<and>
     (\<forall>i < length (lt_entries t). e_round (lt_entries t ! i) = lt_base t + 1 + i)"

lemma length_digest_chain [simp]: "length (digest_chain d es) = length es"
  by (induction es arbitrary: d) auto

lemma digest_chain_append:
  "digest_chain d (xs @ ys) = digest_chain d xs @ digest_chain (last (d # digest_chain d xs)) ys"
  by (induction xs arbitrary: d) auto

lemma digest_chain_take: "take k (digest_chain d es) = digest_chain d (take k es)"
  by (induction es arbitrary: d k) (auto simp: take_Cons')

lemma digest_chain_drop:
  "0 < k \<Longrightarrow> k \<le> length es \<Longrightarrow>
   drop k (digest_chain d es) = digest_chain (digest_chain d es ! (k - 1)) (drop k es)"
proof (induction es arbitrary: d k)
  case (Cons e es)
  then show ?case by (cases "k = 1") (auto simp: drop_Cons' nth_Cons')
qed simp

lemma rebased_wf [simp]: "tail_wf (rebased b d)"
  by (simp add: tail_wf_def rebased_def)

lemma rebased_simps [simp]:
  "lt_base (rebased b d) = b" "lt_base_digest (rebased b d) = d" "lt_entries (rebased b d) = []"
  "tail_last_round (rebased b d) = b" "lt_rewritten_in_term (rebased b d) = 0"
  by (simp_all add: rebased_def tail_last_round_def)

lemma tail_push_wf:
  assumes "tail_wf t" "tail_push t e = Some t'"
  shows "tail_wf t'" "lt_base t' = lt_base t" "lt_entries t' = lt_entries t @ [e]"
    "lt_base_digest t' = lt_base_digest t" "tail_last_round t' = tail_last_round t + 1"
    "lt_rewritten_in_term t' = lt_rewritten_in_term t" "e_round e = tail_last_round t + 1"
proof -
  have t': "e_round e = tail_last_round t + 1"
      "t' = t\<lparr>lt_entries := lt_entries t @ [e], lt_digests := lt_digests t @
        [fold_entry (if lt_digests t = [] then lt_base_digest t else last (lt_digests t)) e]\<rparr>"
    using assms(2) by (auto simp: tail_push_def Let_def split: if_splits)
  then show "lt_base t' = lt_base t" "lt_entries t' = lt_entries t @ [e]"
      "lt_base_digest t' = lt_base_digest t" "tail_last_round t' = tail_last_round t + 1"
      "lt_rewritten_in_term t' = lt_rewritten_in_term t" "e_round e = tail_last_round t + 1"
    by (simp_all add: tail_last_round_def)
  show "tail_wf t'"
    using assms(1) t'
    by (auto simp: tail_wf_def digest_chain_append nth_append tail_last_round_def less_Suc_eq)
qed

lemma tail_push_some: "e_round e = tail_last_round t + 1 \<Longrightarrow> \<exists>t'. tail_push t e = Some t'"
  by (simp add: tail_push_def Let_def)

lemma truncate_from_wf:
  assumes "tail_wf t"
  shows "tail_wf (truncate_from t r)" "lt_base (truncate_from t r) = lt_base t"
    "lt_base_digest (truncate_from t r) = lt_base_digest t"
    "lt_base t < r \<Longrightarrow> lt_entries (truncate_from t r) = take (r - lt_base t - 1) (lt_entries t)"
    "lt_base t < r \<Longrightarrow> tail_last_round (truncate_from t r) = min (tail_last_round t) (r - 1)"
proof -
  show "tail_wf (truncate_from t r)"
    using assms by (auto simp: truncate_from_def tail_wf_def Let_def digest_chain_take)
  show "lt_base (truncate_from t r) = lt_base t"
      "lt_base_digest (truncate_from t r) = lt_base_digest t"
    by (auto simp: truncate_from_def Let_def)
  show "lt_entries (truncate_from t r) = take (r - lt_base t - 1) (lt_entries t)" if "lt_base t < r"
    using that by (auto simp: truncate_from_def Let_def)
  show "tail_last_round (truncate_from t r) = min (tail_last_round t) (r - 1)" if "lt_base t < r"
    using that by (auto simp: truncate_from_def Let_def tail_last_round_def)
qed

lemma compact_to_wf:
  assumes "tail_wf t" "tail_digest_at t b = Some d" "lt_base t < b" "b \<le> tail_last_round t"
  shows "\<exists>t'. compact_to t b d = Some t' \<and> tail_wf t' \<and> lt_base t' = b \<and>
    tail_last_round t' = tail_last_round t \<and> lt_rewritten_in_term t' = lt_rewritten_in_term t \<and>
    lt_entries t' = drop (b - lt_base t) (lt_entries t)"
proof -
  let ?k = "b - lt_base t"
  let ?t = "t\<lparr>lt_entries := drop ?k (lt_entries t), lt_digests := drop ?k (lt_digests t),
    lt_base := b, lt_base_digest := d\<rparr>"
  have k: "0 < ?k" "?k \<le> length (lt_entries t)" using assms by (auto simp: tail_last_round_def)
  have "d = digest_chain (lt_base_digest t) (lt_entries t) ! (?k - 1)"
    using assms by (simp add: tail_digest_at_def tail_wf_def split: if_splits)
  then have "drop ?k (lt_digests t) = digest_chain d (drop ?k (lt_entries t))"
    using assms(1) digest_chain_drop[OF k] by (simp add: tail_wf_def)
  moreover have "e_round (drop ?k (lt_entries t) ! i) = b + 1 + i"
    if "i < length (lt_entries t) - ?k" for i
    using assms that k by (simp add: tail_wf_def)
  ultimately have "tail_wf ?t" by (simp add: tail_wf_def)
  moreover have "compact_to t b d = Some ?t" using assms by (simp add: compact_to_def Let_def)
  moreover have "tail_last_round ?t = tail_last_round t"
    using k assms by (simp add: tail_last_round_def)
  ultimately show ?thesis by auto
qed

section \<open>The interface the append path relies on\<close>

text \<open>
  A round log: a floor, a contiguous run of entries above it, appending the next round, and cutting
  the suffix from a round on. \<open>push_all\<close> appends a list; the client lemma \<open>replace_suffix\<close> is what
  accepting an \<open>Append\<close> does to the log.
\<close>

locale tail_store =
  fixes inv :: "'t \<Rightarrow> bool" and floor :: "'t \<Rightarrow> nat" and top :: "'t \<Rightarrow> nat"
    and entry_at :: "'t \<Rightarrow> nat \<Rightarrow> entry option"
    and push :: "'t \<Rightarrow> entry \<Rightarrow> 't option" and cut :: "'t \<Rightarrow> nat \<Rightarrow> 't"
  assumes held: "inv t \<Longrightarrow> entry_at t r \<noteq> None \<longleftrightarrow> floor t < r \<and> r \<le> top t"
    and round_at: "inv t \<Longrightarrow> entry_at t r = Some e \<Longrightarrow> e_round e = r"
    and floor_le: "inv t \<Longrightarrow> floor t \<le> top t"
    and push_next: "inv t \<Longrightarrow> e_round e = top t + 1 \<Longrightarrow>
      \<exists>t'. push t e = Some t' \<and> inv t' \<and> floor t' = floor t \<and> top t' = top t + 1 \<and>
        entry_at t' = (entry_at t)(top t + 1 \<mapsto> e)"
    and cut_at: "inv t \<Longrightarrow> floor t < r \<Longrightarrow>
      inv (cut t r) \<and> floor (cut t r) = floor t \<and> top (cut t r) = min (top t) (r - 1) \<and>
      entry_at (cut t r) = (\<lambda>q. if q < r then entry_at t q else None)"
begin

fun push_all :: "'t \<Rightarrow> entry list \<Rightarrow> 't option" where
  "push_all t [] = Some t"
| "push_all t (e # es) = (case push t e of None \<Rightarrow> None | Some t' \<Rightarrow> push_all t' es)"

definition consecutive :: "nat \<Rightarrow> entry list \<Rightarrow> bool" where
  "consecutive r es \<longleftrightarrow> (\<forall>i < length es. e_round (es ! i) = r + i)"

lemma consecutive_Cons: "consecutive r (e # es) \<longleftrightarrow> e_round e = r \<and> consecutive (Suc r) es"
  unfolding consecutive_def
proof safe
  assume a: "\<forall>i<length (e # es). e_round ((e # es) ! i) = r + i"
  from a[rule_format, of 0] show "e_round e = r" by simp
  show "e_round (es ! i) = Suc r + i" if "i < length es" for i
    using a[rule_format, of "Suc i"] that by simp
next
  fix i
  assume "r = e_round e" "\<forall>i<length es. e_round (es ! i) = Suc (e_round e) + i" "i < length (e # es)"
  then show "e_round ((e # es) ! i) = e_round e + i" by (cases i) auto
qed

lemma push_all_next:
  "inv t \<Longrightarrow> consecutive (top t + 1) es \<Longrightarrow>
   \<exists>t'. push_all t es = Some t' \<and> inv t' \<and> floor t' = floor t \<and> top t' = top t + length es \<and>
     entry_at t' = (\<lambda>q. if top t < q \<and> q \<le> top t + length es then Some (es ! (q - top t - 1))
       else entry_at t q)"
proof (induction es arbitrary: t)
  case (Cons e es)
  obtain t1 where t1: "push t e = Some t1" "inv t1" "floor t1 = floor t" "top t1 = top t + 1"
      "entry_at t1 = (entry_at t)(top t + 1 \<mapsto> e)"
    using push_next[OF Cons.prems(1), of e] Cons.prems(2) by (auto simp: consecutive_Cons)
  moreover have "consecutive (top t1 + 1) es"
    using Cons.prems(2) t1(4) by (simp add: consecutive_Cons)
  ultimately obtain t2 where t2: "push_all t1 es = Some t2" "inv t2" "floor t2 = floor t"
      "top t2 = top t + length (e # es)"
      "entry_at t2 = (\<lambda>q. if top t1 < q \<and> q \<le> top t1 + length es then Some (es ! (q - top t1 - 1))
        else entry_at t1 q)"
    using Cons.IH[of t1] by auto
  have "entry_at t2 = (\<lambda>q. if top t < q \<and> q \<le> top t + length (e # es)
      then Some ((e # es) ! (q - top t - 1)) else entry_at t q)"
  proof
    fix q
    consider "q \<le> top t" | "q = Suc (top t)" | "Suc (top t) < q" by linarith
    then show "entry_at t2 q = (if top t < q \<and> q \<le> top t + length (e # es)
        then Some ((e # es) ! (q - top t - 1)) else entry_at t q)"
      by cases (auto simp: t2(5) t1(4,5) nth_Cons' Suc_diff_Suc)
  qed
  with t1 t2 show ?case by auto
qed (auto simp: fun_eq_iff)

lemma replace_suffix:
  assumes "inv t" "floor t < r" "r \<le> top t + 1" "consecutive r es"
  shows "\<exists>t'. push_all (cut t r) es = Some t' \<and> inv t' \<and> floor t' = floor t \<and>
    top t' = r - 1 + length es \<and>
    (\<forall>q < r. entry_at t' q = entry_at t q) \<and>
    (\<forall>i < length es. entry_at t' (r + i) = Some (es ! i))"
proof -
  have c: "inv (cut t r)" "floor (cut t r) = floor t" "top (cut t r) = r - 1"
      "entry_at (cut t r) = (\<lambda>q. if q < r then entry_at t q else None)"
    using cut_at[OF assms(1,2)] assms(2,3) by auto
  have r: "r - 1 + 1 = r" using assms(2) by simp
  have "consecutive (top (cut t r) + 1) es" using assms(4) c(3) r by simp
  from push_all_next[OF c(1) this]
  obtain t' where t': "push_all (cut t r) es = Some t'" "inv t'" "floor t' = floor t"
      "top t' = r - 1 + length es"
      "entry_at t' = (\<lambda>q. if r - 1 < q \<and> q \<le> r - 1 + length es then Some (es ! (q - (r - 1) - 1))
        else entry_at (cut t r) q)"
    unfolding c(2,3) by blast
  have "\<forall>q < r. entry_at t' q = entry_at t q" using t'(5) c(4) assms(2) by auto
  moreover have "\<forall>i < length es. entry_at t' (r + i) = Some (es ! i)"
    using t'(5) assms(2) by auto
  ultimately show ?thesis using t' by blast
qed

end

definition tail_entry_at :: "log_tail \<Rightarrow> nat \<Rightarrow> entry option" where
  "tail_entry_at t r =
     (if lt_base t < r \<and> r \<le> tail_last_round t then Some (lt_entries t ! (r - lt_base t - 1)) else None)"

lemma tail_term_entry: "tail_term_at t r = map_option e_term (tail_entry_at t r)"
  by (auto simp: tail_term_at_def tail_entry_at_def)

interpretation own: tail_store tail_wf lt_base tail_last_round tail_entry_at tail_push truncate_from
proof
  fix t :: log_tail and r
  assume wf: "tail_wf t"
  show "tail_entry_at t r \<noteq> None \<longleftrightarrow> lt_base t < r \<and> r \<le> tail_last_round t"
    by (auto simp: tail_entry_at_def)
  show "lt_base t \<le> tail_last_round t" by (simp add: tail_last_round_def)
  show "e_round e = r" if "tail_entry_at t r = Some e" for e
    using wf that by (auto simp: tail_entry_at_def tail_wf_def tail_last_round_def split: if_splits)
  show "\<exists>t'. tail_push t e = Some t' \<and> tail_wf t' \<and> lt_base t' = lt_base t \<and>
      tail_last_round t' = tail_last_round t + 1 \<and>
      tail_entry_at t' = (tail_entry_at t)(tail_last_round t + 1 \<mapsto> e)"
    if e: "e_round e = tail_last_round t + 1" for e
  proof -
    obtain t' where t': "tail_push t e = Some t'" using tail_push_some[OF e] by blast
    note p = tail_push_wf[OF wf t']
    have "tail_entry_at t' = (tail_entry_at t)(tail_last_round t + 1 \<mapsto> e)"
      using p by (auto simp: tail_entry_at_def fun_eq_iff nth_append tail_last_round_def)
    with t' p show ?thesis by blast
  qed
  show "tail_wf (truncate_from t r) \<and> lt_base (truncate_from t r) = lt_base t \<and>
      tail_last_round (truncate_from t r) = min (tail_last_round t) (r - 1) \<and>
      tail_entry_at (truncate_from t r) = (\<lambda>q. if q < r then tail_entry_at t q else None)"
    if r: "lt_base t < r"
  proof -
    note c = truncate_from_wf[OF wf, of r]
    have "tail_entry_at (truncate_from t r) = (\<lambda>q. if q < r then tail_entry_at t q else None)"
      using c r by (auto simp: tail_entry_at_def fun_eq_iff)
    with c r show ?thesis by blast
  qed
qed

section \<open>Batches\<close>

definition wire_sum :: "entry list \<Rightarrow> nat" where
  "wire_sum es = sum_list (map entry_wire_len es)"

lemma take_batch_prefix: "\<exists>k. take_batch es mb taken bytes = taken @ take k es \<and>
  (taken = [] \<longrightarrow> es \<noteq> [] \<longrightarrow> 0 < k)"
proof (induction es mb taken bytes rule: take_batch.induct)
  case (2 e es mb taken bytes)
  show ?case
  proof (cases "taken \<noteq> [] \<and> mb < sat_add64 bytes (entry_wire_len e)")
    case True
    then show ?thesis by (auto intro: exI[of _ 0])
  next
    case False
    with 2 obtain k where "take_batch es mb (taken @ [e]) (sat_add64 bytes (entry_wire_len e)) =
        (taken @ [e]) @ take k es" by blast
    with False show ?thesis by (intro exI[of _ "Suc k"]) (auto simp del: append_Cons)
  qed
qed simp

lemma take_batch_sum:
  "mb < u64_max \<Longrightarrow> \<forall>e \<in> set es. entry_wire_len e \<le> mb \<Longrightarrow> wire_sum taken = bytes \<Longrightarrow> bytes \<le> mb \<Longrightarrow>
   wire_sum (take_batch es mb taken bytes) \<le> mb"
proof (induction es mb taken bytes rule: take_batch.induct)
  case (2 e es mb taken bytes)
  show ?case
  proof (cases "taken \<noteq> [] \<and> mb < sat_add64 bytes (entry_wire_len e)")
    case False
    have "bytes + entry_wire_len e \<le> mb"
      using False 2(2,3,4) by (cases "taken = []") (auto simp: sat_add64_def wire_sum_def min_def split: if_splits)
    moreover from this have "sat_add64 bytes (entry_wire_len e) = bytes + entry_wire_len e"
      using 2(2) by (simp add: sat_add64_def)
    ultimately show ?thesis using 2 False by (simp add: wire_sum_def)
  qed (use 2 in simp)
qed simp

lemma wire_len_bytes:
  "entry_wire_len e \<le> append_entries_budget \<Longrightarrow> entry_enc e \<and> length (entry_bytes e) = entry_wire_len e"
  using admitted_wire_len[of e] encode_entry_Inr[of "[]" e]
  by (auto simp: admit_entry_iff entry_wire_len_def budget_eq usize_max_def split: sum.splits)

lemma wire_sum_bytes:
  "\<forall>e \<in> set es. entry_wire_len e \<le> append_entries_budget \<Longrightarrow>
   list_all entry_enc es \<and> length (entries_bytes es) = wire_sum es"
  by (induction es) (auto simp: wire_sum_def entries_bytes_def wire_len_bytes)

section \<open>Properties\<close>



lemma push_digest:
  "length (lt_digests t) = length (lt_entries t) \<Longrightarrow>
   map_option (\<lambda>u. tail_digest_at u (e_round e)) (tail_push t e) =
     (if e_round e = tail_last_round t + 1
      then Some (Some (fold_entry (if lt_digests t = [] then lt_base_digest t else last (lt_digests t)) e))
      else None)"
  by (auto simp: tail_push_def Let_def tail_digest_at_def tail_last_round_def nth_append)

text \<open>
  (C27) Compaction is invisible above the floor: checkpointing the tail through a round it holds, with
  that round's own digest, succeeds, makes that round the floor, keeps the tail well formed, and changes
  no term and no digest the node reports at any round it still holds, no batch \<open>slice_from\<close> takes for a
  peer from such a round, whatever its limits, nor the digest the next entry will get.
\<close>

theorem compaction_transparent:
  assumes "tail_wf t" "lt_base t < b" "b \<le> tail_last_round t" "tail_digest_at t b = Some d"
  shows "\<exists>t'. compact_to t b d = Some t' \<and> tail_wf t' \<and> tail_last_round t' = tail_last_round t \<and>
    lt_base t' = b \<and>
    (\<forall>r > b. tail_term_at t' r = tail_term_at t r) \<and>
    (\<forall>r \<ge> b. tail_digest_at t' r = tail_digest_at t r) \<and>
    (\<forall>r > b. \<forall>limit max_bytes. slice_from t' r limit max_bytes = slice_from t r limit max_bytes) \<and>
    (\<forall>e. map_option (\<lambda>u. tail_digest_at u (e_round e)) (tail_push t' e) =
         map_option (\<lambda>u. tail_digest_at u (e_round e)) (tail_push t e))"
proof -
  obtain t' where t': "compact_to t b d = Some t'" "tail_wf t'" "lt_base t' = b"
      "tail_last_round t' = tail_last_round t" "lt_entries t' = drop (b - lt_base t) (lt_entries t)"
    using compact_to_wf[OF assms(1,4,2,3)] by blast
  from t'(1) have dg: "lt_digests t' = drop (b - lt_base t) (lt_digests t)" "lt_base_digest t' = d"
    by (auto simp: compact_to_def Let_def split: if_splits)
  have len: "length (lt_digests t) = length (lt_entries t)" using assms(1) by (simp add: tail_wf_def)
  have nth: "b - lt_base t + (r - b - 1) = r - lt_base t - 1" if "b < r" for r
    using that assms(2) by simp
  have terms: "tail_term_at t' r = tail_term_at t r" if "b < r" for r
    using that t' assms(2,3) nth[OF that] by (simp add: tail_term_at_def tail_last_round_def)
  have slices: "slice_from t' r limit max_bytes = slice_from t r limit max_bytes" if "b < r" for r limit max_bytes
  proof -
    have "r \<le> lt_base t \<longleftrightarrow> r \<le> lt_base t'" using that t'(3) assms(2) by simp
    moreover have "drop (r - lt_base t' - 1) (lt_entries t') = drop (r - lt_base t - 1) (lt_entries t)"
      unfolding t'(3,5) drop_drop using nth[OF that] by (simp add: add.commute)
    ultimately show ?thesis unfolding slice_from_def t'(4) by simp
  qed
  have digests: "tail_digest_at t' r = tail_digest_at t r" if "b \<le> r" for r
  proof (cases "r = b")
    case True
    then show ?thesis using assms(4) t'(3) dg(2) by (simp add: tail_digest_at_def)
  next
    case False
    with that have "b < r" by simp
    then show ?thesis
      using t' dg(1) assms(2,3) nth len
      by (auto simp: tail_digest_at_def tail_last_round_def)
  qed
  have "(if lt_digests t' = [] then lt_base_digest t' else last (lt_digests t')) =
      (if lt_digests t = [] then lt_base_digest t else last (lt_digests t))"
    (is "?prev' = ?prev")
  proof (cases "b = tail_last_round t")
    case True
    then have "lt_digests t' = []" "lt_digests t \<noteq> []"
      using dg len assms(2) by (auto simp: tail_last_round_def)
    moreover have "lt_digests t ! (b - lt_base t - 1) = last (lt_digests t)"
      using True len calculation(2) by (simp add: last_conv_nth tail_last_round_def)
    ultimately show ?thesis using assms(2-4) dg by (simp add: tail_digest_at_def)
  next
    case False
    then show ?thesis using dg len assms(2,3) by (auto simp: tail_last_round_def last_drop)
  qed
  then have "map_option (\<lambda>u. tail_digest_at u (e_round e)) (tail_push t' e) =
      map_option (\<lambda>u. tail_digest_at u (e_round e)) (tail_push t e)" for e
    using push_digest[of t e] push_digest[of t' e] len t'(2,4) by (simp add: tail_wf_def)
  with t' terms digests slices show ?thesis by blast
qed

theorem compaction_transparent_witness:
  "let t = the (tail_push (rebased 5 9) \<lparr>e_term = 1, e_round = 6, e_command = NoOp\<rparr>);
       d = the (tail_digest_at t 6)
   in \<exists>t'. compact_to t 6 d = Some t' \<and> tail_wf t' \<and> tail_last_round t' = 6 \<and>
        tail_digest_at t' 6 = tail_digest_at t 6"
proof -
  let ?e = "\<lparr>e_term = 1, e_round = 6, e_command = NoOp\<rparr>"
  obtain t where t: "tail_push (rebased 5 9) ?e = Some t"
    using tail_push_some[of ?e "rebased 5 9"] by auto
  note p = tail_push_wf[OF rebased_wf t]
  have "tail_digest_at t 6 = Some (the (tail_digest_at t 6))"
    using p by (simp add: tail_digest_at_def)
  then show ?thesis
    using compaction_transparent[of t 6 "the (tail_digest_at t 6)"] p t by auto
qed

end
