(* ===== verification/Snapshot_Payload.thy ===== *)
theory Snapshot_Payload
  imports Digest Signing
begin

text \<open>
  \<open>consensus/snapshot.rs\<close>, the payload half: the fixed-width header a snapshot begins with, its
  refusals, the envelope's checks, building a snapshot from its four sections, and cutting it into
  chunks. Capturing and installing the pages themselves belongs to the storage engine.
\<close>

section \<open>Limits\<close>

definition SNAPSHOT_CHUNK_BYTES :: nat where "SNAPSHOT_CHUNK_BYTES = 1048576"
definition HEADER_BYTES :: nat where
  "HEADER_BYTES = 8 + 4 + 8 + 8 + 8 + 4 + 4 + 8 + 8 + 4 + 4 + 4 + 8 + 4 + 8 + 8"
definition MAX_SNAPSHOT_BYTES :: nat where
  "MAX_SNAPSHOT_BYTES = HEADER_BYTES + u32_max + u32_max + u32_max * PAGE_SIZE"
definition MAX_SIDECAR_BYTES :: nat where "MAX_SIDECAR_BYTES = 32 * MAX_ENTRY_BYTES"

definition MAGIC :: "byte list" where "MAGIC = bytes_of ''FDBSNAP'' @ [1]"
definition FORMAT_VERSION :: nat where "FORMAT_VERSION = 1"

section \<open>The envelope and the header\<close>

definition validate :: "snapshot_meta \<Rightarrow> snapshot_error + unit" where
  "validate m =
     (if sm_last_round m = 0 then Inl (Refused ''a snapshot at round 0 covers nothing'')
      else if config_is_empty (sm_config m) then Inl (Refused ''the snapshot carries an empty voter set'')
      else if sm_total_bytes m < HEADER_BYTES then Inl (Refused ''the snapshot is smaller than its header'')
      else if MAX_SNAPSHOT_BYTES < sm_total_bytes m then Inl (Refused ''the snapshot is above the ceiling'')
      else Inr ())"

definition payload_digest :: "byte list \<Rightarrow> u64" where
  "payload_digest bs = fnv64_update FNV_OFFSET bs"

text \<open>The bytes \<open>0..92\<close> of an encoded header; the last eight are their digest.\<close>

definition header_fields :: "payload_header \<Rightarrow> byte list" where
  "header_fields h =
     MAGIC @ be_bytes 4 FORMAT_VERSION @ be_bytes 8 (unat (ph_base_digest h)) @
     be_bytes 8 (ph_last_round h) @ be_bytes 8 (ph_last_term h) @ be_bytes 4 (ph_root_page_id h) @
     be_bytes 4 (ph_catalog_page_id h) @ be_bytes 8 (ph_start_lsn h) @ be_bytes 8 (ph_end_lsn h) @
     be_bytes 4 (ph_page_count h) @ be_bytes 4 (ph_arena_len h) @ be_bytes 4 (ph_branches_len h) @
     be_bytes 8 (ph_image_len h) @ be_bytes 4 (ph_wal_len h) @ be_bytes 8 (unat (ph_body_digest h))"

definition header_encode :: "payload_header \<Rightarrow> byte list" where
  "header_encode h = header_fields h @ be_bytes 8 (unat (payload_digest (header_fields h)))"

definition check_internally_consistent :: "payload_header \<Rightarrow> snapshot_error + unit" where
  "check_internally_consistent h =
     (if ph_image_len h \<noteq> ph_page_count h * PAGE_SIZE
      then Inl (Refused ''the image length is not the page count's'')
      else if ph_last_round h = 0 then Inl (Refused ''the header names round 0'')
      else if MAX_SIDECAR_BYTES < ph_arena_len h then Inl (Refused ''the arena image is too long'')
      else if MAX_SIDECAR_BYTES < ph_branches_len h
      then Inl (Refused ''the branch catalog image is too long'')
      else if MAX_SIDECAR_BYTES < ph_wal_len h then Inl (Refused ''the redo window is too long'')
      else if ph_page_count h = 0 then Inl (Refused ''the header claims 0 pages'')
      else Inr ())"

definition fld :: "byte list \<Rightarrow> nat \<Rightarrow> nat \<Rightarrow> nat" where
  "fld bs a e = from_be (take (e - a) (drop a bs))"

definition header_decode :: "byte list \<Rightarrow> snapshot_error + payload_header" where
  "header_decode bs =
     (if length bs < HEADER_BYTES then Inl (Refused ''too few bytes for a header'')
      else if take 8 bs \<noteq> MAGIC then Inl (Refused ''not a snapshot payload'')
      else if fld bs 8 12 \<noteq> FORMAT_VERSION then Inl (Refused ''unknown payload format version'')
      else if (word_of_nat (fld bs 92 100) :: u64) \<noteq> payload_digest (take 92 bs)
      then Inl (Refused ''the header does not match its own digest'')
      else
        (let h = \<lparr>ph_base_digest = word_of_nat (fld bs 12 20), ph_last_round = fld bs 20 28,
                  ph_last_term = fld bs 28 36, ph_root_page_id = fld bs 36 40,
                  ph_catalog_page_id = fld bs 40 44, ph_start_lsn = fld bs 44 52,
                  ph_end_lsn = fld bs 52 60, ph_page_count = fld bs 60 64,
                  ph_arena_len = fld bs 64 68, ph_branches_len = fld bs 68 72,
                  ph_image_len = fld bs 72 80, ph_wal_len = fld bs 80 84,
                  ph_body_digest = word_of_nat (fld bs 84 92)\<rparr>
         in rbind (check_internally_consistent h) (\<lambda>_. Inr h)))"

definition header_total_bytes :: "payload_header \<Rightarrow> nat" where
  "header_total_bytes h =
     HEADER_BYTES + ph_arena_len h + ph_branches_len h + ph_wal_len h + ph_image_len h"

datatype completion_fault = LengthFault | DigestFault

definition completion_verdict :: "nat \<Rightarrow> nat \<Rightarrow> u64 \<Rightarrow> u64 \<Rightarrow> completion_fault + unit" where
  "completion_verdict received whole body_digest claimed =
     (if received \<noteq> whole then Inl LengthFault
      else if body_digest \<noteq> claimed then Inl DigestFault
      else Inr ())"

section \<open>Building and cutting\<close>

record snapshot_point =
  sp_last_round :: nat
  sp_last_term :: nat
  sp_config :: config
  sp_base_digest :: u64

record backup_label =
  bl_start_lsn :: nat
  bl_end_lsn :: nat
  bl_page_count :: nat

definition fits_u32 :: "nat \<Rightarrow> string \<Rightarrow> snapshot_error + nat" where
  "fits_u32 len what =
     (if MAX_SIDECAR_BYTES < len then Inl (Refused what)
      else if len \<le> u32_max then Inr len else Inl (Refused what))"

definition snapshot_build ::
  "snapshot_point \<Rightarrow> nat \<Rightarrow> nat \<Rightarrow> backup_label \<Rightarrow> byte list \<Rightarrow> byte list \<Rightarrow> byte list \<Rightarrow> byte list \<Rightarrow>
   snapshot_error + snapshot" where
  "snapshot_build at root_page_id catalog_page_id label arena branches redo img =
     rbind (fits_u32 (length arena) ''the arena image'') (\<lambda>arena_len.
     rbind (fits_u32 (length branches) ''the branch catalog image'') (\<lambda>branches_len.
     rbind (fits_u32 (length redo) ''the redo window'') (\<lambda>wal_len.
     let body = arena @ branches @ redo @ img;
         header = \<lparr>ph_base_digest = sp_base_digest at, ph_last_round = sp_last_round at,
                   ph_last_term = sp_last_term at, ph_root_page_id = root_page_id,
                   ph_catalog_page_id = catalog_page_id, ph_start_lsn = bl_start_lsn label,
                   ph_end_lsn = bl_end_lsn label, ph_page_count = bl_page_count label,
                   ph_arena_len = arena_len, ph_branches_len = branches_len,
                   ph_image_len = length img, ph_wal_len = wal_len,
                   ph_body_digest = payload_digest body\<rparr>
     in rbind (check_internally_consistent header) (\<lambda>_.
        let bytes = header_encode header @ body;
            meta = \<lparr>sm_last_round = sp_last_round at, sm_last_term = sp_last_term at,
                    sm_config = sp_config at, sm_total_bytes = length bytes\<rparr>
        in rbind (validate meta) (\<lambda>_.
           Inr \<lparr>sn_meta = meta, sn_header = header, sn_bytes = bytes\<rparr>)))))"

definition snapshot_chunk :: "snapshot \<Rightarrow> nat \<Rightarrow> byte list \<times> bool" where
  "snapshot_chunk s offset =
     (let from = min offset (length (sn_bytes s));
          upto = min (from + SNAPSHOT_CHUNK_BYTES) (length (sn_bytes s))
      in (take (upto - from) (drop from (sn_bytes s)), upto = length (sn_bytes s)))"

section \<open>The header is read back, and damage is seen\<close>

definition header_fits :: "payload_header \<Rightarrow> bool" where
  "header_fits h \<longleftrightarrow> ph_last_round h < 2 ^ 64 \<and> ph_last_term h < 2 ^ 64 \<and> ph_root_page_id h < 2 ^ 32 \<and>
     ph_catalog_page_id h < 2 ^ 32 \<and> ph_start_lsn h < 2 ^ 64 \<and> ph_end_lsn h < 2 ^ 64 \<and>
     ph_page_count h < 2 ^ 32 \<and> ph_arena_len h < 2 ^ 32 \<and> ph_branches_len h < 2 ^ 32 \<and>
     ph_image_len h < 2 ^ 64 \<and> ph_wal_len h < 2 ^ 32"

lemma HEADER_BYTES_eq: "HEADER_BYTES = 100"
  by (simp add: HEADER_BYTES_def)

lemma length_MAGIC [simp]: "length MAGIC = 8"
  by (simp add: MAGIC_def bytes_of_def)

lemma length_header_fields [simp]: "length (header_fields h) = 92"
  by (simp add: header_fields_def)

lemma length_header_encode [simp]: "length (header_encode h) = 100"
  by (simp add: header_encode_def)

lemma u64_word: "unat (d :: u64) < 18446744073709551616" "word_of_nat (unat d) = d"
  using unsigned_less[of d] by simp_all

lemma fld_append:
  "length xs = a \<Longrightarrow> length ys = e - a \<Longrightarrow> fld (xs @ ys @ zs) a e = from_be ys"
  by (simp add: fld_def)

lemma fld_mid:
  "bs = xs @ be_bytes w v @ zs \<Longrightarrow> length xs = a \<Longrightarrow> e = a + w \<Longrightarrow> v < 256 ^ w \<Longrightarrow> fld bs a e = v"
  by (simp add: fld_def from_be_be_bytes)

lemma header_fld:
  assumes "header_fits h"
  shows "fld (header_encode h @ rest) 8 12 = FORMAT_VERSION"
    "fld (header_encode h @ rest) 12 20 = unat (ph_base_digest h)"
    "fld (header_encode h @ rest) 20 28 = ph_last_round h"
    "fld (header_encode h @ rest) 28 36 = ph_last_term h"
    "fld (header_encode h @ rest) 36 40 = ph_root_page_id h"
    "fld (header_encode h @ rest) 40 44 = ph_catalog_page_id h"
    "fld (header_encode h @ rest) 44 52 = ph_start_lsn h"
    "fld (header_encode h @ rest) 52 60 = ph_end_lsn h"
    "fld (header_encode h @ rest) 60 64 = ph_page_count h"
    "fld (header_encode h @ rest) 64 68 = ph_arena_len h"
    "fld (header_encode h @ rest) 68 72 = ph_branches_len h"
    "fld (header_encode h @ rest) 72 80 = ph_image_len h"
    "fld (header_encode h @ rest) 80 84 = ph_wal_len h"
    "fld (header_encode h @ rest) 84 92 = unat (ph_body_digest h)"
    "fld (header_encode h @ rest) 92 100 = unat (payload_digest (header_fields h))"
  using assms u64_word(1)
  by (simp_all add: fld_def header_encode_def header_fields_def header_fits_def FORMAT_VERSION_def
      from_be_be_bytes)

lemma header_decode_encode:
  assumes "header_fits h" "check_internally_consistent h = Inr ()"
  shows "header_decode (header_encode h @ rest) = Inr h"
proof -
  have t: "take 92 (header_encode h @ rest) = header_fields h"
    "take 8 (header_encode h @ rest) = MAGIC"
    by (simp_all add: header_encode_def header_fields_def)
  have e: "\<lparr>ph_base_digest = ph_base_digest h, ph_last_round = ph_last_round h,
      ph_last_term = ph_last_term h, ph_root_page_id = ph_root_page_id h,
      ph_catalog_page_id = ph_catalog_page_id h, ph_start_lsn = ph_start_lsn h,
      ph_end_lsn = ph_end_lsn h, ph_page_count = ph_page_count h, ph_arena_len = ph_arena_len h,
      ph_branches_len = ph_branches_len h, ph_image_len = ph_image_len h,
      ph_wal_len = ph_wal_len h, ph_body_digest = ph_body_digest h\<rparr> = h"
    by (cases h) simp
  show ?thesis
    unfolding header_decode_def header_fld[OF assms(1)] t Let_def u64_word(2) e
    using assms(2) by (simp add: HEADER_BYTES_eq)
qed

text \<open>Conversely, a header that decodes was spelled the one way \<open>header_encode\<close> spells it.\<close>

fun slices :: "nat \<Rightarrow> nat list \<Rightarrow> byte list \<Rightarrow> byte list list" where
  "slices a [] bs = []"
| "slices a (n # ns) bs = take n (drop a bs) # slices (a + n) ns bs"

lemma slices_concat: "take (sum_list ns) (drop a bs) = concat (slices a ns bs)"
proof (induction ns arbitrary: a)
  case (Cons n ns)
  have "drop (a + n) bs = drop n (drop a bs)" by (simp add: add.commute)
  with Cons[of "a + n"] show ?case by (simp add: take_add)
qed simp

lemma be_bytes_fld: "e \<le> length bs \<Longrightarrow> e - a = w \<Longrightarrow> a \<le> e \<Longrightarrow> be_bytes w (fld bs a e) = take w (drop a bs)"
  using be_bytes_from_be[of "take w (drop a bs)"] by (simp add: fld_def)

lemma fld_lt: "fld bs a e < 256 ^ (e - a)"
proof -
  have "from_be (take (e - a) (drop a bs)) < 256 ^ length (take (e - a) (drop a bs))"
    by (rule from_be_lt)
  also have "\<dots> \<le> 256 ^ (e - a)" by (intro power_increasing) auto
  finally show ?thesis by (simp add: fld_def)
qed

lemma fld_u64: "unat (word_of_nat (fld bs a (a + 8)) :: u64) = fld bs a (a + 8)"
  using fld_lt[of bs a "a + 8"] by (simp add: unat_of_nat)

lemma header_decode_canonical:
  assumes "header_decode bs = Inr h"
  shows "header_fits h \<and> check_internally_consistent h = Inr () \<and> take 100 bs = header_encode h"
proof -
  from assms have l: "100 \<le> length bs" and m: "take 8 bs = MAGIC" and v: "fld bs 8 12 = 1"
    and d: "(word_of_nat (fld bs 92 100) :: u64) = payload_digest (take 92 bs)"
    and c: "check_internally_consistent h = Inr ()"
    and h: "h = \<lparr>ph_base_digest = word_of_nat (fld bs 12 20), ph_last_round = fld bs 20 28,
                  ph_last_term = fld bs 28 36, ph_root_page_id = fld bs 36 40,
                  ph_catalog_page_id = fld bs 40 44, ph_start_lsn = fld bs 44 52,
                  ph_end_lsn = fld bs 52 60, ph_page_count = fld bs 60 64,
                  ph_arena_len = fld bs 64 68, ph_branches_len = fld bs 68 72,
                  ph_image_len = fld bs 72 80, ph_wal_len = fld bs 80 84,
                  ph_body_digest = word_of_nat (fld bs 84 92)\<rparr>"
    by (auto simp: header_decode_def HEADER_BYTES_eq FORMAT_VERSION_def Let_def rbind_Inr not_less
        split: if_splits)
  have fits: "header_fits h"
    using fld_lt[of bs 20 28] fld_lt[of bs 28 36] fld_lt[of bs 36 40] fld_lt[of bs 40 44]
      fld_lt[of bs 44 52] fld_lt[of bs 52 60] fld_lt[of bs 60 64] fld_lt[of bs 64 68]
      fld_lt[of bs 68 72] fld_lt[of bs 72 80] fld_lt[of bs 80 84]
    by (simp add: header_fits_def h)
  have u: "unat (word_of_nat (fld bs 12 20) :: u64) = fld bs 12 20"
      "unat (word_of_nat (fld bs 84 92) :: u64) = fld bs 84 92"
      "unat (word_of_nat (fld bs 92 100) :: u64) = fld bs 92 100"
    using fld_u64[of bs 12] fld_u64[of bs 84] fld_u64[of bs 92] by simp_all
  have "take 92 bs = concat (slices 0 [8, 4, 8, 8, 8, 4, 4, 8, 8, 4, 4, 4, 8, 4, 8] bs)"
    using slices_concat[of "[8, 4, 8, 8, 8, 4, 4, 8, 8, 4, 4, 4, 8, 4, 8]" 0 bs] by simp
  also have "\<dots> = header_fields h"
    using l m u be_bytes_fld[of 12 bs 8 4] v
    by (simp add: header_fields_def h be_bytes_fld FORMAT_VERSION_def)
  finally have f: "take 92 bs = header_fields h" .
  have "take 100 bs = take 92 bs @ take 8 (drop 92 bs)"
    using take_add[of 92 8 bs] by simp
  moreover have "take 8 (drop 92 bs) = be_bytes 8 (unat (payload_digest (header_fields h)))"
    using d[symmetric] u(3) l be_bytes_fld[of 100 bs 92 8] unfolding f by simp
  ultimately have "take 100 bs = header_encode h" unfolding f header_encode_def by simp
  with fits c show ?thesis by blast
qed

lemma header_decode_iff:
  "header_decode bs = Inr h \<longleftrightarrow>
     header_fits h \<and> check_internally_consistent h = Inr () \<and> take 100 bs = header_encode h"
proof
  assume *: "header_fits h \<and> check_internally_consistent h = Inr () \<and> take 100 bs = header_encode h"
  then have "bs = header_encode h @ drop 100 bs" by (metis append_take_drop_id)
  then show "header_decode bs = Inr h" using * header_decode_encode by metis
qed (rule header_decode_canonical)

text \<open>A chunk is the next stretch of the payload, and the last one says so.\<close>

lemma snapshot_chunk_at:
  assumes "offset \<le> length (sn_bytes s)" "snapshot_chunk s offset = (v, fin)"
  shows "v = take SNAPSHOT_CHUNK_BYTES (drop offset (sn_bytes s))"
    "fin \<longleftrightarrow> offset + length v = length (sn_bytes s)"
    "offset < length (sn_bytes s) \<Longrightarrow> v \<noteq> []"
  using assms by (auto simp: snapshot_chunk_def Let_def SNAPSHOT_CHUNK_BYTES_def min_def split: if_splits)

lemma snapshot_build_facts:
  assumes "snapshot_build at root cat label arena branches redo img = Inr s"
    and "sp_last_round at < 2 ^ 64" "sp_last_term at < 2 ^ 64" "root < 2 ^ 32" "cat < 2 ^ 32"
    and "bl_start_lsn label < 2 ^ 64" "bl_end_lsn label < 2 ^ 64" "bl_page_count label < 2 ^ 32"
  shows "validate (sn_meta s) = Inr () \<and> header_decode (sn_bytes s) = Inr (sn_header s) \<and>
    sm_total_bytes (sn_meta s) = length (sn_bytes s) \<and>
    header_total_bytes (sn_header s) = length (sn_bytes s) \<and>
    ph_last_round (sn_header s) = sm_last_round (sn_meta s) \<and>
    ph_last_term (sn_header s) = sm_last_term (sn_meta s) \<and>
    payload_digest (drop HEADER_BYTES (sn_bytes s)) = ph_body_digest (sn_header s)"
proof -
  from assms(1) have c: "check_internally_consistent (sn_header s) = Inr ()"
    and v: "validate (sn_meta s) = Inr ()"
    and b: "sn_bytes s = header_encode (sn_header s) @ arena @ branches @ redo @ img"
    and m: "sn_meta s = \<lparr>sm_last_round = sp_last_round at, sm_last_term = sp_last_term at,
        sm_config = sp_config at, sm_total_bytes = length (sn_bytes s)\<rparr>"
    and h: "sn_header s = \<lparr>ph_base_digest = sp_base_digest at, ph_last_round = sp_last_round at,
        ph_last_term = sp_last_term at, ph_root_page_id = root, ph_catalog_page_id = cat,
        ph_start_lsn = bl_start_lsn label, ph_end_lsn = bl_end_lsn label,
        ph_page_count = bl_page_count label, ph_arena_len = length arena,
        ph_branches_len = length branches, ph_image_len = length img, ph_wal_len = length redo,
        ph_body_digest = payload_digest (arena @ branches @ redo @ img)\<rparr>"
    and l: "length arena \<le> u32_max" "length branches \<le> u32_max" "length redo \<le> u32_max"
    by (auto simp: snapshot_build_def rbind_Inr Let_def fits_u32_def split: if_splits)
  have "ph_image_len (sn_header s) = bl_page_count label * 4096"
    using c by (simp add: h check_internally_consistent_def PAGE_SIZE_def split: if_splits)
  then have "header_fits (sn_header s)"
    using assms(2-) l by (simp add: header_fits_def h)
  then have "header_decode (sn_bytes s) = Inr (sn_header s)"
    unfolding b using c by (intro header_decode_encode)
  with v m b h show ?thesis
    by (simp add: header_total_bytes_def HEADER_BYTES_eq)
qed

section \<open>Properties\<close>

text \<open>
  (C35) Building a snapshot yields one its receiver will accept: whenever \<open>build\<close> succeeds, the envelope
  validates, the payload begins with a header that decodes to the header built, the envelope's total,
  the header's own arithmetic and the payload's length agree, and the header's body digest is the
  digest of everything after it.
\<close>

theorem built_snapshot_acceptable:
  assumes "snapshot_build at root cat label arena branches redo img = Inr s"
    and "sp_last_round at < 2 ^ 64" "sp_last_term at < 2 ^ 64" "root < 2 ^ 32" "cat < 2 ^ 32"
    and "bl_start_lsn label < 2 ^ 64" "bl_end_lsn label < 2 ^ 64" "bl_page_count label < 2 ^ 32"
  shows "validate (sn_meta s) = Inr () \<and> header_decode (sn_bytes s) = Inr (sn_header s) \<and>
    sm_total_bytes (sn_meta s) = length (sn_bytes s) \<and>
    header_total_bytes (sn_header s) = length (sn_bytes s) \<and>
    ph_last_round (sn_header s) = sm_last_round (sn_meta s) \<and>
    ph_last_term (sn_header s) = sm_last_term (sn_meta s) \<and>
    payload_digest (drop HEADER_BYTES (sn_bytes s)) = ph_body_digest (sn_header s)"
  by (rule snapshot_build_facts[OF assms])

theorem built_snapshot_acceptable_witness:
  "let at = \<lparr>sp_last_round = 7, sp_last_term = 2, sp_config = config_new [1, 2, 3] 1 1, sp_base_digest = 5\<rparr>;
       label = \<lparr>bl_start_lsn = 10, bl_end_lsn = 20, bl_page_count = 1\<rparr>;
       s = projr (snapshot_build at 3 4 label [1] [2, 3] [] (replicate 4096 0))
   in validate (sn_meta s) = Inr () \<and> header_decode (sn_bytes s) = Inr (sn_header s)"
proof -
  let ?at = "\<lparr>sp_last_round = 7, sp_last_term = 2, sp_config = config_new [1, 2, 3] 1 1, sp_base_digest = 5\<rparr>"
  let ?label = "\<lparr>bl_start_lsn = 10, bl_end_lsn = 20, bl_page_count = 1\<rparr>"
  have "\<exists>s. snapshot_build ?at 3 4 ?label [1] [2, 3] [] (replicate 4096 0) = Inr s"
    by (simp add: snapshot_build_def fits_u32_def check_internally_consistent_def validate_def Let_def
        MAX_SIDECAR_BYTES_def MAX_ENTRY_BYTES_def MAX_FRAME_BYTES_def PAGE_SIZE_def HEADER_BYTES_eq
        MAX_SNAPSHOT_BYTES_def config_is_empty_def config_new_def)
  then obtain s where s: "snapshot_build ?at 3 4 ?label [1] [2, 3] [] (replicate 4096 0) = Inr s" ..
  show ?thesis using built_snapshot_acceptable[OF s] s by (simp add: Let_def)
qed

text \<open>
  (C34) The snapshot header is canonical and damage to it is seen: a payload decodes to a header
  exactly when its first 100 bytes are that header's one encoding and the header is consistent; and
  an encoded header with any one of its 100 bytes changed is refused, whatever follows it.
\<close>

theorem header_canonical_and_damage:
  "(header_decode bs = Inr h \<longleftrightarrow>
      header_fits h \<and> check_internally_consistent h = Inr () \<and> take 100 bs = header_encode h) \<and>
   (i < 100 \<longrightarrow> b \<noteq> header_encode h ! i \<longrightarrow>
      \<not> isOk (header_decode ((header_encode h)[i := b] @ rest)))"
proof -
  have "\<not> isOk (header_decode ((header_encode h)[i := b] @ rest))"
    if i: "i < 100" and b: "b \<noteq> header_encode h ! i"
  proof (rule notI)
    let ?bs = "(header_encode h)[i := b] @ rest"
    assume "isOk (header_decode ?bs)"
    then obtain g where "header_decode ?bs = Inr g" by (auto simp: isOk_def split: sum.splits)
    then have g: "(header_encode h)[i := b] = header_encode g"
      using header_decode_canonical[of ?bs g] by simp
    show False
    proof (cases "i < 92")
      case True
      have e: "header_encode h ! i = header_fields h ! i"
        using True by (simp add: header_encode_def nth_append)
      have f: "(header_fields h)[i := b] = header_fields g"
        and d: "be_bytes 8 (unat (payload_digest (header_fields h))) =
          be_bytes 8 (unat (payload_digest (header_fields g)))"
        using g True by (simp_all add: header_encode_def list_update_append)
      have "payload_digest (header_fields h) = payload_digest ((header_fields h)[i := b])"
        using d be_bytes_inject[of "unat (payload_digest (header_fields h))" 8
            "unat (payload_digest (header_fields g))"] u64_word(1)
        unfolding f by (simp add: word_unat_eq_iff)
      moreover have "header_fields h = take i (header_fields h) @ header_fields h ! i # drop (Suc i) (header_fields h)"
        "(header_fields h)[i := b] = take i (header_fields h) @ b # drop (Suc i) (header_fields h)"
        using True by (simp_all add: id_take_nth_drop upd_conv_take_nth_drop)
      ultimately have "header_fields h ! i = b"
        by (metis payload_digest_def fnv64_update_append fnv64_byte_inject)
      with b e show False by simp
    next
      case False
      then have "header_fields h = header_fields g"
        using g by (simp add: header_encode_def list_update_append)
      then have "(header_encode h)[i := b] = header_encode h" using g by (simp add: header_encode_def)
      then have "b = header_encode h ! i" using i by (metis length_header_encode nth_list_update_eq)
      with b show False by simp
    qed
  qed
  with header_decode_iff show ?thesis by blast
qed

theorem header_canonical_and_damage_witness:
  "let h = \<lparr>ph_base_digest = 1, ph_last_round = 2, ph_last_term = 3, ph_root_page_id = 4,
            ph_catalog_page_id = 5, ph_start_lsn = 6, ph_end_lsn = 7, ph_page_count = 1,
            ph_arena_len = 8, ph_branches_len = 9, ph_image_len = 4096, ph_wal_len = 0,
            ph_body_digest = 11\<rparr>
   in header_decode (header_encode h) = Inr h \<and>
      \<not> isOk (header_decode ((header_encode h)[0 := 0]))"
proof -
  let ?h = "\<lparr>ph_base_digest = 1, ph_last_round = 2, ph_last_term = 3, ph_root_page_id = 4,
            ph_catalog_page_id = 5, ph_start_lsn = 6, ph_end_lsn = 7, ph_page_count = 1,
            ph_arena_len = 8, ph_branches_len = 9, ph_image_len = 4096, ph_wal_len = 0,
            ph_body_digest = 11\<rparr>"
  have "0 \<noteq> header_encode ?h ! 0"
    by (simp add: header_encode_def header_fields_def MAGIC_def bytes_of_def nth_append of_char_def)
  moreover have "header_fits ?h" "check_internally_consistent ?h = Inr ()"
    by (simp_all add: header_fits_def check_internally_consistent_def PAGE_SIZE_def
        MAX_SIDECAR_BYTES_def MAX_ENTRY_BYTES_def MAX_FRAME_BYTES_def)
  ultimately show ?thesis
    using header_canonical_and_damage[of "header_encode ?h" ?h 0 0 "[]"] by (simp add: Let_def)
qed

end
