(* ===== verification/Consensus_Core.thy ===== *)
theory Consensus_Core
  imports Log_Tail Snapshot_Payload
begin

text \<open>
  The parts of the state machine that everything else is built from: the deterministic generator and
  the constructors of \<open>consensus/mod.rs\<close>, stepping down, and the accessors of \<open>consensus/replicate.rs\<close>
  that guard the node's own log, answer for its terms and digests, and move the apply watermark.

  The node's log lives in the progress entry keyed by its own id, as in the source; \<open>ensure_log\<close>'s
  assertions are panics, so \<open>log_ok\<close> is the invariant that keeps them from firing.
\<close>

unbundle bit_operations_syntax

section \<open>The generator and the constructors\<close>

definition rng_new :: "u64 \<Rightarrow> u64" where
  "rng_new seed = (if seed = 0 then 0x9E3779B97F4A7C15 else seed)"

definition next_u64 :: "u64 \<Rightarrow> u64 \<times> u64" where
  "next_u64 st =
     (let x = st; x = x XOR drop_bit 12 x; x = x XOR push_bit 25 x; x = x XOR drop_bit 27 x
      in (x * 0x2545F4914F6CDD1D, x))"

definition next_u32 :: "u64 \<Rightarrow> nat \<times> u64" where
  "next_u32 st = (case next_u64 st of (v, st') \<Rightarrow> (unat (drop_bit 32 v), st'))"

definition consensus_new :: "node_id \<Rightarrow> config \<Rightarrow> u64 \<Rightarrow> consensus" where
  "consensus_new me c seed =
     (case next_u32 (rng_new seed) of (v, st) \<Rightarrow>
      \<lparr>self_id = me, role = Follower, hard = \<lparr>hs_term = 0, hs_voted_for = None\<rparr>, leader = None,
       cfg = c, campaign = None, acked = Map.empty, behind = False, unjoined = False,
       since_heard = 0, since_quorum = 0, election_timeout = 10 + v mod 10, election_base = 10,
       lease = 10 - 2, heartbeat = 3, since_heartbeat = 0, votes = {}, progress = Map.empty,
       commit = 0, applied = 0, durable = 0, last_term = 0, last_round = 0, snapshot_round = 0,
       snapshot_term = 0, rng = st\<rparr>)"

definition joining :: "node_id \<Rightarrow> u64 \<Rightarrow> consensus" where
  "joining me seed = (consensus_new me config_empty seed)\<lparr>behind := True, unjoined := True\<rparr>"

definition may_campaign :: "consensus \<Rightarrow> bool" where
  "may_campaign c \<longleftrightarrow> \<not> behind c \<and> \<not> unjoined c \<and> contains (cfg c) (self_id c)"

definition become_follower :: "nat \<Rightarrow> node_id option \<Rightarrow> consensus \<Rightarrow> step" where
  "become_follower t l c =
     (let changed = (role c \<noteq> Follower \<or> cur_term c \<noteq> t \<or> leader c \<noteq> l);
          moved = (cur_term c \<noteq> t);
          c1 = (if moved then c\<lparr>hard := \<lparr>hs_term = t, hs_voted_for = None\<rparr>\<rparr> else c)
      in emit (c1\<lparr>role := Follower, leader := l, campaign := None, votes := {}, since_heard := 0\<rparr>)
           ((if moved then [PersistHardState t None] else []) @
            (if changed then [RoleChanged Follower t l] else [])))"

section \<open>The node's own log\<close>

definition own_tail :: "consensus \<Rightarrow> log_tail option" where
  "own_tail c = (case progress c (self_id c) of None \<Rightarrow> None | Some p \<Rightarrow> p_own_log p)"

definition set_own_tail :: "log_tail \<Rightarrow> consensus \<Rightarrow> consensus" where
  "set_own_tail t c = upd_progress (self_id c) (\<lambda>p. p\<lparr>p_own_log := Some t\<rparr>) c"

definition ensure_log :: "consensus \<Rightarrow> step" where
  "ensure_log c =
     (case p_own_log (progress_entry c (self_id c)) of
        None \<Rightarrow>
          if last_round c \<le> snapshot_round c
          then done_with (set_own_tail (rebased (snapshot_round c) 0) c) else None
      | Some t \<Rightarrow>
          if lt_base t = snapshot_round c \<and> tail_last_round t = last_round c
          then done_with c else None)"

text \<open>\<open>tail_mut\<close>: the tail to change, inserted if it is not there.\<close>

definition tail_mut :: "consensus \<Rightarrow> log_tail" where
  "tail_mut c = (case own_tail c of None \<Rightarrow> rebased (snapshot_round c) 0 | Some t \<Rightarrow> t)"

definition push_own :: "entry \<Rightarrow> consensus \<Rightarrow> step" where
  "push_own e c =
     (case tail_push (tail_mut c) e of None \<Rightarrow> None | Some t \<Rightarrow> done_with (set_own_tail t c))"

definition install_snapshot_tail :: "nat \<Rightarrow> u64 \<Rightarrow> consensus \<Rightarrow> consensus" where
  "install_snapshot_tail base base_digest c = set_own_tail (rebased base base_digest) c"

definition compact_tail :: "nat \<Rightarrow> u64 \<Rightarrow> consensus \<Rightarrow> step" where
  "compact_tail base base_digest c =
     (case compact_to (tail_mut c) base base_digest of
        None \<Rightarrow> None | Some t \<Rightarrow> done_with (set_own_tail t c))"

definition agreed :: "consensus \<Rightarrow> nat" where
  "agreed c = (case progress c (self_id c) of None \<Rightarrow> 0 | Some p \<Rightarrow> p_matched p)"

definition set_agreed :: "nat \<Rightarrow> consensus \<Rightarrow> consensus" where
  "set_agreed r c = upd_progress (self_id c) (\<lambda>p. p\<lparr>p_matched := r\<rparr>) c"

definition term_at :: "consensus \<Rightarrow> nat \<Rightarrow> nat option" where
  "term_at c r =
     (if r = snapshot_round c then Some (snapshot_term c)
      else case own_tail c of None \<Rightarrow> None | Some t \<Rightarrow> tail_term_at t r)"

definition digest_at :: "consensus \<Rightarrow> nat \<Rightarrow> u64 option" where
  "digest_at c r = (case own_tail c of None \<Rightarrow> None | Some t \<Rightarrow> tail_digest_at t r)"

definition entries_from :: "consensus \<Rightarrow> nat \<Rightarrow> entry list" where
  "entries_from c r =
     (case own_tail c of None \<Rightarrow> []
      | Some t \<Rightarrow> slice_from t r MAX_ENTRIES_PER_APPEND append_entries_budget)"

text \<open>The backing loop of \<open>first_round_of_term_run\<close>, from \<open>lo\<close> down to the floor.\<close>

fun back_up :: "consensus \<Rightarrow> nat \<Rightarrow> nat \<Rightarrow> nat" where
  "back_up c t 0 = 0"
| "back_up c t (Suc lo) =
     (if snapshot_round c + 1 < Suc lo \<and> term_at c lo = Some t then back_up c t lo else Suc lo)"

definition first_round_of_term_run :: "consensus \<Rightarrow> nat \<Rightarrow> nat" where
  "first_round_of_term_run c r = (case term_at c r of None \<Rightarrow> r | Some t \<Rightarrow> back_up c t r)"

definition append_own_entry :: "command \<Rightarrow> consensus \<Rightarrow> step" where
  "append_own_entry cmd c =
     andthen (ensure_log c) (\<lambda>c.
     let e = \<lparr>e_term = cur_term c, e_round = last_round c + 1, e_command = cmd\<rparr> in
     andthen (push_own e c) (\<lambda>c.
       emit (c\<lparr>last_round := e_round e, last_term := e_term e\<rparr>) [Persist [e]]))"

text \<open>\<open>restore\<close>, with the loop over the entries read back from disk.\<close>

definition restore_entry :: "nat \<Rightarrow> entry \<Rightarrow> consensus \<Rightarrow> step" where
  "restore_entry floor e c =
     (if e_round e \<le> floor then done_with c
      else andthen (push_own e c) (\<lambda>c.
        done_with (c\<lparr>last_term := e_term e, last_round := e_round e\<rparr>)))"

definition restore :: "hard_state \<Rightarrow> nat \<Rightarrow> nat \<Rightarrow> u64 \<Rightarrow> entry list \<Rightarrow> consensus \<Rightarrow> step" where
  "restore hs floor floor_term base_digest es c =
     (if role c = Follower \<and> last_round c = 0 \<and> snapshot_round c = 0 then
        (let c = c\<lparr>hard := hs, snapshot_round := floor, snapshot_term := floor_term,
                   last_round := floor, last_term := floor_term\<rparr>;
             c = set_own_tail (rebased floor base_digest) c
         in andthen (for_each es (restore_entry floor) c) (\<lambda>c.
              done_with (c\<lparr>durable := last_round c, commit := floor, applied := floor\<rparr>)))
      else None)"

text \<open>\<open>snapshot_incoming\<close>: the transfer being received, kept in this node's own progress entry.\<close>

definition snapshot_incoming :: "consensus \<Rightarrow> recv_cursor option" where
  "snapshot_incoming c = (case progress c (self_id c) of None \<Rightarrow> None | Some p \<Rightarrow> p_receiving p)"

section \<open>Answers and watermarks\<close>

definition refusal :: "consensus \<Rightarrow> node_id \<Rightarrow> nat \<Rightarrow> action" where
  "refusal c dest hint = send_to c dest (AppendResp False 0 hint 0)"

definition acknowledgement :: "consensus \<Rightarrow> node_id \<Rightarrow> action" where
  "acknowledgement c dest =
     (let matched = min (durable c) (agreed c) in
      send_to c dest (AppendResp True matched 0 (case digest_at c matched of None \<Rightarrow> 0 | Some d \<Rightarrow> d)))"

text \<open>What each voter is counted as holding.\<close>

definition held_by :: "consensus \<Rightarrow> node_id \<Rightarrow> nat" where
  "held_by c n =
     (if n = self_id c then durable c
      else case progress c n of
             Some p \<Rightarrow> if p_diverged p = None then p_matched p else 0
           | None \<Rightarrow> 0)"

definition quorum_matched :: "consensus \<Rightarrow> nat" where
  "quorum_matched c =
     (let held = map (held_by c) (members (cfg c)) in
      if held = [] then 0 else rev (sort held) ! (quorum (cfg c) - 1))"

definition advance_apply :: "consensus \<Rightarrow> step" where
  "advance_apply c =
     (let through = min (commit c) (durable c) in
      if applied c < through then emit (c\<lparr>applied := through\<rparr>) [Apply through] else done_with c)"

section \<open>Frame rules\<close>

lemma upd_progress_simps [simp]:
  "self_id (upd_progress n f c) = self_id c" "role (upd_progress n f c) = role c"
  "hard (upd_progress n f c) = hard c" "leader (upd_progress n f c) = leader c"
  "cfg (upd_progress n f c) = cfg c" "campaign (upd_progress n f c) = campaign c"
  "acked (upd_progress n f c) = acked c" "behind (upd_progress n f c) = behind c"
  "unjoined (upd_progress n f c) = unjoined c" "since_heard (upd_progress n f c) = since_heard c"
  "since_quorum (upd_progress n f c) = since_quorum c"
  "election_timeout (upd_progress n f c) = election_timeout c"
  "election_base (upd_progress n f c) = election_base c" "lease (upd_progress n f c) = lease c"
  "heartbeat (upd_progress n f c) = heartbeat c"
  "since_heartbeat (upd_progress n f c) = since_heartbeat c" "votes (upd_progress n f c) = votes c"
  "commit (upd_progress n f c) = commit c" "applied (upd_progress n f c) = applied c"
  "durable (upd_progress n f c) = durable c" "last_term (upd_progress n f c) = last_term c"
  "last_round (upd_progress n f c) = last_round c"
  "snapshot_round (upd_progress n f c) = snapshot_round c"
  "snapshot_term (upd_progress n f c) = snapshot_term c" "rng (upd_progress n f c) = rng c"
  "progress (upd_progress n f c) = (progress c)(n \<mapsto> f (progress_entry c n))"
  by (simp_all add: upd_progress_def)

lemma own_tail_frame [simp]:
  "own_tail (c\<lparr>role := x1\<rparr>) = own_tail c" "own_tail (c\<lparr>hard := x2\<rparr>) = own_tail c"
  "own_tail (c\<lparr>leader := x3\<rparr>) = own_tail c" "own_tail (c\<lparr>cfg := x4\<rparr>) = own_tail c"
  "own_tail (c\<lparr>campaign := x5\<rparr>) = own_tail c" "own_tail (c\<lparr>acked := x6\<rparr>) = own_tail c"
  "own_tail (c\<lparr>behind := x7\<rparr>) = own_tail c" "own_tail (c\<lparr>unjoined := x8\<rparr>) = own_tail c"
  "own_tail (c\<lparr>since_heard := x9\<rparr>) = own_tail c" "own_tail (c\<lparr>since_quorum := x10\<rparr>) = own_tail c"
  "own_tail (c\<lparr>election_timeout := x11\<rparr>) = own_tail c" "own_tail (c\<lparr>since_heartbeat := x12\<rparr>) = own_tail c"
  "own_tail (c\<lparr>votes := x13\<rparr>) = own_tail c" "own_tail (c\<lparr>commit := x14\<rparr>) = own_tail c"
  "own_tail (c\<lparr>applied := x15\<rparr>) = own_tail c" "own_tail (c\<lparr>durable := x16\<rparr>) = own_tail c"
  "own_tail (c\<lparr>last_term := x17\<rparr>) = own_tail c" "own_tail (c\<lparr>last_round := x18\<rparr>) = own_tail c"
  "own_tail (c\<lparr>snapshot_round := x19\<rparr>) = own_tail c" "own_tail (c\<lparr>snapshot_term := x20\<rparr>) = own_tail c"
  "own_tail (c\<lparr>rng := x21\<rparr>) = own_tail c"
  by (simp_all add: own_tail_def)

lemma agreed_frame [simp]:
  "agreed (c\<lparr>role := x1\<rparr>) = agreed c" "agreed (c\<lparr>hard := x2\<rparr>) = agreed c"
  "agreed (c\<lparr>leader := x3\<rparr>) = agreed c" "agreed (c\<lparr>cfg := x4\<rparr>) = agreed c"
  "agreed (c\<lparr>campaign := x5\<rparr>) = agreed c" "agreed (c\<lparr>acked := x6\<rparr>) = agreed c"
  "agreed (c\<lparr>behind := x7\<rparr>) = agreed c" "agreed (c\<lparr>unjoined := x8\<rparr>) = agreed c"
  "agreed (c\<lparr>since_heard := x9\<rparr>) = agreed c" "agreed (c\<lparr>since_quorum := x10\<rparr>) = agreed c"
  "agreed (c\<lparr>election_timeout := x11\<rparr>) = agreed c" "agreed (c\<lparr>since_heartbeat := x12\<rparr>) = agreed c"
  "agreed (c\<lparr>votes := x13\<rparr>) = agreed c" "agreed (c\<lparr>commit := x14\<rparr>) = agreed c"
  "agreed (c\<lparr>applied := x15\<rparr>) = agreed c" "agreed (c\<lparr>durable := x16\<rparr>) = agreed c"
  "agreed (c\<lparr>last_term := x17\<rparr>) = agreed c" "agreed (c\<lparr>last_round := x18\<rparr>) = agreed c"
  "agreed (c\<lparr>snapshot_round := x19\<rparr>) = agreed c" "agreed (c\<lparr>snapshot_term := x20\<rparr>) = agreed c"
  "agreed (c\<lparr>rng := x21\<rparr>) = agreed c"
  by (simp_all add: agreed_def)

lemma progress_entry_frame [simp]:
  "progress_entry (c\<lparr>role := x1\<rparr>) n = progress_entry c n" "progress_entry (c\<lparr>hard := x2\<rparr>) n = progress_entry c n"
  "progress_entry (c\<lparr>leader := x3\<rparr>) n = progress_entry c n" "progress_entry (c\<lparr>cfg := x4\<rparr>) n = progress_entry c n"
  "progress_entry (c\<lparr>campaign := x5\<rparr>) n = progress_entry c n" "progress_entry (c\<lparr>acked := x6\<rparr>) n = progress_entry c n"
  "progress_entry (c\<lparr>behind := x7\<rparr>) n = progress_entry c n" "progress_entry (c\<lparr>unjoined := x8\<rparr>) n = progress_entry c n"
  "progress_entry (c\<lparr>since_heard := x9\<rparr>) n = progress_entry c n" "progress_entry (c\<lparr>since_quorum := x10\<rparr>) n = progress_entry c n"
  "progress_entry (c\<lparr>election_timeout := x11\<rparr>) n = progress_entry c n" "progress_entry (c\<lparr>since_heartbeat := x12\<rparr>) n = progress_entry c n"
  "progress_entry (c\<lparr>votes := x13\<rparr>) n = progress_entry c n" "progress_entry (c\<lparr>commit := x14\<rparr>) n = progress_entry c n"
  "progress_entry (c\<lparr>applied := x15\<rparr>) n = progress_entry c n" "progress_entry (c\<lparr>durable := x16\<rparr>) n = progress_entry c n"
  "progress_entry (c\<lparr>last_term := x17\<rparr>) n = progress_entry c n" "progress_entry (c\<lparr>last_round := x18\<rparr>) n = progress_entry c n"
  "progress_entry (c\<lparr>snapshot_round := x19\<rparr>) n = progress_entry c n" "progress_entry (c\<lparr>snapshot_term := x20\<rparr>) n = progress_entry c n"
  "progress_entry (c\<lparr>rng := x21\<rparr>) n = progress_entry c n"
  by (simp_all add: progress_entry_def)

lemma tail_mut_frame [simp]:
  "tail_mut (c\<lparr>role := x1\<rparr>) = tail_mut c" "tail_mut (c\<lparr>hard := x2\<rparr>) = tail_mut c"
  "tail_mut (c\<lparr>leader := x3\<rparr>) = tail_mut c" "tail_mut (c\<lparr>cfg := x4\<rparr>) = tail_mut c"
  "tail_mut (c\<lparr>campaign := x5\<rparr>) = tail_mut c" "tail_mut (c\<lparr>acked := x6\<rparr>) = tail_mut c"
  "tail_mut (c\<lparr>behind := x7\<rparr>) = tail_mut c" "tail_mut (c\<lparr>unjoined := x8\<rparr>) = tail_mut c"
  "tail_mut (c\<lparr>since_heard := x9\<rparr>) = tail_mut c" "tail_mut (c\<lparr>since_quorum := x10\<rparr>) = tail_mut c"
  "tail_mut (c\<lparr>election_timeout := x11\<rparr>) = tail_mut c" "tail_mut (c\<lparr>since_heartbeat := x12\<rparr>) = tail_mut c"
  "tail_mut (c\<lparr>votes := x13\<rparr>) = tail_mut c" "tail_mut (c\<lparr>commit := x14\<rparr>) = tail_mut c"
  "tail_mut (c\<lparr>applied := x15\<rparr>) = tail_mut c" "tail_mut (c\<lparr>durable := x16\<rparr>) = tail_mut c"
  "tail_mut (c\<lparr>last_term := x17\<rparr>) = tail_mut c" "tail_mut (c\<lparr>last_round := x18\<rparr>) = tail_mut c"
  "tail_mut (c\<lparr>snapshot_term := x19\<rparr>) = tail_mut c" "tail_mut (c\<lparr>rng := x20\<rparr>) = tail_mut c"
  by (simp_all add: tail_mut_def split: option.splits)

lemma incoming_frame [simp]:
  "snapshot_incoming (c\<lparr>role := x1\<rparr>) = snapshot_incoming c"
  "snapshot_incoming (c\<lparr>hard := x2\<rparr>) = snapshot_incoming c"
  "snapshot_incoming (c\<lparr>leader := x3\<rparr>) = snapshot_incoming c"
  "snapshot_incoming (c\<lparr>cfg := x4\<rparr>) = snapshot_incoming c"
  "snapshot_incoming (c\<lparr>campaign := x5\<rparr>) = snapshot_incoming c"
  "snapshot_incoming (c\<lparr>acked := x6\<rparr>) = snapshot_incoming c"
  "snapshot_incoming (c\<lparr>behind := x7\<rparr>) = snapshot_incoming c"
  "snapshot_incoming (c\<lparr>unjoined := x8\<rparr>) = snapshot_incoming c"
  "snapshot_incoming (c\<lparr>since_heard := x9\<rparr>) = snapshot_incoming c"
  "snapshot_incoming (c\<lparr>since_quorum := x10\<rparr>) = snapshot_incoming c"
  "snapshot_incoming (c\<lparr>election_timeout := x11\<rparr>) = snapshot_incoming c"
  "snapshot_incoming (c\<lparr>since_heartbeat := x12\<rparr>) = snapshot_incoming c"
  "snapshot_incoming (c\<lparr>votes := x13\<rparr>) = snapshot_incoming c"
  "snapshot_incoming (c\<lparr>commit := x14\<rparr>) = snapshot_incoming c"
  "snapshot_incoming (c\<lparr>applied := x15\<rparr>) = snapshot_incoming c"
  "snapshot_incoming (c\<lparr>durable := x16\<rparr>) = snapshot_incoming c"
  "snapshot_incoming (c\<lparr>last_term := x17\<rparr>) = snapshot_incoming c"
  "snapshot_incoming (c\<lparr>last_round := x18\<rparr>) = snapshot_incoming c"
  "snapshot_incoming (c\<lparr>snapshot_round := x19\<rparr>) = snapshot_incoming c"
  "snapshot_incoming (c\<lparr>snapshot_term := x20\<rparr>) = snapshot_incoming c"
  "snapshot_incoming (c\<lparr>rng := x21\<rparr>) = snapshot_incoming c"
  by (simp_all add: snapshot_incoming_def)

lemma progress_entry_upd [simp]:
  "progress_entry (upd_progress n f c) m =
     (if m = n then f (progress_entry c n) else progress_entry c m)"
  by (simp add: progress_entry_def)

lemma own_tail_upd [simp]:
  "own_tail (upd_progress n f c) =
     (if n = self_id c then p_own_log (f (progress_entry c n)) else own_tail c)"
  by (simp add: own_tail_def)

lemma agreed_upd [simp]:
  "agreed (upd_progress n f c) =
     (if n = self_id c then p_matched (f (progress_entry c n)) else agreed c)"
  by (simp add: agreed_def)

lemma incoming_upd [simp]:
  "snapshot_incoming (upd_progress n f c) =
     (if n = self_id c then p_receiving (f (progress_entry c n)) else snapshot_incoming c)"
  by (simp add: snapshot_incoming_def)

lemma own_entry [simp]:
  "p_own_log (progress_entry c (self_id c)) = own_tail c"
  "p_matched (progress_entry c (self_id c)) = agreed c"
  "p_receiving (progress_entry c (self_id c)) = snapshot_incoming c"
  by (auto simp: own_tail_def agreed_def snapshot_incoming_def progress_entry_def
      progress_default_def split: option.splits)

lemma set_own_tail_simps [simp]:
  "self_id (set_own_tail t c) = self_id c" "role (set_own_tail t c) = role c"
  "hard (set_own_tail t c) = hard c" "leader (set_own_tail t c) = leader c"
  "cfg (set_own_tail t c) = cfg c" "campaign (set_own_tail t c) = campaign c"
  "acked (set_own_tail t c) = acked c" "behind (set_own_tail t c) = behind c"
  "unjoined (set_own_tail t c) = unjoined c" "since_heard (set_own_tail t c) = since_heard c"
  "since_quorum (set_own_tail t c) = since_quorum c" "election_timeout (set_own_tail t c) = election_timeout c"
  "election_base (set_own_tail t c) = election_base c" "lease (set_own_tail t c) = lease c"
  "heartbeat (set_own_tail t c) = heartbeat c" "since_heartbeat (set_own_tail t c) = since_heartbeat c"
  "votes (set_own_tail t c) = votes c" "commit (set_own_tail t c) = commit c"
  "applied (set_own_tail t c) = applied c" "durable (set_own_tail t c) = durable c"
  "last_term (set_own_tail t c) = last_term c" "last_round (set_own_tail t c) = last_round c"
  "snapshot_round (set_own_tail t c) = snapshot_round c" "snapshot_term (set_own_tail t c) = snapshot_term c"
  "rng (set_own_tail t c) = rng c"
  "own_tail (set_own_tail t c) = Some t" "agreed (set_own_tail t c) = agreed c"
  "snapshot_incoming (set_own_tail t c) = snapshot_incoming c"
  by (simp_all add: set_own_tail_def)

lemma set_agreed_simps [simp]:
  "self_id (set_agreed r c) = self_id c" "role (set_agreed r c) = role c"
  "hard (set_agreed r c) = hard c" "leader (set_agreed r c) = leader c"
  "cfg (set_agreed r c) = cfg c" "campaign (set_agreed r c) = campaign c"
  "acked (set_agreed r c) = acked c" "behind (set_agreed r c) = behind c"
  "unjoined (set_agreed r c) = unjoined c" "since_heard (set_agreed r c) = since_heard c"
  "since_quorum (set_agreed r c) = since_quorum c" "election_timeout (set_agreed r c) = election_timeout c"
  "election_base (set_agreed r c) = election_base c" "lease (set_agreed r c) = lease c"
  "heartbeat (set_agreed r c) = heartbeat c" "since_heartbeat (set_agreed r c) = since_heartbeat c"
  "votes (set_agreed r c) = votes c" "commit (set_agreed r c) = commit c"
  "applied (set_agreed r c) = applied c" "durable (set_agreed r c) = durable c"
  "last_term (set_agreed r c) = last_term c" "last_round (set_agreed r c) = last_round c"
  "snapshot_round (set_agreed r c) = snapshot_round c" "snapshot_term (set_agreed r c) = snapshot_term c"
  "rng (set_agreed r c) = rng c"
  "own_tail (set_agreed r c) = own_tail c" "agreed (set_agreed r c) = r"
  "snapshot_incoming (set_agreed r c) = snapshot_incoming c"
  by (simp_all add: set_agreed_def)

lemma set_own_tail_same: "own_tail c = Some t \<Longrightarrow> set_own_tail t c = c"
  by (auto simp: own_tail_def set_own_tail_def upd_progress_def progress_entry_def fun_upd_idem
      split: option.splits)

section \<open>The invariant\<close>

text \<open>
  The log the node holds is the log its scalars describe; and the watermarks are ordered: the floor
  is applied, what is applied is committed, and what is durable or agreed is in the log. A leader is
  receiving no snapshot. The lease is shorter than any election timeout.
\<close>

definition log_ok :: "consensus \<Rightarrow> bool" where
  "log_ok c \<longleftrightarrow>
     (case own_tail c of
        None \<Rightarrow> last_round c = snapshot_round c
      | Some t \<Rightarrow> tail_wf t \<and> lt_base t = snapshot_round c \<and> tail_last_round t = last_round c) \<and>
     term_at c (last_round c) = Some (last_term c)"

definition timing_ok :: "consensus \<Rightarrow> bool" where
  "timing_ok c \<longleftrightarrow>
     lease c < election_base c \<and> election_base c \<le> election_timeout c \<and>
     election_timeout c < 2 * election_base c"

definition node_ok :: "consensus \<Rightarrow> bool" where
  "node_ok c \<longleftrightarrow>
     log_ok c \<and> snapshot_round c \<le> applied c \<and> applied c \<le> commit c \<and>
     durable c \<le> last_round c \<and> agreed c \<le> last_round c \<and> cur_term c \<le> u64_max \<and>
     (role c = Leader \<longrightarrow> snapshot_incoming c = None) \<and> timing_ok c"

lemma timing_ok_frame [simp]:
  "timing_ok (c\<lparr>role := x1\<rparr>) = timing_ok c" "timing_ok (c\<lparr>hard := x2\<rparr>) = timing_ok c"
  "timing_ok (c\<lparr>leader := x3\<rparr>) = timing_ok c" "timing_ok (c\<lparr>cfg := x4\<rparr>) = timing_ok c"
  "timing_ok (c\<lparr>campaign := x5\<rparr>) = timing_ok c" "timing_ok (c\<lparr>acked := x6\<rparr>) = timing_ok c"
  "timing_ok (c\<lparr>behind := x7\<rparr>) = timing_ok c" "timing_ok (c\<lparr>unjoined := x8\<rparr>) = timing_ok c"
  "timing_ok (c\<lparr>since_heard := x9\<rparr>) = timing_ok c" "timing_ok (c\<lparr>since_quorum := x10\<rparr>) = timing_ok c"
  "timing_ok (c\<lparr>since_heartbeat := x11\<rparr>) = timing_ok c" "timing_ok (c\<lparr>votes := x12\<rparr>) = timing_ok c"
  "timing_ok (c\<lparr>progress := x13\<rparr>) = timing_ok c" "timing_ok (c\<lparr>commit := x14\<rparr>) = timing_ok c"
  "timing_ok (c\<lparr>applied := x15\<rparr>) = timing_ok c" "timing_ok (c\<lparr>durable := x16\<rparr>) = timing_ok c"
  "timing_ok (c\<lparr>last_term := x17\<rparr>) = timing_ok c" "timing_ok (c\<lparr>last_round := x18\<rparr>) = timing_ok c"
  "timing_ok (c\<lparr>snapshot_round := x19\<rparr>) = timing_ok c" "timing_ok (c\<lparr>snapshot_term := x20\<rparr>) = timing_ok c"
  "timing_ok (c\<lparr>rng := x21\<rparr>) = timing_ok c"
  "timing_ok (upd_progress n f c) = timing_ok c" "timing_ok (set_own_tail t c) = timing_ok c"
  "timing_ok (set_agreed r c) = timing_ok c"
  by (simp_all add: timing_ok_def)

lemma log_ok_tail:
  "log_ok c \<Longrightarrow> tail_wf (tail_mut c) \<and> lt_base (tail_mut c) = snapshot_round c \<and>
     tail_last_round (tail_mut c) = last_round c"
  by (auto simp: log_ok_def tail_mut_def split: option.splits)

lemma ensure_log_eq: "log_ok c \<Longrightarrow> ensure_log c = done_with (set_own_tail (tail_mut c) c)"
  by (auto simp: log_ok_def ensure_log_def tail_mut_def set_own_tail_same split: option.splits)

lemma term_at_tail_mut:
  "term_at c r =
     (if r = snapshot_round c then Some (snapshot_term c) else tail_term_at (tail_mut c) r)"
  by (auto simp: term_at_def tail_mut_def tail_term_at_def split: option.splits)

lemma term_at_known:
  assumes "log_ok c"
  shows "term_at c r \<noteq> None \<longleftrightarrow> snapshot_round c \<le> r \<and> r \<le> last_round c"
  using log_ok_tail[OF assms]
  by (auto simp: term_at_tail_mut tail_term_at_def tail_last_round_def split: if_splits)

lemma floor_le_last: "log_ok c \<Longrightarrow> snapshot_round c \<le> last_round c"
  using log_ok_tail[of c] by (auto simp: tail_last_round_def)

text \<open>A state whose log fields agree has the same log.\<close>

lemma log_ok_cong:
  assumes "tail_mut c' = tail_mut c" "last_round c' = last_round c"
    "snapshot_round c' = snapshot_round c" "snapshot_term c' = snapshot_term c"
    "last_term c' = last_term c" "own_tail c = None \<or> own_tail c' \<noteq> None"
  shows "log_ok c \<Longrightarrow> log_ok c'"
  using assms
  by (auto simp: log_ok_def term_at_tail_mut tail_mut_def split: option.splits)

lemma log_ok_other [simp]:
  "log_ok (c\<lparr>cfg := cf\<rparr>) = log_ok c" "log_ok (c\<lparr>behind := b\<rparr>) = log_ok c"
  "log_ok (c\<lparr>acked := a\<rparr>) = log_ok c" "log_ok (c\<lparr>unjoined := b\<rparr>) = log_ok c"
  "log_ok (c\<lparr>role := r\<rparr>) = log_ok c" "log_ok (c\<lparr>hard := h\<rparr>) = log_ok c"
  "log_ok (c\<lparr>leader := l\<rparr>) = log_ok c" "log_ok (c\<lparr>campaign := k\<rparr>) = log_ok c"
  "log_ok (c\<lparr>votes := v\<rparr>) = log_ok c" "log_ok (c\<lparr>since_heard := i\<rparr>) = log_ok c"
  "log_ok (c\<lparr>since_quorum := i\<rparr>) = log_ok c" "log_ok (c\<lparr>since_heartbeat := i\<rparr>) = log_ok c"
  "log_ok (c\<lparr>election_timeout := i\<rparr>) = log_ok c" "log_ok (c\<lparr>rng := g\<rparr>) = log_ok c"
  "log_ok (c\<lparr>commit := r'\<rparr>) = log_ok c" "log_ok (c\<lparr>applied := r'\<rparr>) = log_ok c"
  "log_ok (c\<lparr>durable := r'\<rparr>) = log_ok c"
  by (simp_all add: log_ok_def term_at_def split: option.splits)

lemma log_ok_upd [simp]:
  "(n = self_id c \<Longrightarrow> p_own_log (f (progress_entry c n)) = own_tail c) \<Longrightarrow>
   log_ok (upd_progress n f c) = log_ok c"
  by (cases "n = self_id c") (simp_all add: log_ok_def term_at_def split: option.splits)

lemma tail_mut_upd_same [simp]:
  "(n = self_id c \<Longrightarrow> p_own_log (f (progress_entry c n)) = own_tail c) \<Longrightarrow>
   tail_mut (upd_progress n f c) = tail_mut c"
  by (cases "n = self_id c") (simp_all add: tail_mut_def split: option.splits)

lemma ensured_log_ok: "log_ok c \<Longrightarrow> log_ok (set_own_tail (tail_mut c) c)"
  by (rule log_ok_cong[of _ c]) (simp_all add: set_own_tail_def tail_mut_def)

lemma ensured_node_ok: "node_ok c \<Longrightarrow> node_ok (set_own_tail (tail_mut c) c)"
  using ensured_log_ok[of c] by (auto simp: node_ok_def set_own_tail_def)

end
