(* ===== verification/Node_Laws.thy ===== *)
theory Node_Laws
  imports Consensus_Core
begin

text \<open>
  The two laws every handler of the state machine is held to, and the helpers shown to obey them.

  \<^item> \<open>evolves\<close>: the node keeps its id; its watermarks never move back; the hard state in memory is
    the one the emitted \<open>PersistHardState\<close> actions leave on disk; and the emitted actions are
    \<open>legal\<close> -- each stored hard state is of a later term, or adds a vote where there was none, and a
    granted vote is sent only once exactly that vote is stored.
  \<^item> \<open>calm\<close>: outside the election handlers a node changes its standing only by stepping down, and
    while it leads its log only grows, by entries of its own term.
\<close>

section \<open>What the actions do to the disk\<close>

fun stored :: "hard_state \<Rightarrow> action list \<Rightarrow> hard_state" where
  "stored h [] = h"
| "stored h (PersistHardState t v # as) = stored \<lparr>hs_term = t, hs_voted_for = v\<rparr> as"
| "stored h (_ # as) = stored h as"

definition vote_move :: "hard_state \<Rightarrow> nat \<Rightarrow> node_id option \<Rightarrow> bool" where
  "vote_move h t v \<longleftrightarrow>
     hs_term h < t \<or> hs_term h = t \<and> (hs_voted_for h = None \<or> hs_voted_for h = v)"

fun legal :: "node_id \<Rightarrow> hard_state \<Rightarrow> action list \<Rightarrow> bool" where
  "legal me h [] = True"
| "legal me h (PersistHardState t v # as) =
     (vote_move h t v \<and> legal me \<lparr>hs_term = t, hs_voted_for = v\<rparr> as)"
| "legal me h (Send m # as) =
     (m_from m = me \<and> m_term m \<le> u64_max \<and>
      (m_body m = RequestVoteResp True \<longrightarrow>
         h = \<lparr>hs_term = m_term m, hs_voted_for = Some (m_to m)\<rparr>) \<and>
      legal me h as)"
| "legal me h (_ # as) = legal me h as"

lemma stored_append [simp]: "stored h (as @ bs) = stored (stored h as) bs"
  by (induction h as rule: stored.induct) auto

lemma legal_append [simp]: "legal me h (as @ bs) \<longleftrightarrow> legal me h as \<and> legal me (stored h as) bs"
  by (induction me h as rule: legal.induct) auto

lemma legal_take: "legal me h as \<Longrightarrow> legal me h (take k as)"
  by (metis append_take_drop_id legal_append)

lemma legal_later:
  "legal me h as \<Longrightarrow> vote_move h (hs_term (stored h as)) (hs_voted_for (stored h as)) \<or> stored h as = h"
  by (induction me h as rule: legal.induct) (auto simp: vote_move_def)

lemma legal_term: "legal me h as \<Longrightarrow> hs_term h \<le> hs_term (stored h as)"
  using legal_later[of me h as] by (auto simp: vote_move_def)

lemma legal_vote:
  "legal me h as \<Longrightarrow> hs_term (stored h as) = hs_term h \<Longrightarrow> hs_voted_for h = Some v \<Longrightarrow>
   hs_voted_for (stored h as) = Some v"
  using legal_later[of me h as] by (auto simp: vote_move_def)

section \<open>The laws\<close>

definition evolves :: "consensus \<Rightarrow> consensus \<Rightarrow> action list \<Rightarrow> bool" where
  "evolves s s' as \<longleftrightarrow>
     self_id s' = self_id s \<and> commit s \<le> commit s' \<and> applied s \<le> applied s' \<and>
     legal (self_id s) (hard s) as \<and> stored (hard s) as = hard s'"

definition log_grows :: "consensus \<Rightarrow> consensus \<Rightarrow> bool" where
  "log_grows s s' \<longleftrightarrow>
     snapshot_round s' = snapshot_round s \<and> snapshot_term s' = snapshot_term s \<and>
     (\<exists>es. lt_entries (tail_mut s') = lt_entries (tail_mut s) @ es \<and>
        (\<forall>e \<in> set es. e_term e = cur_term s))"

definition calm :: "consensus \<Rightarrow> consensus \<Rightarrow> action list \<Rightarrow> bool" where
  "calm s s' as \<longleftrightarrow>
     (role s' = role s \<and> campaign s' = campaign s \<and> votes s' = votes s \<and> hard s' = hard s \<and>
        (role s = Leader \<longrightarrow> log_grows s s') \<or>
      role s' = Follower) \<and>
     (\<forall>t l. RoleChanged Leader t l \<notin> set as)"

definition quiet_law :: "consensus \<Rightarrow> consensus \<Rightarrow> action list \<Rightarrow> bool" where
  "quiet_law s s' as \<longleftrightarrow> evolves s s' as \<and> calm s s' as"

lemma log_grows_refl [simp]: "log_grows s s"
  by (auto simp: log_grows_def)

lemma log_grows_trans:
  "log_grows s t \<Longrightarrow> hard t = hard s \<Longrightarrow> log_grows t u \<Longrightarrow> log_grows s u"
  by (force simp: log_grows_def)

interpretation lawful: step_inv evolves node_ok
  by unfold_locales (auto simp: evolves_def)

interpretation quiet: step_inv quiet_law node_ok
proof
  show "quiet_law s s []" for s by (simp add: quiet_law_def evolves_def calm_def)
  show "quiet_law s u (as @ bs)" if "quiet_law s t as" "quiet_law t u bs" for s t u as bs
    using that by (auto simp: quiet_law_def evolves_def calm_def intro: log_grows_trans)
qed

lemma quiet_lawful: "quiet.sound s m \<Longrightarrow> lawful.sound s m"
  by (auto simp: quiet.sound_def lawful.sound_def quiet_law_def wp_Some)

text \<open>The law for doing something to the state and nothing to its standing or its log.\<close>

lemma quiet_same:
  assumes "self_id s' = self_id s" "commit s \<le> commit s'" "applied s \<le> applied s'"
    "hard s' = hard s" "role s' = role s" "campaign s' = campaign s" "votes s' = votes s"
    "snapshot_round s' = snapshot_round s" "snapshot_term s' = snapshot_term s"
    "tail_mut s' = tail_mut s" "stored (hard s) as = hard s" "legal (self_id s) (hard s) as"
    "\<And>t l. RoleChanged Leader t l \<notin> set as"
  shows "quiet_law s s' as"
  using assms by (auto simp: quiet_law_def evolves_def calm_def log_grows_def)

text \<open>Updating a progress entry, the node's own log and watermark apart.\<close>

definition harmless :: "consensus \<Rightarrow> node_id \<Rightarrow> (progress \<Rightarrow> progress) \<Rightarrow> bool" where
  "harmless c n f \<longleftrightarrow> n \<noteq> self_id c \<or>
     (\<forall>p. p_own_log (f p) = p_own_log p \<and> p_matched (f p) = p_matched p \<and>
          (p_receiving (f p) = p_receiving p \<or> p_receiving (f p) = None))"

lemma tail_mut_upd: "harmless c n f \<Longrightarrow> tail_mut (upd_progress n f c) = tail_mut c"
  by (auto simp: tail_mut_def harmless_def split: option.splits)

lemma node_ok_upd: "node_ok c \<Longrightarrow> harmless c n f \<Longrightarrow> node_ok (upd_progress n f c)"
  by (cases "n = self_id c")
    (auto simp: node_ok_def harmless_def log_ok_def term_at_def split: option.splits
      dest: spec[of _ "progress_entry c (self_id c)"])

lemma quiet_upd: "harmless c n f \<Longrightarrow> quiet_law c (upd_progress n f c) []"
  by (rule quiet_same) (simp_all add: tail_mut_upd)

lemma sound_upd_progress:
  "node_ok c \<Longrightarrow> harmless c n f \<Longrightarrow> quiet.sound c (done_with (upd_progress n f c))"
  by (intro quiet.sound_upd node_ok_upd quiet_upd)

lemma legal_send [simp]: "legal me h [send_to c dest b] \<longleftrightarrow>
    self_id c = me \<and> cur_term c \<le> u64_max \<and>
    (b = RequestVoteResp True \<longrightarrow> h = \<lparr>hs_term = cur_term c, hs_voted_for = Some dest\<rparr>)"
  by (simp add: send_to_def)

lemma stored_send [simp]: "stored h [send_to c dest b] = h"
  by (simp add: send_to_def)

lemma send_not_role [simp]: "send_to c dest b \<noteq> RoleChanged r t l" "RoleChanged r t l \<noteq> send_to c dest b"
  by (simp_all add: send_to_def)

text \<open>Sending one message that is not a granted vote.\<close>

lemma sound_send:
  "node_ok c \<Longrightarrow> b \<noteq> RequestVoteResp True \<Longrightarrow> quiet.sound c (emit c [send_to c dest b])"
  by (intro quiet.sound_emit quiet_same) (auto simp: node_ok_def)

section \<open>The helpers obey them\<close>

lemma sound_ensure_log: "node_ok c \<Longrightarrow> quiet.sound c (ensure_log c)"
  unfolding ensure_log_eq[of c, OF node_ok_def[THEN iffD1, THEN conjunct1]]
  by (intro quiet.sound_upd ensured_node_ok quiet_same) (auto simp: set_own_tail_def tail_mut_def)

lemma sound_advance_apply: "node_ok c \<Longrightarrow> quiet.sound c (advance_apply c)"
  unfolding advance_apply_def Let_def
  by (auto intro!: quiet.sound_done quiet.sound_emit quiet_same
      simp: node_ok_def log_ok_def term_at_def tail_mut_def split: option.splits)

text \<open>Stepping down into a term that is not behind this node's.\<close>

lemma sound_become_follower:
  "node_ok c \<Longrightarrow> cur_term c \<le> t \<Longrightarrow> t \<le> u64_max \<Longrightarrow> quiet.sound c (become_follower t l c)"
  unfolding become_follower_def Let_def
  by (intro quiet.sound_emit)
    (auto simp: node_ok_def log_ok_def term_at_def quiet_law_def evolves_def calm_def vote_move_def
      split: option.splits)

lemma push_own_ok:
  assumes "log_ok c" "e_round e = last_round c + 1"
  shows "\<exists>t. push_own e c = done_with (set_own_tail t c) \<and> tail_wf t \<and>
    lt_base t = snapshot_round c \<and> tail_last_round t = last_round c + 1 \<and>
    lt_entries t = lt_entries (tail_mut c) @ [e] \<and>
    lt_rewritten_in_term t = lt_rewritten_in_term (tail_mut c)"
proof -
  note t = log_ok_tail[OF assms(1)]
  obtain t' where t': "tail_push (tail_mut c) e = Some t'"
    using tail_push_some[of e "tail_mut c"] t assms(2) by auto
  from tail_push_wf[OF conjunct1[OF t] t'] t t' show ?thesis
    by (intro exI[of _ t']) (simp add: push_own_def)
qed

lemma pushed_log_ok:
  assumes "log_ok c" "push_own e c = done_with (set_own_tail t c)" "tail_wf t"
    "lt_base t = snapshot_round c" "tail_last_round t = last_round c + 1"
    "lt_entries t = lt_entries (tail_mut c) @ [e]"
  shows "log_ok ((set_own_tail t c)\<lparr>last_round := last_round c + 1, last_term := e_term e\<rparr>)"
proof -
  have "tail_term_at t (Suc (last_round c)) = Some (e_term e)"
    using assms log_ok_tail[OF assms(1)]
    by (auto simp: tail_term_at_def tail_last_round_def nth_append)
  moreover have "snapshot_round c \<le> last_round c" by (rule floor_le_last[OF assms(1)])
  ultimately show ?thesis
    using assms by (simp add: log_ok_def term_at_def set_own_tail_def)
qed

lemma sound_append_own_entry:
  assumes ok: "node_ok c"
  shows "quiet.sound c (append_own_entry cmd c)"
  unfolding append_own_entry_def
proof (rule quiet.sound_andthen[OF sound_ensure_log[OF ok]])
  fix c1 as
  assume ok1: "node_ok c1"
  let ?e = "\<lparr>e_term = cur_term c1, e_round = last_round c1 + 1, e_command = cmd\<rparr>"
  have log: "log_ok c1" using ok1 by (simp add: node_ok_def)
  obtain t where t: "push_own ?e c1 = done_with (set_own_tail t c1)" "tail_wf t"
      "lt_base t = snapshot_round c1" "tail_last_round t = last_round c1 + 1"
      "lt_entries t = lt_entries (tail_mut c1) @ [?e]"
    using push_own_ok[OF log, of ?e] by auto
  let ?c = "(set_own_tail t c1)\<lparr>last_round := last_round c1 + 1, last_term := cur_term c1\<rparr>"
  have "log_ok ?c" using pushed_log_ok[OF log t] by simp
  then have ok: "node_ok ?c" using ok1 by (auto simp: node_ok_def set_own_tail_def)
  moreover have "quiet_law c1 ?c [Persist [?e]]"
    using t by (auto simp: quiet_law_def evolves_def calm_def log_grows_def tail_mut_def set_own_tail_def)
  ultimately show "quiet.sound c1 (let e = ?e in andthen (push_own e c1) (\<lambda>c.
      emit (c\<lparr>last_round := e_round e, last_term := e_term e\<rparr>) [Persist [e]]))"
    unfolding Let_def t(1) by (simp add: quiet.sound_def)
qed

end
