(* ===== verification/Replication_Send.thy ===== *)
theory Replication_Send
  imports Node_Laws
begin

text \<open>
  The sending half of replication: what a leader ships to one peer, to every peer, and on taking
  office (\<open>consensus/replicate.rs\<close>), the next chunk of a state transfer (\<open>consensus/snapshot.rs\<close>),
  and the rule by which the commit watermark moves.
\<close>

section \<open>The operations\<close>

definition send_snapshot_chunk_to :: "node_id \<Rightarrow> consensus \<Rightarrow> step" where
  "send_snapshot_chunk_to peer c =
     (case progress c peer of
        None \<Rightarrow> done_with c
      | Some p \<Rightarrow>
          (case p_sending p of
             None \<Rightarrow> done_with c
           | Some cur \<Rightarrow>
               (case snapshot_chunk (sc_snapshot cur) (sc_acked cur) of (data, fin) \<Rightarrow>
                  emit c [send_to c peer
                    (InstallSnapshot (sn_meta (sc_snapshot cur)) (sc_acked cur) data fin)])))"

definition send_append_to :: "node_id \<Rightarrow> consensus \<Rightarrow> step" where
  "send_append_to peer c =
     (if role c \<noteq> Leader \<or> peer = self_id c \<or> \<not> is_known (cfg c) peer then done_with c
      else andthen (ensure_log c) (\<lambda>c.
        let c = upd_progress peer
                  (\<lambda>p. if p_next p = 0 then p\<lparr>p_next := last_round c + 1\<rparr> else p) c
        in if p_needs_snapshot (progress_entry c peer) then send_snapshot_chunk_to peer c
           else
             (let next = p_next (progress_entry c peer); prev = next - 1 in
              case term_at c prev of
                None \<Rightarrow> done_with (upd_progress peer (\<lambda>p. p\<lparr>p_needs_snapshot := True\<rparr>) c)
              | Some prev_term \<Rightarrow>
                  emit c [send_to c peer (Append prev prev_term (entries_from c next) (commit c))])))"

definition peer_ids :: "consensus \<Rightarrow> node_id list" where
  "peer_ids c = filter (\<lambda>n. n \<noteq> self_id c) (members (cfg c) @ learners (cfg c))"

definition bcast_append :: "consensus \<Rightarrow> step" where
  "bcast_append c =
     (if role c \<noteq> Leader then done_with c
      else for_each (filter (\<lambda>n. n \<noteq> self_id c) (members (cfg c) @ learners (cfg c)))
             send_append_to c)"

text \<open>\<open>self.progress.retain(|n, _| *n == id || known.contains(n))\<close>.\<close>

definition retain_progress :: "node_id list \<Rightarrow> consensus \<Rightarrow> consensus" where
  "retain_progress known c =
     c\<lparr>progress := (\<lambda>n. if n = self_id c \<or> n \<in> set known then progress c n else None)\<rparr>"

definition init_leader_progress :: "consensus \<Rightarrow> step" where
  "init_leader_progress c =
     andthen (ensure_log c) (\<lambda>c.
     let next = last_round c + 1;
         known = members (cfg c) @ learners (cfg c);
         c = retain_progress known c;
         c = fold (\<lambda>n. upd_progress n (\<lambda>p. p\<lparr>p_next := next, p_matched := 0, p_silent := 0,
               p_needs_snapshot := False, p_sending := None\<rparr>)) known c
     in done_with (upd_progress (self_id c) (\<lambda>p. p\<lparr>p_next := next, p_matched := durable c,
               p_needs_snapshot := False, p_sending := None, p_receiving := None\<rparr>) c))"

definition on_became_leader :: "consensus \<Rightarrow> step" where
  "on_became_leader c =
     andthen (init_leader_progress c) (\<lambda>c.
     andthen (append_own_entry NoOp c) (\<lambda>c.
     let next = last_round c + 1;
         c = c\<lparr>progress := (\<lambda>n. map_option (\<lambda>p. p\<lparr>p_next := next\<rparr>) (progress c n))\<rparr>;
         c = upd_progress (self_id c) (\<lambda>p. p\<lparr>p_next := next\<rparr>) c
     in bcast_append c))"

text \<open>\<open>commit_advances\<close> is the boolean \<open>advance_commit\<close> returns.\<close>

definition commit_advances :: "consensus \<Rightarrow> bool" where
  "commit_advances c \<longleftrightarrow>
     role c = Leader \<and> commit c < quorum_matched c \<and> term_at c (quorum_matched c) = Some (cur_term c)"

definition advance_commit :: "consensus \<Rightarrow> step" where
  "advance_commit c =
     (if commit_advances c then
        andthen (advance_apply (c\<lparr>commit := quorum_matched c\<rparr>)) bcast_append
      else done_with c)"

section \<open>Sending changes nothing but the progress map\<close>

definition only_progress :: "consensus \<Rightarrow> consensus \<Rightarrow> action list \<Rightarrow> bool" where
  "only_progress s s' as \<longleftrightarrow> s' = s\<lparr>progress := progress s'\<rparr> \<and> tail_mut s' = tail_mut s"

lemma only_progress_id [intro]: "only_progress s s as"
  by (simp add: only_progress_def)

lemma only_progress_upd: "n \<noteq> self_id s \<Longrightarrow> only_progress s (upd_progress n f s) as"
  by (simp add: only_progress_def)

lemma upd_progress_twice: "upd_progress n g (upd_progress n f c) = upd_progress n (\<lambda>p. g (f p)) c"
  by (simp add: upd_progress_def progress_entry_def)

interpretation sending: step_rel only_progress
proof
  show "only_progress s s []" for s ..
  show "only_progress s u (as @ bs)" if "only_progress s t as" "only_progress t u bs" for s t u as bs
  proof -
    from that have t: "t = s\<lparr>progress := progress t\<rparr>" and u: "u = t\<lparr>progress := progress u\<rparr>"
      by (simp_all add: only_progress_def)
    have "t\<lparr>progress := progress u\<rparr> = s\<lparr>progress := progress u\<rparr>" by (subst t) simp
    with u that show ?thesis by (simp add: only_progress_def)
  qed
qed

lemma ensure_log_only: "ensure_log c = Some (d, as) \<Longrightarrow> only_progress c d as \<and> as = []"
  by (auto simp: ensure_log_def done_with_def only_progress_def tail_mut_def
      split: option.splits if_splits)

lemma send_append_only: "send_append_to peer c = Some (d, as) \<Longrightarrow> only_progress c d as"
proof (cases "role c \<noteq> Leader \<or> peer = self_id c \<or> \<not> is_known (cfg c) peer")
  case True
  then have "send_append_to peer c = done_with c" unfolding send_append_to_def by (rule if_P)
  then show "send_append_to peer c = Some (d, as) \<Longrightarrow> ?thesis" by (auto simp: done_with_def)
next
  case False
  assume "send_append_to peer c = Some (d, as)"
  then show ?thesis
    unfolding send_append_to_def if_not_P[OF False]
  proof (rule sending.R_andthen)
    show "only_progress c b bs" if "ensure_log c = Some (b, bs)" for b bs
      using ensure_log_only[OF that] ..
  next
    fix b bs e es
    assume b: "ensure_log c = Some (b, bs)"
    then have "self_id b = self_id c"
      using ensure_log_only[OF b] by (metis only_progress_def consensus.select_convs(1)
          consensus.surjective consensus.update_convs(18))
    then have peer: "peer \<noteq> self_id b" using False by simp
    assume "(let c = upd_progress peer
                  (\<lambda>p. if p_next p = 0 then p\<lparr>p_next := last_round b + 1\<rparr> else p) b
        in if p_needs_snapshot (progress_entry c peer) then send_snapshot_chunk_to peer c
           else
             (let next = p_next (progress_entry c peer); prev = next - 1 in
              case term_at c prev of
                None \<Rightarrow> done_with (upd_progress peer (\<lambda>p. p\<lparr>p_needs_snapshot := True\<rparr>) c)
              | Some prev_term \<Rightarrow>
                  emit c [send_to c peer (Append prev prev_term (entries_from c next) (commit c))]))
        = Some (e, es)"
    then have "\<exists>f. e = upd_progress peer f b"
      by (auto simp: Let_def send_snapshot_chunk_to_def done_with_def emit_def upd_progress_twice
          split: if_splits option.splits prod.splits)
    then show "only_progress b e es" using only_progress_upd[OF peer] by auto
  qed
qed

lemma bcast_only: "bcast_append c = Some (d, as) \<Longrightarrow> only_progress c d as"
  unfolding bcast_append_def
  by (auto simp: done_with_def split: if_splits
      elim!: sending.R_for_each intro: send_append_only)

section \<open>The laws\<close>

lemma sound_send_chunk: "node_ok c \<Longrightarrow> quiet.sound c (send_snapshot_chunk_to peer c)"
  by (auto simp: send_snapshot_chunk_to_def intro: quiet.sound_done sound_send
      split: option.split prod.split)

lemma sound_send_append:
  assumes ok: "node_ok c"
  shows "quiet.sound c (send_append_to peer c)"
proof (cases "role c \<noteq> Leader \<or> peer = self_id c \<or> \<not> is_known (cfg c) peer")
  case False
  define anchor where "anchor l = upd_progress peer
    (\<lambda>p. if p_next p = 0 then p\<lparr>p_next := l + 1\<rparr> else p)" for l :: nat
  define ship where "ship c =
    (if p_needs_snapshot (progress_entry c peer) then send_snapshot_chunk_to peer c
     else case term_at c (p_next (progress_entry c peer) - 1) of
        None \<Rightarrow> done_with (upd_progress peer (\<lambda>p. p\<lparr>p_needs_snapshot := True\<rparr>) c)
      | Some prev_term \<Rightarrow> emit c [send_to c peer (Append (p_next (progress_entry c peer) - 1)
          prev_term (entries_from c (p_next (progress_entry c peer))) (commit c))])" for c
  have eq: "send_append_to peer c = andthen (ensure_log c) (\<lambda>c.
      andthen (done_with (anchor (last_round c) c)) ship)"
    unfolding send_append_to_def anchor_def ship_def Let_def andthen_done by (rule if_not_P[OF False])
  have ship: "quiet.sound c (ship c)" if "node_ok c" for c
    unfolding ship_def using that
    by (auto intro!: sound_send_chunk sound_send sound_upd_progress simp: harmless_def
        split: option.split)
  have anchor: "quiet.sound c (done_with (anchor l c))" if "node_ok c" for l c
    unfolding anchor_def using that by (rule sound_upd_progress) (simp add: harmless_def)
  show ?thesis unfolding eq
    by (intro quiet.sound_andthen sound_ensure_log anchor ship ok)
next
  case True
  then have "send_append_to peer c = done_with c" unfolding send_append_to_def by (rule if_P)
  then show ?thesis by (simp add: quiet.sound_done ok)
qed

lemma sound_bcast: "node_ok c \<Longrightarrow> quiet.sound c (bcast_append c)"
  unfolding bcast_append_def
  by (cases "role c = Leader")
    (simp_all add: quiet.sound_done quiet.sound_for_each sound_send_append)

lemma fold_upd_progress:
  assumes "\<And>p. p_own_log (f p) = p_own_log p"
  shows "\<exists>pr. fold (\<lambda>n. upd_progress n f) ns c = c\<lparr>progress := pr\<rparr> \<and>
    own_tail (c\<lparr>progress := pr\<rparr>) = own_tail c"
proof (induction ns arbitrary: c)
  case (Cons n ns)
  obtain pr where "fold (\<lambda>n. upd_progress n f) ns (upd_progress n f c) =
      (upd_progress n f c)\<lparr>progress := pr\<rparr>"
      "own_tail ((upd_progress n f c)\<lparr>progress := pr\<rparr>) = own_tail (upd_progress n f c)"
    using Cons by blast
  moreover have "(upd_progress n f c)\<lparr>progress := pr\<rparr> = c\<lparr>progress := pr\<rparr>"
    by (simp add: upd_progress_def)
  moreover have "own_tail (upd_progress n f c) = own_tail c" using assms by simp
  ultimately show ?case by (intro exI[of _ pr]) simp
next
  case Nil
  show ?case by (rule exI[of _ "progress c"]) simp
qed

text \<open>What a new leader's progress map looks like; the node's own entry keeps its log.\<close>

lemma init_leader_progress_eq:
  assumes "log_ok c"
  shows "\<exists>pr. init_leader_progress c = done_with (c\<lparr>progress := pr\<rparr>) \<and>
    own_tail (c\<lparr>progress := pr\<rparr>) = Some (tail_mut c) \<and> agreed (c\<lparr>progress := pr\<rparr>) = durable c \<and>
    snapshot_incoming (c\<lparr>progress := pr\<rparr>) = None"
proof -
  let ?c1 = "set_own_tail (tail_mut c) c"
  define nx known where "nx = last_round ?c1 + 1" and "known = members (cfg ?c1) @ learners (cfg ?c1)"
  define f where "f = (\<lambda>p :: progress. p\<lparr>p_next := nx, p_matched := 0, p_silent := 0,
    p_needs_snapshot := False, p_sending := None\<rparr>)"
  define g where "g = (\<lambda>p :: progress. p\<lparr>p_next := nx, p_matched := durable c, p_needs_snapshot := False,
    p_sending := None, p_receiving := None\<rparr>)"
  let ?c2 = "retain_progress known ?c1"
  obtain pr where pr: "fold (\<lambda>n. upd_progress n f) known ?c2 = ?c2\<lparr>progress := pr\<rparr>"
      "own_tail (?c2\<lparr>progress := pr\<rparr>) = own_tail ?c2"
    using fold_upd_progress[of f known ?c2] by (auto simp: f_def)
  have c2: "?c2\<lparr>progress := pr\<rparr> = c\<lparr>progress := pr\<rparr>"
    by (simp add: set_own_tail_def upd_progress_def retain_progress_def)
  have tail: "own_tail (c\<lparr>progress := pr\<rparr>) = Some (tail_mut c)"
    using pr(2) unfolding c2 by (simp add: own_tail_def set_own_tail_def retain_progress_def)
  have fold: "fold (\<lambda>n. upd_progress n f) known ?c2 = c\<lparr>progress := pr\<rparr>"
    using pr(1) unfolding c2 .
  have eq: "init_leader_progress c = done_with (upd_progress (self_id c) g (c\<lparr>progress := pr\<rparr>))"
    unfolding init_leader_progress_def ensure_log_eq[OF assms] andthen_done Let_def
    unfolding nx_def[symmetric] known_def[symmetric] f_def[symmetric] fold g_def by simp
  have upd: "upd_progress (self_id c) g (c\<lparr>progress := pr\<rparr>) =
      c\<lparr>progress := pr(self_id c \<mapsto> g (progress_entry (c\<lparr>progress := pr\<rparr>) (self_id c)))\<rparr>"
    by (simp add: upd_progress_def)
  show ?thesis
    unfolding eq upd using tail
    by (intro exI[of _ "pr(self_id c \<mapsto> g (progress_entry (c\<lparr>progress := pr\<rparr>) (self_id c)))"])
      (auto simp: own_tail_def agreed_def snapshot_incoming_def g_def progress_entry_def
        split: option.splits)
qed

lemma sound_init_leader_progress:
  assumes ok: "node_ok (c\<lparr>role := Follower\<rparr>)"
  shows "quiet.sound c (init_leader_progress c)"
proof -
  have log: "log_ok c"
    using ok by (rule_tac log_ok_cong[of _ "c\<lparr>role := Follower\<rparr>"]) (auto simp: node_ok_def)
  from init_leader_progress_eq[OF this] obtain pr where pr:
      "init_leader_progress c = done_with (c\<lparr>progress := pr\<rparr>)"
      "own_tail (c\<lparr>progress := pr\<rparr>) = Some (tail_mut c)"
      "agreed (c\<lparr>progress := pr\<rparr>) = durable c" "snapshot_incoming (c\<lparr>progress := pr\<rparr>) = None"
    by blast
  have tail: "tail_mut (c\<lparr>progress := pr\<rparr>) = tail_mut c" using pr(2) by (simp add: tail_mut_def)
  have "log_ok (c\<lparr>progress := pr\<rparr>)" by (rule log_ok_cong[OF _ _ _ _ _ _ log]) (simp_all add: tail pr(2))
  then have "node_ok (c\<lparr>progress := pr\<rparr>)" using ok pr by (auto simp: node_ok_def)
  then show ?thesis unfolding pr(1) by (rule quiet.sound_upd) (rule quiet_same, simp_all add: tail)
qed

lemma sound_on_became_leader:
  assumes ok: "node_ok (c\<lparr>role := Follower\<rparr>)"
  shows "quiet.sound c (on_became_leader c)"
  unfolding on_became_leader_def
proof (intro quiet.sound_andthen[OF sound_init_leader_progress[OF ok]]
    quiet.sound_andthen[OF sound_append_own_entry])
  fix c :: consensus
  assume ok: "node_ok c"
  define nx where "nx = last_round c + 1"
  let ?c = "c\<lparr>progress := (\<lambda>n. map_option (\<lambda>p. p\<lparr>p_next := nx\<rparr>) (progress c n))\<rparr>"
  let ?d = "upd_progress (self_id c) (\<lambda>p. p\<lparr>p_next := nx\<rparr>) ?c"
  have same: "own_tail ?c = own_tail c" "agreed ?c = agreed c"
      "snapshot_incoming ?c = snapshot_incoming c"
    by (simp_all add: own_tail_def agreed_def snapshot_incoming_def split: option.split)
  have tail: "tail_mut ?c = tail_mut c" using same by (simp add: tail_mut_def split: option.split)
  have "log_ok ?c"
    by (rule log_ok_cong[of _ c]) (use ok same in \<open>auto simp: tail node_ok_def\<close>)
  then have ok': "node_ok ?c" using ok same by (auto simp: node_ok_def)
  then have "quiet.sound ?c (andthen (done_with ?d) bcast_append)"
    by (intro quiet.sound_andthen sound_upd_progress sound_bcast) (auto simp: harmless_def)
  moreover have "quiet_law c ?c []" by (rule quiet_same) (simp_all add: tail)
  ultimately have "quiet.sound c (andthen (emit ?c []) (\<lambda>_. andthen (done_with ?d) bcast_append))"
    by (intro quiet.sound_from)
  then show "quiet.sound c (let next = last_round c + 1;
         c = c\<lparr>progress := (\<lambda>n. map_option (\<lambda>p. p\<lparr>p_next := next\<rparr>) (progress c n))\<rparr>;
         c = upd_progress (self_id c) (\<lambda>p. p\<lparr>p_next := next\<rparr>) c
     in bcast_append c)"
    by (simp add: Let_def quiet.sound_def nx_def)
qed

lemma sound_advance_commit:
  assumes ok: "node_ok c"
  shows "quiet.sound c (advance_commit c)"
proof (cases "commit_advances c")
  case True
  let ?c = "c\<lparr>commit := quorum_matched c\<rparr>"
  have "node_ok ?c" using ok True
    by (auto simp: node_ok_def commit_advances_def log_ok_def term_at_def split: option.splits)
  then have "quiet.sound ?c (andthen (advance_apply ?c) bcast_append)"
    by (intro quiet.sound_andthen sound_advance_apply sound_bcast)
  moreover have "quiet_law c ?c []"
    using True by (intro quiet_same) (auto simp: commit_advances_def tail_mut_def split: option.splits)
  ultimately have "quiet.sound c (andthen (emit ?c []) (\<lambda>_. andthen (advance_apply ?c) bcast_append))"
    by (intro quiet.sound_from)
  with True show ?thesis by (simp add: advance_commit_def quiet.sound_def)
qed (simp add: advance_commit_def quiet.sound_done ok)

end
