(* ===== verification/Membership.thy ===== *)
theory Membership
  imports Replication_Send
begin

text \<open>
  \<open>consensus/membership.rs\<close>: which configuration changes a leader may begin, and what a node does on
  learning the configuration in its log; with \<open>apply_config\<close> and the two flags of
  \<open>consensus/election.rs\<close> that gate campaigning. Of an error's text a short tag is kept.

  A function of the source that returns a \<open>Result\<close> and pushes actions is a pair: what it does to the
  state, and what it returns.
\<close>

section \<open>The data\<close>

datatype change = AddLearner node_id | Promote node_id | Demote node_id | Remove node_id

datatype own_term_committed = Yes | NotYet

datatype standing = Absent | Learner | Voter

definition standing_of :: "config \<Rightarrow> node_id \<Rightarrow> standing" where
  "standing_of cf n =
     (if contains cf n then Voter else if n \<in> set (learners cf) then Learner else Absent)"

section \<open>Checking a change\<close>

definition config_holders :: "consensus \<Rightarrow> nat" where
  "config_holders c =
     length (filter (\<lambda>n. case acked c n of None \<Rightarrow> False | Some a \<Rightarrow> cfg_at_le (config_at (cfg c)) a)
       (members (cfg c)))"

definition config_is_durable_on_a_majority :: "consensus \<Rightarrow> bool" where
  "config_is_durable_on_a_majority c \<longleftrightarrow>
     acked c (self_id c) \<noteq> None \<and> has_quorum (cfg c) (config_holders c)"

definition change_in_flight :: "consensus \<Rightarrow> bool" where
  "change_in_flight c \<longleftrightarrow> \<not> config_is_durable_on_a_majority c"

definition check_own_term :: "own_term_committed \<Rightarrow> unit result" where
  "check_own_term own = (if own = Yes then Inr () else Inl (Constraint ''own term not committed''))"

definition check_not_self :: "consensus \<Rightarrow> node_id \<Rightarrow> unit result" where
  "check_not_self c n = (if n \<noteq> self_id c then Inr () else Inl (Constraint ''is this leader''))"

definition check_caught_up :: "consensus \<Rightarrow> node_id \<Rightarrow> unit result" where
  "check_caught_up c n =
     (case progress c n of
        Some p \<Rightarrow> if commit c \<le> p_matched p then Inr () else Inl (Constraint ''not caught up'')
      | None \<Rightarrow> Inl (Constraint ''not caught up''))"

definition check_precondition :: "consensus \<Rightarrow> unit result" where
  "check_precondition c =
     (if role c \<noteq> Leader then Inl (NotLeader None)
      else if acked c (self_id c) = None then Inl (Constraint ''no recorded provenance'')
      else if \<not> has_quorum (cfg c) (config_holders c) then Inl (Constraint ''change in flight'')
      else Inr ())"

definition standings_moved :: "consensus \<Rightarrow> config \<Rightarrow> (node_id \<times> standing \<times> standing) list" where
  "standings_moved c cf =
     (let seen = dedup (sort (members (cfg c) @ learners (cfg c) @ members cf @ learners cf)) in
      map (\<lambda>n. (n, standing_of (cfg c) n, standing_of cf n))
        (filter (\<lambda>n. standing_of (cfg c) n \<noteq> standing_of cf n) seen))"

text \<open>The last match of \<open>check_shape\<close>, on the one node that moves.\<close>

fun check_move :: "consensus \<Rightarrow> node_id \<Rightarrow> standing \<Rightarrow> standing \<Rightarrow> unit result" where
  "check_move c n Absent Voter = Inl (Constraint ''added directly as a voter'')"
| "check_move c n Voter Absent = Inl (Constraint ''voter removed in one step'')"
| "check_move c n Learner Voter = rbind (check_not_self c n) (\<lambda>_. check_caught_up c n)"
| "check_move c n Voter Learner = check_not_self c n"
| "check_move c n _ _ = Inr ()"

definition check_shape :: "consensus \<Rightarrow> config \<Rightarrow> unit result" where
  "check_shape c cf =
     (if config_is_empty cf then Inl (Constraint ''empty voter set'')
      else if cfg_version cf \<noteq> cfg_version (cfg c) + 1 then Inl (Constraint ''version'')
      else if cfg_term cf \<noteq> cur_term c then Inl (Constraint ''term'')
      else
        (case standings_moved c cf of
           [(n, before, after)] \<Rightarrow> check_move c n before after
         | _ \<Rightarrow> Inl (Constraint ''moves more than one node, or none'')))"

definition check_membership :: "consensus \<Rightarrow> config \<Rightarrow> own_term_committed \<Rightarrow> unit result" where
  "check_membership c cf own =
     (if role c \<noteq> Leader then Inl (NotLeader None)
      else rbind (check_own_term own) (\<lambda>_.
           rbind (check_shape c cf) (\<lambda>_. check_precondition c)))"

definition may_change_membership :: "consensus \<Rightarrow> own_term_committed \<Rightarrow> unit result" where
  "may_change_membership c own =
     (if role c \<noteq> Leader then Inl (NotLeader None)
      else rbind (check_own_term own) (\<lambda>_. check_precondition c))"

section \<open>Planning a change\<close>

definition demoting :: "config \<Rightarrow> node_id \<Rightarrow> nat \<Rightarrow> config" where
  "demoting cf n trm =
     with_learners (config_new (filter (\<lambda>x. x \<noteq> n) (members cf)) (cfg_version cf + 1) trm)
       (learners cf @ [n])"

fun target_config :: "consensus \<Rightarrow> change \<Rightarrow> config result" where
  "target_config c (AddLearner n) =
     (case standing_of (cfg c) n of
        Voter \<Rightarrow> Inl (Constraint ''already a voter'')
      | Learner \<Rightarrow> Inl (Constraint ''already a learner'')
      | Absent \<Rightarrow> Inr (adding_learner (cfg c) n (cur_term c)))"
| "target_config c (Promote n) =
     (case standing_of (cfg c) n of
        Voter \<Rightarrow> Inl (Constraint ''already a voter'')
      | Absent \<Rightarrow> Inl (Constraint ''in no configuration'')
      | Learner \<Rightarrow>
          rbind (check_not_self c n) (\<lambda>_.
          rbind (check_caught_up c n) (\<lambda>_. Inr (adding (cfg c) n (cur_term c)))))"
| "target_config c (Demote n) =
     (case standing_of (cfg c) n of
        Learner \<Rightarrow> Inl (Constraint ''already a learner'')
      | Absent \<Rightarrow> Inl (Constraint ''in no configuration'')
      | Voter \<Rightarrow> rbind (check_not_self c n) (\<lambda>_. Inr (demoting (cfg c) n (cur_term c))))"
| "target_config c (Remove n) =
     (case standing_of (cfg c) n of
        Voter \<Rightarrow> Inl (Constraint ''demote it first'')
      | Absent \<Rightarrow> Inl (Constraint ''in no configuration'')
      | Learner \<Rightarrow> Inr (removing (cfg c) n (cur_term c)))"

definition plan_change :: "consensus \<Rightarrow> change \<Rightarrow> own_term_committed \<Rightarrow> config result" where
  "plan_change c ch own =
     (if role c \<noteq> Leader then Inl (NotLeader None)
      else rbind (target_config c ch) (\<lambda>target.
           rbind (check_membership c target own) (\<lambda>_. Inr target)))"

section \<open>Installing a configuration\<close>

definition or_insert_progress :: "nat \<Rightarrow> node_id \<Rightarrow> consensus \<Rightarrow> consensus" where
  "or_insert_progress next n c =
     (if progress c n = None
      then c\<lparr>progress := (progress c)(n \<mapsto> progress_default\<lparr>p_next := next\<rparr>)\<rparr> else c)"

definition apply_config :: "config \<Rightarrow> consensus \<Rightarrow> step" where
  "apply_config cf c =
     (let c = c\<lparr>cfg := cf, behind := False\<rparr> in
      if role c = Leader then
        (let known = peer_ids c;
             c = retain_progress known c;
             c = fold (or_insert_progress (sat_add64 (last_round c) 1)) known c
         in if \<not> contains (cfg c) (self_id c) then become_follower (cur_term c) None c else done_with c)
      else done_with c)"

definition observe_config_at :: "cfg_at \<Rightarrow> consensus \<Rightarrow> consensus" where
  "observe_config_at a c = (if cfg_at_less (config_at (cfg c)) a then c\<lparr>behind := True\<rparr> else c)"

definition observe_quorum_watermark :: "nat \<Rightarrow> consensus \<Rightarrow> consensus" where
  "observe_quorum_watermark w c = (if unjoined c \<and> w \<le> durable c then c\<lparr>unjoined := False\<rparr> else c)"

definition latch_damaged :: "string \<Rightarrow> consensus \<Rightarrow> step \<times> ferro_error" where
  "latch_damaged why c =
     (andthen (become_follower (cur_term c) None c) (\<lambda>c. done_with (c\<lparr>behind := True\<rparr>)),
      Corruption why)"

definition note_bootstrap_config :: "consensus \<Rightarrow> consensus" where
  "note_bootstrap_config c =
     fold (\<lambda>m c. c\<lparr>acked := (acked c)(m \<mapsto> config_at (cfg c))\<rparr>) (members (cfg c)) c"

definition retain_acked :: "config \<Rightarrow> consensus \<Rightarrow> consensus" where
  "retain_acked cf c = c\<lparr>acked := (\<lambda>n. if is_known cf n then acked c n else None)\<rparr>"

definition note_config_in_log :: "config \<Rightarrow> consensus \<Rightarrow> step \<times> unit result" where
  "note_config_in_log cf c =
     (if config_is_empty cf then
        (case latch_damaged ''empty voter set'' c of (h, e) \<Rightarrow> (h, Inl e))
      else if config_at cf = config_at (cfg c) then
        (if cf \<noteq> cfg c then
           (case latch_damaged ''two configurations claim one identity'' c of (h, e) \<Rightarrow> (h, Inl e))
         else (done_with (c\<lparr>acked := (acked c)(self_id c \<mapsto> config_at cf)\<rparr>), Inr ()))
      else
        (let c = retain_acked cf c;
             c = c\<lparr>acked := (acked c)(self_id c \<mapsto> config_at cf)\<rparr>
         in (apply_config cf c, Inr ())))"

definition note_config_ack :: "node_id \<Rightarrow> cfg_at \<Rightarrow> consensus \<Rightarrow> consensus" where
  "note_config_ack n a c =
     (if n = self_id c \<or> \<not> is_known (cfg c) n then c
      else
        (let e = (case acked c n of None \<Rightarrow> \<lparr>at_version = 0, at_term = 0\<rparr> | Some e \<Rightarrow> e) in
         c\<lparr>acked := (acked c)(n \<mapsto> if cfg_at_less e a then a else e)\<rparr>))"

definition begin_membership :: "config \<Rightarrow> own_term_committed \<Rightarrow> consensus \<Rightarrow> step \<times> unit result" where
  "begin_membership cf own c =
     (case check_membership c cf own of
        Inl e \<Rightarrow> (done_with c, Inl e)
      | Inr _ \<Rightarrow> (apply_config cf (retain_acked cf c), Inr ()))"

section \<open>The laws\<close>

text \<open>Filling in the peers that arrived leaves this node's own entry alone.\<close>

lemma fold_or_insert:
  assumes "self_id c \<notin> set ns"
  shows "\<exists>pr. fold (or_insert_progress nx) ns c = c\<lparr>progress := pr\<rparr> \<and>
    pr (self_id c) = progress c (self_id c)"
  using assms
proof (induction ns arbitrary: c)
  case Nil
  show ?case by (rule exI[of _ "progress c"]) simp
next
  case (Cons n ns)
  let ?c = "or_insert_progress nx n c"
  have c: "self_id ?c = self_id c" "progress ?c (self_id c) = progress c (self_id c)"
      "?c\<lparr>progress := pr\<rparr> = c\<lparr>progress := pr\<rparr>" for pr
    using Cons.prems by (auto simp: or_insert_progress_def)
  have "self_id ?c \<notin> set ns" using Cons.prems by (simp add: c)
  from Cons.IH[OF this] obtain pr where "fold (or_insert_progress nx) ns ?c = ?c\<lparr>progress := pr\<rparr>"
      "pr (self_id c) = progress c (self_id c)"
    by (auto simp: c)
  then show ?case by (intro exI[of _ pr]) (simp add: c)
qed

lemma same_own_entry:
  assumes "pr (self_id c) = progress c (self_id c)"
  shows "own_tail (c\<lparr>progress := pr\<rparr>) = own_tail c" "agreed (c\<lparr>progress := pr\<rparr>) = agreed c"
    "snapshot_incoming (c\<lparr>progress := pr\<rparr>) = snapshot_incoming c"
    "tail_mut (c\<lparr>progress := pr\<rparr>) = tail_mut c"
  using assms
  by (simp_all add: own_tail_def agreed_def snapshot_incoming_def tail_mut_def split: option.splits)

lemma sound_set_progress:
  assumes "node_ok c" "pr (self_id c) = progress c (self_id c)"
  shows "quiet.sound c (done_with (c\<lparr>progress := pr\<rparr>))"
proof (rule quiet.sound_upd)
  note same = same_own_entry[of pr c, OF assms(2)]
  have "log_ok (c\<lparr>progress := pr\<rparr>)"
    by (rule log_ok_cong[of _ c]) (use assms(1) same in \<open>auto simp: node_ok_def\<close>)
  then show "node_ok (c\<lparr>progress := pr\<rparr>)" using assms(1) same by (auto simp: node_ok_def)
  show "quiet_law c (c\<lparr>progress := pr\<rparr>) []" by (rule quiet_same) (simp_all add: same)
qed

text \<open>Fields neither law mentions.\<close>

lemma sound_idle:
  assumes "node_ok c" "log_ok c \<Longrightarrow> log_ok c'" "self_id c' = self_id c" "role c' = role c"
    "hard c' = hard c" "campaign c' = campaign c" "votes c' = votes c" "commit c' = commit c"
    "applied c' = applied c" "durable c' = durable c" "last_round c' = last_round c"
    "snapshot_round c' = snapshot_round c" "snapshot_term c' = snapshot_term c"
    "tail_mut c' = tail_mut c" "agreed c' = agreed c"
    "snapshot_incoming c' = snapshot_incoming c" "timing_ok c' = timing_ok c"
  shows "quiet.sound c (done_with c')"
  by (rule quiet.sound_upd) (use assms in \<open>auto simp: node_ok_def intro!: quiet_same\<close>)

lemma sound_apply_config:
  assumes ok: "node_ok c"
  shows "quiet.sound c (apply_config cf c)"
proof -
  let ?c = "c\<lparr>cfg := cf, behind := False\<rparr>"
  have ok': "node_ok ?c" using ok by (simp add: node_ok_def)
  have law: "quiet_law c ?c []" by (rule quiet_same) simp_all
  show ?thesis
  proof (cases "role c = Leader")
    case True
    define known where "known = peer_ids ?c"
    have keep: "self_id (retain_progress known ?c) = self_id c"
        "progress (retain_progress known ?c) (self_id c) = progress c (self_id c)"
        "last_round (retain_progress known ?c) = last_round c"
        "(retain_progress known ?c)\<lparr>progress := pr\<rparr> = ?c\<lparr>progress := pr\<rparr>" for pr
      by (simp_all add: retain_progress_def)
    have "self_id (retain_progress known ?c) \<notin> set known"
      unfolding keep by (simp add: known_def peer_ids_def)
    from fold_or_insert[OF this, of "sat_add64 (last_round c) 1"]
    obtain pr where pr: "fold (or_insert_progress (sat_add64 (last_round c) 1)) known
          (retain_progress known ?c) = ?c\<lparr>progress := pr\<rparr>"
        "pr (self_id c) = progress c (self_id c)"
      by (auto simp: keep)
    define step_down where "step_down d =
      (if \<not> contains (cfg d) (self_id d) then become_follower (cur_term d) None d else done_with d)"
      for d
    have eq: "apply_config cf c = andthen (done_with (?c\<lparr>progress := pr\<rparr>)) step_down"
      using True pr(1)
      by (simp add: apply_config_def Let_def step_down_def known_def[symmetric] keep)
    have "quiet.sound ?c (andthen (done_with (?c\<lparr>progress := pr\<rparr>)) step_down)"
      unfolding step_down_def
      by (rule quiet.sound_andthen[OF sound_set_progress[OF ok']])
        (use pr(2) in \<open>auto simp: node_ok_def intro!: sound_become_follower quiet.sound_done\<close>)
    then have "quiet.sound c (andthen (emit ?c []) (\<lambda>_. apply_config cf c))"
      unfolding eq by (intro quiet.sound_from law)
    then show ?thesis by (simp add: quiet.sound_def)
  next
    case False
    then have "apply_config cf c = done_with ?c" by (simp add: apply_config_def Let_def)
    then show ?thesis by (simp add: quiet.sound_upd ok' law)
  qed
qed

lemma sound_latch: "node_ok c \<Longrightarrow> quiet.sound c (fst (latch_damaged why c))"
  unfolding latch_damaged_def fst_conv
  by (intro quiet.sound_andthen sound_become_follower sound_idle) (auto simp: node_ok_def)

lemma sound_note_config:
  assumes ok: "node_ok c"
  shows "quiet.sound c (fst (note_config_in_log cf c))"
proof -
  let ?d = "(retain_acked cf c)\<lparr>acked := (acked (retain_acked cf c))(self_id c \<mapsto> config_at cf)\<rparr>"
  have d: "node_ok ?d" using ok by (simp add: retain_acked_def node_ok_def)
  have law: "quiet_law c ?d []" by (rule quiet_same) (simp_all add: retain_acked_def)
  have "quiet.sound c (andthen (emit ?d []) (\<lambda>_. apply_config cf ?d))"
    by (intro quiet.sound_from law sound_apply_config d)
  then have install: "quiet.sound c (apply_config cf ?d)" by (simp add: quiet.sound_def)
  have mark: "quiet.sound c (done_with (c\<lparr>acked := (acked c)(self_id c \<mapsto> a)\<rparr>))" for a
    by (rule sound_idle[OF ok]) simp_all
  have damaged: "quiet.sound c (fst ((case latch_damaged why c of (h, e) \<Rightarrow> (h, Inl e)) :: step \<times> unit result))"
    for why
    using sound_latch[OF ok, of why] by (simp add: case_prod_beta)
  show ?thesis
    using install mark damaged
    by (simp add: note_config_in_log_def Let_def retain_acked_def)
qed

section \<open>What an accepted change is\<close>

lemma standings_moved_eq:
  "standings_moved c cf = map (\<lambda>n. (n, standing_of (cfg c) n, standing_of cf n))
     (filter (\<lambda>n. standing_of (cfg c) n \<noteq> standing_of cf n)
       (dedup (sort (members (cfg c) @ learners (cfg c) @ members cf @ learners cf))))"
  by (simp add: standings_moved_def Let_def)

lemma filter_one:
  assumes "distinct xs" "{x \<in> set xs. P x} = {n}"
  shows "filter P xs = [n]"
proof -
  have "length (filter P xs) = 1"
    using assms distinct_card[of "filter P xs"] by simp
  then obtain m where "filter P xs = [m]" by (auto simp: length_Suc_conv)
  with assms(2) show ?thesis by (metis list.set_intros(1) set_filter singletonD)
qed

lemma moved_distinct: "distinct (dedup (sort (xs :: node_id list)))"
  by (metis dedup_sorted sorted_sort strict_sorted_iff)

lemma standing_known:
  "standing_of a n \<noteq> standing_of b n \<Longrightarrow>
   n \<in> set (members a @ learners a @ members b @ learners b)"
  by (auto simp: standing_of_def contains_def split: if_splits)

text \<open>\<open>standings_moved\<close> reports one node exactly when one node's standing differs.\<close>

lemma standings_moved_one:
  "standings_moved c cf = [(n, x, y)] \<longleftrightarrow>
     {m. standing_of (cfg c) m \<noteq> standing_of cf m} = {n} \<and>
     x = standing_of (cfg c) n \<and> y = standing_of cf n"
proof -
  let ?P = "\<lambda>m. standing_of (cfg c) m \<noteq> standing_of cf m"
  let ?xs = "dedup (sort (members (cfg c) @ learners (cfg c) @ members cf @ learners cf))"
  have set: "{m \<in> set ?xs. ?P m} = {m. ?P m}"
    using standing_known[of "cfg c" _ cf] by auto
  have "filter ?P ?xs = [n] \<longleftrightarrow> {m. ?P m} = {n}"
  proof
    assume "filter ?P ?xs = [n]"
    then have "set (filter ?P ?xs) = {n}" by simp
    then show "{m. ?P m} = {n}" unfolding set_filter set .
  next
    assume "{m. ?P m} = {n}"
    then show "filter ?P ?xs = [n]" by (intro filter_one moved_distinct) (simp only: set)
  qed
  then show ?thesis by (auto simp: standings_moved_eq map_eq_Cons_conv)
qed

lemma check_shape_Inr:
  "check_shape c cf = Inr () \<longleftrightarrow>
     \<not> config_is_empty cf \<and> cfg_version cf = cfg_version (cfg c) + 1 \<and> cfg_term cf = cur_term c \<and>
     (\<exists>n. {m. standing_of (cfg c) m \<noteq> standing_of cf m} = {n} \<and>
        check_move c n (standing_of (cfg c) n) (standing_of cf n) = Inr ())"
proof -
  have "(\<exists>n. {m. standing_of (cfg c) m \<noteq> standing_of cf m} = {n} \<and>
        check_move c n (standing_of (cfg c) n) (standing_of cf n) = Inr ()) \<longleftrightarrow>
      (\<exists>n x y. standings_moved c cf = [(n, x, y)] \<and> check_move c n x y = Inr ())"
    unfolding standings_moved_one by blast
  then show ?thesis
    by (auto simp: check_shape_def split: list.splits)
qed

lemma check_move_Inr:
  "check_move c n x y = Inr () \<longleftrightarrow>
     (y = Voter \<and> x \<noteq> Voter \<longrightarrow> x = Learner \<and> n \<noteq> self_id c \<and> check_caught_up c n = Inr ()) \<and>
     (x = Voter \<and> y \<noteq> Voter \<longrightarrow> y = Learner \<and> n \<noteq> self_id c)"
  by (cases x; cases y) (auto simp: check_not_self_def rbind_Inr)

lemma caught_up_Inr:
  "check_caught_up c n = Inr () \<longleftrightarrow> (\<exists>p. progress c n = Some p \<and> commit c \<le> p_matched p)"
  by (auto simp: check_caught_up_def split: option.splits)

lemma check_membership_Inr:
  "check_membership c cf own = Inr () \<longleftrightarrow>
     role c = Leader \<and> own = Yes \<and> check_shape c cf = Inr () \<and> \<not> change_in_flight c"
  by (auto simp: check_membership_def check_own_term_def check_precondition_def rbind_Inr
      change_in_flight_def config_is_durable_on_a_majority_def)

lemma standing_iff:
  "standing_of cf n = Voter \<longleftrightarrow> n \<in> set (members cf)"
  "standing_of cf n = Learner \<longleftrightarrow> n \<notin> set (members cf) \<and> n \<in> set (learners cf)"
  "standing_of cf n = Absent \<longleftrightarrow> n \<notin> set (members cf) \<and> n \<notin> set (learners cf)"
  by (auto simp: standing_of_def contains_def)

text \<open>
  (C9) An accepted membership change is safe. If \<open>check_membership\<close> accepts a change from the
  configuration in force to another (both well formed), then this node leads and has committed in
  its own term; the change is the next version, made in this term; exactly one node's standing moves,
  never this leader's own vote; a node gains a vote only from being a learner that holds everything
  committed, and loses it only by becoming a learner; a majority of the voters is known to hold the
  configuration in force; and every majority of the old voters meets every majority of the new.
\<close>

theorem membership_change_safe:
  assumes wf: "config_wf (cfg c)" "config_wf cf"
    and accepted: "check_membership c cf own = Inr ()"
  shows "role c = Leader \<and> own = Yes \<and> cfg_version cf = cfg_version (cfg c) + 1 \<and>
    cfg_term cf = cur_term c \<and>
    (\<exists>!n. standing_of (cfg c) n \<noteq> standing_of cf n) \<and>
    (contains cf (self_id c) \<longleftrightarrow> contains (cfg c) (self_id c)) \<and>
    (\<forall>n. contains cf n \<and> \<not> contains (cfg c) n \<longrightarrow> standing_of (cfg c) n = Learner \<and>
       (\<exists>p. progress c n = Some p \<and> commit c \<le> p_matched p)) \<and>
    (\<forall>n. contains (cfg c) n \<and> \<not> contains cf n \<longrightarrow> standing_of cf n = Learner) \<and>
    majority (cfg c) {n \<in> set (members (cfg c)).
      case acked c n of None \<Rightarrow> False | Some a \<Rightarrow> cfg_at_le (config_at (cfg c)) a} \<and>
    (\<forall>P Q. majority (cfg c) P \<longrightarrow> majority cf Q \<longrightarrow> P \<inter> Q \<noteq> {})"
proof -
  let ?m = "\<lambda>c. set (members c)"
  have acc: "role c = Leader" "own = Yes" "check_shape c cf = Inr ()" "\<not> change_in_flight c"
    using accepted by (auto simp: check_membership_Inr)
  then obtain n where n: "{m. standing_of (cfg c) m \<noteq> standing_of cf m} = {n}"
      "check_move c n (standing_of (cfg c) n) (standing_of cf n) = Inr ()"
      "cfg_version cf = cfg_version (cfg c) + 1" "cfg_term cf = cur_term c"
    by (auto simp: check_shape_Inr)
  have same: "standing_of (cfg c) m = standing_of cf m" if "m \<noteq> n" for m using n(1) that by blast
  have diff: "standing_of (cfg c) n \<noteq> standing_of cf n" using n(1) by blast
  have voters: "m \<in> ?m (cfg c) \<longleftrightarrow> m \<in> ?m cf" if "m \<noteq> n" for m
    using same[OF that] by (metis standing_iff(1))
  have sub: "?m (cfg c) - ?m cf \<subseteq> {n}" "?m cf - ?m (cfg c) \<subseteq> {n}" using voters by auto
  have meet: "P \<inter> Q \<noteq> {}" if "majority (cfg c) P" "majority cf Q" for P Q
  proof (cases "?m (cfg c) \<subseteq> ?m cf")
    case True
    have "card (?m cf - ?m (cfg c)) \<le> card {n}" using sub(2) by (intro card_mono) auto
    then show ?thesis using adjacent_majorities_meet[OF wf True _ that] by simp
  next
    case False
    then have "?m cf \<subseteq> ?m (cfg c)" using sub voters by blast
    moreover have "card (?m (cfg c) - ?m cf) \<le> card {n}" using sub(1) by (intro card_mono) auto
    ultimately show ?thesis using adjacent_majorities_meet[OF wf(2,1) _ _ that(2,1)] by auto
  qed
  have held: "majority (cfg c) {n \<in> ?m (cfg c).
      case acked c n of None \<Rightarrow> False | Some a \<Rightarrow> cfg_at_le (config_at (cfg c)) a}"
    using acc(4) length_filter_card[OF config_wf_distinct[OF wf(1)]]
    by (auto simp: majority_def change_in_flight_def config_is_durable_on_a_majority_def
        config_holders_def)
  have gain: "standing_of (cfg c) m = Learner \<and> (\<exists>p. progress c m = Some p \<and> commit c \<le> p_matched p)"
    if "contains cf m" "\<not> contains (cfg c) m" for m
    using that n(2) voters[of m]
    by (cases "m = n") (auto simp: contains_def caught_up_Inr standing_iff check_move_Inr)
  have lose: "standing_of cf m = Learner" if "contains (cfg c) m" "\<not> contains cf m" for m
    using that n(2) voters[of m]
    by (cases "m = n") (auto simp: contains_def standing_iff check_move_Inr)
  have self: "contains cf (self_id c) \<longleftrightarrow> contains (cfg c) (self_id c)"
    using n(2) diff voters[of "self_id c"]
    by (cases "self_id c = n") (auto simp: contains_def standing_iff check_move_Inr)
  have "\<exists>!n. standing_of (cfg c) n \<noteq> standing_of cf n"
    by (rule ex1I[of _ n]) (use same diff in auto)
  with acc n(3,4) meet held gain lose self show ?thesis by blast
qed

text \<open>A leader of three voters with a learner that has caught up.\<close>

definition sample_config :: config where
  "sample_config = \<lparr>members = [1, 2, 3], learners = [4], cfg_version = 1, cfg_term = 1\<rparr>"

definition sample_leader :: consensus where
  "sample_leader =
     \<lparr>self_id = 1, role = Leader, hard = \<lparr>hs_term = 5, hs_voted_for = Some 1\<rparr>, leader = Some 1,
      cfg = sample_config, campaign = None,
      acked = [1 \<mapsto> config_at sample_config, 2 \<mapsto> config_at sample_config], behind = False,
      unjoined = False, since_heard = 0, since_quorum = 0, election_timeout = 13, election_base = 10,
      lease = 8, heartbeat = 3, since_heartbeat = 0, votes = {},
      progress = [1 \<mapsto> progress_default, 4 \<mapsto> progress_default], commit = 0, applied = 0,
      durable = 0, last_term = 0, last_round = 0, snapshot_round = 0, snapshot_term = 0, rng = 7\<rparr>"

lemma sample_config_wf: "config_wf (cfg sample_leader)"
  by (simp add: sample_leader_def sample_config_def config_wf_def)

theorem membership_change_safe_witness:
  "check_membership sample_leader (adding (cfg sample_leader) 4 5) Yes = Inr () \<and>
   contains (adding (cfg sample_leader) 4 5) 4 \<and> \<not> contains (cfg sample_leader) 4 \<and>
   {1, 2} \<inter> {2, 3, 4} \<noteq> ({} :: node_id set)"
proof (intro conjI)
  show ok: "check_membership sample_leader (adding (cfg sample_leader) 4 5) Yes = Inr ()" by code_simp
  show "contains (adding (cfg sample_leader) 4 5) 4" "\<not> contains (cfg sample_leader) 4" by code_simp+
  have "members (cfg sample_leader) = [1, 2, 3]" "members (adding (cfg sample_leader) 4 5) = [1, 2, 3, 4]"
    by code_simp+
  then have "majority (cfg sample_leader) {1, 2}" "majority (adding (cfg sample_leader) 4 5) {2, 3, 4}"
    by (simp_all add: majority_def has_quorum_def quorum_def)
  then show "{1, 2} \<inter> {2, 3, 4} \<noteq> ({} :: node_id set)"
    using membership_change_safe[OF sample_config_wf config_wf_simps(1) ok] by blast
qed

section \<open>The planner, against a specification on sets\<close>

text \<open>
  What each change asks for, and the sets of voters and learners it leads to. A change of the last
  voter to a learner is not allowed, since it would leave nobody to elect a leader.
\<close>

fun change_allowed :: "consensus \<Rightarrow> change \<Rightarrow> bool" where
  "change_allowed c (AddLearner n) \<longleftrightarrow> standing_of (cfg c) n = Absent"
| "change_allowed c (Promote n) \<longleftrightarrow> standing_of (cfg c) n = Learner \<and> n \<noteq> self_id c \<and>
     (\<exists>p. progress c n = Some p \<and> commit c \<le> p_matched p)"
| "change_allowed c (Demote n) \<longleftrightarrow> standing_of (cfg c) n = Voter \<and> n \<noteq> self_id c \<and>
     set (members (cfg c)) \<noteq> {n}"
| "change_allowed c (Remove n) \<longleftrightarrow> standing_of (cfg c) n = Learner"

fun voters_after :: "change \<Rightarrow> config \<Rightarrow> node_id set" where
  "voters_after (Promote n) cf = insert n (set (members cf))"
| "voters_after (Demote n) cf = set (members cf) - {n}"
| "voters_after _ cf = set (members cf)"

fun learners_after :: "change \<Rightarrow> config \<Rightarrow> node_id set" where
  "learners_after (AddLearner n) cf = insert n (set (learners cf))"
| "learners_after (Promote n) cf = set (learners cf) - {n}"
| "learners_after (Demote n) cf = insert n (set (learners cf))"
| "learners_after (Remove n) cf = set (learners cf) - {n}"

definition moves_to :: "consensus \<Rightarrow> change \<Rightarrow> config \<Rightarrow> bool" where
  "moves_to c ch t \<longleftrightarrow> config_wf t \<and> cfg_version t = cfg_version (cfg c) + 1 \<and>
     cfg_term t = cur_term c \<and> set (members t) = voters_after ch (cfg c) \<and>
     set (learners t) = learners_after ch (cfg c)"

lemma strict_set_eq: "sorted_wrt (<) xs \<Longrightarrow> sorted_wrt (<) ys \<Longrightarrow> set xs = set ys \<Longrightarrow> xs = (ys :: nat list)"
  by (simp add: strict_sorted_equal)

lemma moves_to_unique: "moves_to c ch t \<Longrightarrow> moves_to c ch u \<Longrightarrow> t = u"
  by (cases t; cases u) (auto simp: moves_to_def config_wf_def intro: strict_set_eq)

lemma sorted_new: "sorted_wrt (<) (dedup (sort (xs :: node_id list)))"
  by (simp add: dedup_sorted)

lemma target_sets:
  "set (members (adding cf n t)) = insert n (set (members cf))"
  "set (learners (adding cf n t)) = set (learners cf) - {n} - set (members cf)"
  "set (members (removing cf n t)) = set (members cf) - {n}"
  "set (learners (removing cf n t)) = set (learners cf) - {n} - set (members cf)"
  "set (members (adding_learner cf n t)) = set (members cf)"
  "set (learners (adding_learner cf n t)) = insert n (set (learners cf)) - set (members cf)"
  "set (members (demoting cf n t)) = set (members cf) - {n}"
  "set (learners (demoting cf n t)) = insert n (set (learners cf)) - (set (members cf) - {n})"
  by (auto simp: adding_def removing_def adding_learner_def demoting_def sorted_new set_learners_with)

lemma target_stamps:
  "cfg_version (adding cf n t) = cfg_version cf + 1" "cfg_term (adding cf n t) = t"
  "cfg_version (removing cf n t) = cfg_version cf + 1" "cfg_term (removing cf n t) = t"
  "cfg_version (adding_learner cf n t) = cfg_version cf + 1" "cfg_term (adding_learner cf n t) = t"
  "cfg_version (demoting cf n t) = cfg_version cf + 1" "cfg_term (demoting cf n t) = t"
  "config_wf (demoting cf n t)"
  by (simp_all add: adding_def removing_def adding_learner_def demoting_def with_learners_wf sorted_new)

lemma target_config_Inr:
  "target_config c ch = Inr t \<longleftrightarrow>
     (case ch of
        AddLearner n \<Rightarrow> standing_of (cfg c) n = Absent \<and> t = adding_learner (cfg c) n (cur_term c)
      | Promote n \<Rightarrow> standing_of (cfg c) n = Learner \<and> n \<noteq> self_id c \<and>
          check_caught_up c n = Inr () \<and> t = adding (cfg c) n (cur_term c)
      | Demote n \<Rightarrow> standing_of (cfg c) n = Voter \<and> n \<noteq> self_id c \<and>
          t = demoting (cfg c) n (cur_term c)
      | Remove n \<Rightarrow> standing_of (cfg c) n = Learner \<and> t = removing (cfg c) n (cur_term c))"
  by (cases ch) (auto simp: rbind_Inr check_not_self_def split: standing.split)

lemma target_moves:
  assumes wf: "config_wf (cfg c)" and t: "target_config c ch = Inr t"
  shows "moves_to c ch t"
proof -
  have disj: "set (members (cfg c)) \<inter> set (learners (cfg c)) = {}" using wf by (simp add: config_wf_def)
  show ?thesis
  proof (cases ch)
    case (AddLearner n)
    with t[unfolded target_config_Inr] disj show ?thesis
      by (auto simp: moves_to_def target_sets target_stamps standing_iff)
  next
    case (Promote n)
    with t[unfolded target_config_Inr] disj show ?thesis
      by (auto simp: moves_to_def target_sets target_stamps standing_iff)
  next
    case (Demote n)
    with t[unfolded target_config_Inr] disj show ?thesis
      by (auto simp: moves_to_def target_sets target_stamps standing_iff)
  next
    case (Remove n)
    with t[unfolded target_config_Inr] disj show ?thesis
      by (auto simp: moves_to_def target_sets target_stamps standing_iff)
  qed
qed

lemma target_allowed:
  assumes "config_wf (cfg c)" "target_config c ch = Inr t" "\<not> config_is_empty t"
  shows "change_allowed c ch"
  using assms(2)[unfolded target_config_Inr] assms(3) target_moves[OF assms(1,2)]
  by (cases ch) (auto simp: caught_up_Inr moves_to_def config_is_empty_def)

lemma allowed_target: "change_allowed c ch \<Longrightarrow> \<exists>t. target_config c ch = Inr t"
  unfolding target_config_Inr by (cases ch) (auto simp: caught_up_Inr)

text \<open>A planned target always passes the shape check: the planner refuses nothing it allowed.\<close>

lemma moves_shape:
  assumes wf: "config_wf (cfg c)" and ch: "change_allowed c ch" and t: "moves_to c ch t"
    and ne: "members (cfg c) \<noteq> []"
  shows "check_shape c t = Inr ()"
proof -
  obtain n where n: "ch = AddLearner n \<or> ch = Promote n \<or> ch = Demote n \<or> ch = Remove n"
    by (cases ch) auto
  have st: "standing_of t m = (if m \<in> voters_after ch (cfg c) then Voter
      else if m \<in> learners_after ch (cfg c) then Learner else Absent)" for m
    using t by (simp add: standing_of_def contains_def moves_to_def)
  have disj: "set (members (cfg c)) \<inter> set (learners (cfg c)) = {}" using wf by (simp add: config_wf_def)
  have old: "standing_of (cfg c) m = (if m \<in> set (members (cfg c)) then Voter
      else if m \<in> set (learners (cfg c)) then Learner else Absent)" for m
    by (simp add: standing_of_def contains_def)
  have one: "standing_of (cfg c) m \<noteq> standing_of t m \<longleftrightarrow> m = n" for m
    using n ch disj unfolding st old by (elim disjE) (auto simp: standing_iff split: if_split_asm)
  have "check_move c n (standing_of (cfg c) n) (standing_of t n) = Inr ()"
    using n ch disj unfolding st old check_move_Inr caught_up_Inr
    by (elim disjE) (auto simp: standing_iff)
  moreover have "{m. standing_of (cfg c) m \<noteq> standing_of t m} = {n}" using one by auto
  moreover have "set (members t) \<noteq> {}"
    using n ch ne t by (auto simp: moves_to_def standing_iff)
  ultimately show ?thesis
    using t by (auto simp: check_shape_Inr moves_to_def config_is_empty_def)
qed

text \<open>
  (C25) The planner computes exactly the specified change. For a well-formed configuration in force,
  \<open>plan_change\<close> returns a configuration if and only if this node leads, an entry of its own term is
  committed, no change is in flight and the change is one \<open>change_allowed\<close> admits; and the
  configuration it returns is then the one well-formed configuration with the next version, this
  term, and the voters and learners the change asks for.
\<close>

theorem plan_change_exact:
  assumes wf: "config_wf (cfg c)"
  shows "plan_change c ch own = Inr t \<longleftrightarrow>
    role c = Leader \<and> own = Yes \<and> \<not> change_in_flight c \<and> change_allowed c ch \<and> moves_to c ch t"
proof
  assume p: "plan_change c ch own = Inr t"
  then have *: "target_config c ch = Inr t" "check_membership c t own = Inr ()"
    by (auto simp: plan_change_def rbind_Inr split: if_splits)
  with target_moves[OF wf *(1)] target_allowed[OF wf *(1)]
  show "role c = Leader \<and> own = Yes \<and> \<not> change_in_flight c \<and> change_allowed c ch \<and> moves_to c ch t"
    by (auto simp: check_membership_Inr check_shape_Inr)
next
  assume a: "role c = Leader \<and> own = Yes \<and> \<not> change_in_flight c \<and> change_allowed c ch \<and> moves_to c ch t"
  then obtain u where u: "target_config c ch = Inr u" using allowed_target by blast
  then have "u = t" using a target_moves[OF wf u] moves_to_unique by blast
  moreover have "members (cfg c) \<noteq> []"
    using a by (auto simp: change_in_flight_def config_is_durable_on_a_majority_def has_quorum_def)
  ultimately show "plan_change c ch own = Inr t"
    using a u moves_shape[OF wf, of ch t]
    by (simp add: plan_change_def check_membership_Inr rbind_Inr)
qed

theorem plan_change_exact_witness:
  "plan_change sample_leader (Promote 4) Yes = Inr (adding (cfg sample_leader) 4 5) \<and>
   moves_to sample_leader (Promote 4) (adding (cfg sample_leader) 4 5)"
proof -
  have p: "plan_change sample_leader (Promote 4) Yes = Inr (adding (cfg sample_leader) 4 5)"
    by code_simp
  from plan_change_exact[OF sample_config_wf] p show ?thesis by blast
qed

end
