(* ===== verification/Snapshot_Transfer.thy ===== *)
theory Snapshot_Transfer
  imports Membership
begin

text \<open>
  The protocol half of \<open>consensus/snapshot.rs\<close>: taking a checkpoint, offering a snapshot, streaming it
  in chunks, accepting it chunk by chunk under a running digest, and installing it.

  \<open>accept_chunk\<close> is the body of \<open>on_install_snapshot\<close> from the point where the held cursor is read: what
  becomes of the cursor, and how many bytes are acknowledged.
\<close>

section \<open>Checkpoints and offers\<close>

definition snapshot_point_of :: "consensus \<Rightarrow> snapshot_point option" where
  "snapshot_point_of c =
     (if applied c = 0 then None
      else case term_at c (applied c) of None \<Rightarrow> None
      | Some t \<Rightarrow>
          (case digest_at c (applied c) of None \<Rightarrow> None
           | Some d \<Rightarrow> Some \<lparr>sp_last_round = applied c, sp_last_term = t, sp_config = cfg c,
                            sp_base_digest = d\<rparr>))"

definition digest_or_0 :: "consensus \<Rightarrow> nat \<Rightarrow> u64" where
  "digest_or_0 c r = (case digest_at c r of None \<Rightarrow> 0 | Some d \<Rightarrow> d)"

definition compact :: "nat \<Rightarrow> consensus \<Rightarrow> step \<times> (snapshot_error + unit)" where
  "compact through c =
     (if through \<le> snapshot_round c then (done_with c, Inr ())
      else if applied c < through then (done_with c, Inl (Refused ''not applied''))
      else if last_round c < through then (done_with c, Inl (Refused ''past the log''))
      else case term_at c through of
        None \<Rightarrow> (done_with c, Inl (Refused ''unknown term''))
      | Some t \<Rightarrow>
          (andthen (compact_tail through (digest_or_0 c through) c) (\<lambda>c.
             done_with (c\<lparr>snapshot_round := through, snapshot_term := t\<rparr>)), Inr ()))"

definition floor_digest :: "consensus \<Rightarrow> u64" where
  "floor_digest c = digest_or_0 c (snapshot_round c)"

text \<open>Membership in the list \<open>peers_needing_snapshot\<close> returns.\<close>

definition peer_needs_snapshot :: "consensus \<Rightarrow> node_id \<Rightarrow> bool" where
  "peer_needs_snapshot c n \<longleftrightarrow>
     role c = Leader \<and> n \<noteq> self_id c \<and>
     (case progress c n of None \<Rightarrow> False | Some p \<Rightarrow> p_needs_snapshot p \<and> p_sending p = None)"

text \<open>The refusals of \<open>offer_snapshot_to\<close>, in the order it makes them.\<close>

definition check_offer :: "node_id \<Rightarrow> snapshot \<Rightarrow> consensus \<Rightarrow> snapshot_error + unit" where
  "check_offer peer snap c =
     (let m = sn_meta snap in
      if role c \<noteq> Leader then Inl (Refused ''not the leader'')
      else if \<not> is_known (cfg c) peer then Inl (Refused ''unknown peer'')
      else rbind (validate m) (\<lambda>_.
        if applied c < sm_last_round m then Inl (Refused ''covers rounds not applied'')
        else if sm_last_round m < snapshot_round c then Inl (Refused ''below the floor'')
        else case term_at c (sm_last_round m) of
          None \<Rightarrow> Inl (Refused ''unknown term'')
        | Some t \<Rightarrow>
            if t \<noteq> sm_last_term m then Inl (Refused ''another history'')
            else if ph_base_digest (sn_header snap) \<noteq> digest_or_0 c (sm_last_round m)
            then Inl (Refused ''base digest'')
            else Inr ()))"

definition offer_snapshot_to :: "node_id \<Rightarrow> snapshot \<Rightarrow> consensus \<Rightarrow> consensus \<times> (snapshot_error + unit)" where
  "offer_snapshot_to peer snap c =
     (case check_offer peer snap c of
        Inl e \<Rightarrow> (c, Inl e)
      | Inr _ \<Rightarrow> (upd_progress peer (\<lambda>p. p\<lparr>p_needs_snapshot := True,
                   p_sending := Some \<lparr>sc_snapshot = snap, sc_acked = 0\<rparr>\<rparr>) c, Inr ()))"

section \<open>The leader's side\<close>

definition sc_total :: "send_cursor \<Rightarrow> nat" where
  "sc_total cur = sm_total_bytes (sn_meta (sc_snapshot cur))"

definition sc_round :: "send_cursor \<Rightarrow> nat" where
  "sc_round cur = sm_last_round (sn_meta (sc_snapshot cur))"

definition on_install_snapshot_resp :: "node_id \<Rightarrow> nat \<Rightarrow> consensus \<Rightarrow> step" where
  "on_install_snapshot_resp from received_through c =
     (if role c \<noteq> Leader \<or> from = self_id c then done_with c
      else if \<not> is_known (cfg c) from then done_with c
      else
        (let c = upd_progress from (\<lambda>p. p\<lparr>p_silent := 0\<rparr>) c in
         case p_sending (progress_entry c from) of
           None \<Rightarrow> done_with c
         | Some cur \<Rightarrow>
             if sc_total cur < received_through then done_with c
             else if received_through = sc_acked cur then done_with c
             else if received_through = sc_total cur then
               send_append_to from (upd_progress from (\<lambda>p. p\<lparr>p_sending := None,
                 p_needs_snapshot := False, p_next := sc_round cur + 1\<rparr>) c)
             else
               send_snapshot_chunk_to from (upd_progress from (\<lambda>p. p\<lparr>p_sending :=
                 Some (cur\<lparr>sc_acked := received_through\<rparr>)\<rparr>) c)))"

section \<open>The follower's side\<close>

definition set_receiving :: "recv_cursor option \<Rightarrow> consensus \<Rightarrow> consensus" where
  "set_receiving r c = upd_progress (self_id c) (\<lambda>p. p\<lparr>p_receiving := r\<rparr>) c"

definition ack_snapshot :: "node_id \<Rightarrow> nat \<Rightarrow> consensus \<Rightarrow> step" where
  "ack_snapshot dest n c = emit c [send_to c dest (InstallSnapshotResp n)]"

definition refuse_snapshot :: "node_id \<Rightarrow> consensus \<Rightarrow> step" where
  "refuse_snapshot dest c =
     ack_snapshot dest (case snapshot_incoming c of None \<Rightarrow> 0 | Some cur \<Rightarrow> rc_received cur) c"

datatype chunk_outcome = RefuseChunk | Answer nat | Hold recv_cursor | DropCursor

text \<open>The cursor a chunk is to be judged against, or the answer if there is none.\<close>

definition pick_cursor :: "recv_cursor option \<Rightarrow> snapshot_meta \<Rightarrow> nat \<Rightarrow> byte list \<Rightarrow>
    chunk_outcome + recv_cursor" where
  "pick_cursor held meta offset data =
     (if offset = 0 then
        (case header_decode data of
           Inl e \<Rightarrow> Inl RefuseChunk
         | Inr header \<Rightarrow>
             if ph_last_round header \<noteq> sm_last_round meta \<or> ph_last_term header \<noteq> sm_last_term meta \<or>
                header_total_bytes header \<noteq> sm_total_bytes meta then Inl RefuseChunk
             else
               (let fresh = \<lparr>rc_meta = meta, rc_header = header, rc_received = 0,
                             rc_body_digest = FNV_OFFSET, rc_complete = False\<rparr> in
                case held of
                  Some cur \<Rightarrow> if rc_header cur = header \<and> 0 < rc_received cur then Inl (Hold cur)
                              else Inr fresh
                | None \<Rightarrow> Inr fresh))
      else
        (case held of
           Some cur \<Rightarrow> if rc_meta cur = meta then Inr cur else Inl (Answer 0)
         | None \<Rightarrow> Inl (Answer 0)))"

text \<open>Taking the bytes of a chunk into the cursor: the digest covers what follows the header.\<close>

definition absorb :: "byte list \<Rightarrow> recv_cursor \<Rightarrow> recv_cursor" where
  "absorb data cur =
     (let body_from = HEADER_BYTES - rc_received cur in
      cur\<lparr>rc_body_digest := (if body_from < length data
             then fnv64_update (rc_body_digest cur) (drop body_from data) else rc_body_digest cur),
          rc_received := rc_received cur + length data\<rparr>)"

definition accept_chunk :: "recv_cursor option \<Rightarrow> snapshot_meta \<Rightarrow> nat \<Rightarrow> byte list \<Rightarrow> bool \<Rightarrow>
    chunk_outcome" where
  "accept_chunk held meta offset data fin =
     (case pick_cursor held meta offset data of
        Inl out \<Rightarrow> out
      | Inr cur \<Rightarrow>
          if rc_complete cur then Hold cur
          else if offset \<noteq> rc_received cur then Hold cur
          else if sm_total_bytes meta < rc_received cur + length data then RefuseChunk
          else
            (let cur = absorb data cur in
             if fin then
               (case completion_verdict (rc_received cur) (sm_total_bytes meta) (rc_body_digest cur)
                      (ph_body_digest (rc_header cur)) of
                  Inr _ \<Rightarrow> Hold (cur\<lparr>rc_complete := True\<rparr>)
                | Inl LengthFault \<Rightarrow> Hold cur
                | Inl DigestFault \<Rightarrow> DropCursor)
             else Hold cur))"

text \<open>Accepting the sender as leader, as both the append path and the snapshot path begin.\<close>

definition adopt_leader :: "node_id \<Rightarrow> nat \<Rightarrow> consensus \<Rightarrow> step" where
  "adopt_leader from t c =
     (let adopting = (leader c \<noteq> Some from) in
      andthen (if role c \<noteq> Follower \<or> adopting \<or> cur_term c \<noteq> t
               then become_follower t (Some from) c else done_with (c\<lparr>since_heard := 0\<rparr>)) (\<lambda>c.
        done_with (if adopting then set_agreed 0 c else c)))"

definition on_install_snapshot ::
  "node_id \<Rightarrow> nat \<Rightarrow> snapshot_meta \<Rightarrow> nat \<Rightarrow> byte list \<Rightarrow> bool \<Rightarrow> consensus \<Rightarrow> step" where
  "on_install_snapshot from t meta offset data fin c =
     (if \<not> isOk (validate meta) then refuse_snapshot from c
      else if config_at (sm_config meta) = config_at (cfg c) \<and> sm_config meta \<noteq> cfg c
      then refuse_snapshot from c
      else andthen (adopt_leader from t c) (\<lambda>c.
        if sm_last_round meta \<le> snapshot_round c then ack_snapshot from (sm_total_bytes meta) c
        else if term_at c (sm_last_round meta) = Some (sm_last_term meta)
        then ack_snapshot from (sm_total_bytes meta) c
        else
          (case accept_chunk (snapshot_incoming c) meta offset data fin of
             RefuseChunk \<Rightarrow> refuse_snapshot from c
           | Answer n \<Rightarrow> ack_snapshot from n c
           | Hold cur \<Rightarrow> ack_snapshot from (rc_received cur) (set_receiving (Some cur) c)
           | DropCursor \<Rightarrow> ack_snapshot from 0 (set_receiving None c))))"

section \<open>Installing\<close>

definition pending_install_round :: "consensus \<Rightarrow> nat option" where
  "pending_install_round c =
     (case snapshot_incoming c of None \<Rightarrow> None
      | Some cur \<Rightarrow> if rc_complete cur then Some (sm_last_round (rc_meta cur)) else None)"

text \<open>The assignments of \<open>finish_install\<close>, once the configuration is noted.\<close>

definition installed :: "recv_cursor \<Rightarrow> consensus \<Rightarrow> consensus" where
  "installed cur c =
     (let r = sm_last_round (rc_meta cur); t = sm_last_term (rc_meta cur);
          c = c\<lparr>snapshot_round := r, snapshot_term := t, last_round := r, last_term := t\<rparr>;
          c = install_snapshot_tail r (ph_base_digest (rc_header cur)) c;
          c = c\<lparr>durable := r, commit := max (commit c) r, applied := max (applied c) r\<rparr>
      in set_receiving None (set_agreed r c))"

definition finish_install :: "consensus \<Rightarrow> step \<times> unit result" where
  "finish_install c =
     (case snapshot_incoming c of
        None \<Rightarrow> (done_with c, Inr ())
      | Some cur \<Rightarrow>
          if \<not> rc_complete cur then (done_with c, Inr ())
          else
            (case note_config_in_log (sm_config (rc_meta cur)) c of
               (h, Inl e) \<Rightarrow> (h, Inl e)
             | (h, Inr _) \<Rightarrow> (andthen h (\<lambda>c. done_with (installed cur c)), Inr ())))"

section \<open>The laws\<close>

lemma sound_ack_snapshot: "node_ok c \<Longrightarrow> quiet.sound c (ack_snapshot dest n c)"
  by (simp add: ack_snapshot_def sound_send)

lemma sound_refuse_snapshot: "node_ok c \<Longrightarrow> quiet.sound c (refuse_snapshot dest c)"
  by (simp add: refuse_snapshot_def sound_ack_snapshot)

lemma sound_via:
  "quiet_law c d [] \<Longrightarrow> quiet.sound d m \<Longrightarrow> quiet.sound c m"
  using quiet.sound_from[of c d "[]" m] by (simp add: quiet.sound_def)

lemma sound_via_upd:
  "harmless c n f \<Longrightarrow> quiet.sound (upd_progress n f c) m \<Longrightarrow> quiet.sound c m"
  by (rule sound_via[OF quiet_upd])

lemma sound_install_resp:
  assumes ok: "node_ok c"
  shows "quiet.sound c (on_install_snapshot_resp src n c)"
proof (cases "role c \<noteq> Leader \<or> src = self_id c \<or> \<not> is_known (cfg c) src")
  case True
  then show ?thesis by (auto simp: on_install_snapshot_resp_def quiet.sound_done ok)
next
  case False
  then have peer: "src \<noteq> self_id c" by simp
  let ?c = "upd_progress src (\<lambda>p. p\<lparr>p_silent := 0\<rparr>) c"
  have h: "harmless d src f" if "self_id d = self_id c" for d f
    using peer that by (simp add: harmless_def)
  have ok1: "node_ok ?c" by (intro node_ok_upd ok h) simp
  have upd: "quiet.sound ?c (m (upd_progress src f ?c))"
    if "\<And>d. node_ok d \<Longrightarrow> quiet.sound d (m d)" for m f
    by (rule sound_via_upd[of _ src f]) (auto intro!: that node_ok_upd ok1 h)
  have "quiet.sound ?c (on_install_snapshot_resp src n c)"
    using False ok1
    by (auto simp: on_install_snapshot_resp_def Let_def quiet.sound_done split: option.split
        intro!: upd sound_send_append sound_send_chunk)
  then show ?thesis by (rule sound_via_upd[rotated]) (simp add: h)
qed

lemma quiet_set_agreed:
  "node_ok c \<Longrightarrow> r \<le> last_round c \<Longrightarrow> quiet.sound c (done_with (set_agreed r c))"
  by (intro quiet.sound_upd quiet_same) (auto simp: set_agreed_def node_ok_def)

lemma sound_adopt:
  assumes ok: "node_ok c" and t: "cur_term c \<le> t" "t \<le> u64_max"
  shows "quiet.sound c (adopt_leader from t c)"
proof -
  have "quiet.sound c (done_with (c\<lparr>since_heard := 0\<rparr>))" by (rule sound_idle[OF ok]) simp_all
  then have first: "quiet.sound c (if role c \<noteq> Follower \<or> b \<or> cur_term c \<noteq> t
      then become_follower t (Some from) c else done_with (c\<lparr>since_heard := 0\<rparr>))" for b
    using sound_become_follower[OF ok t] by simp
  show ?thesis
    unfolding adopt_leader_def Let_def
    by (rule quiet.sound_andthen[OF first]) (auto intro: quiet_set_agreed quiet.sound_done)
qed

lemma adopt_follower: "adopt_leader from t c = Some (d, as) \<Longrightarrow> role d = Follower"
  by (auto simp: adopt_leader_def become_follower_def emit_def done_with_def andthen_def Let_def
      set_agreed_def split: if_splits)

lemma node_ok_receiving: "node_ok c \<Longrightarrow> role c \<noteq> Leader \<Longrightarrow> node_ok (set_receiving r c)"
  by (auto simp: node_ok_def set_receiving_def)

lemma quiet_receiving: "quiet_law c (set_receiving r c) []"
  by (rule quiet_same) (simp_all add: set_receiving_def)

lemma sound_on_install_snapshot:
  assumes ok: "node_ok c" and t: "cur_term c \<le> t" "t \<le> u64_max"
  shows "quiet.sound c (on_install_snapshot from t meta offset data fin c)"
proof -
  have recv: "quiet.sound d (ack_snapshot from n (set_receiving r d))"
    if "node_ok d" "role d = Follower" for d n r
    by (rule sound_via[OF quiet_receiving[of d r]])
      (intro sound_ack_snapshot node_ok_receiving, use that in auto)
  have rest: "quiet.sound d (if sm_last_round meta \<le> snapshot_round d
        then ack_snapshot from (sm_total_bytes meta) d
        else if term_at d (sm_last_round meta) = Some (sm_last_term meta)
        then ack_snapshot from (sm_total_bytes meta) d
        else
          (case accept_chunk (snapshot_incoming d) meta offset data fin of
             RefuseChunk \<Rightarrow> refuse_snapshot from d
           | Answer n \<Rightarrow> ack_snapshot from n d
           | Hold cur \<Rightarrow> ack_snapshot from (rc_received cur) (set_receiving (Some cur) d)
           | DropCursor \<Rightarrow> ack_snapshot from 0 (set_receiving None d)))"
    if "node_ok d" "role d = Follower" for d
    using that by (auto intro: sound_ack_snapshot sound_refuse_snapshot recv split: chunk_outcome.split)
  show ?thesis
    unfolding on_install_snapshot_def
    by (auto intro!: sound_refuse_snapshot ok quiet.sound_andthen[OF sound_adopt[OF ok t]] rest
        dest: adopt_follower)
qed

lemma installed_law:
  assumes "node_ok c" "role c \<noteq> Leader"
  shows "node_ok (installed cur c)" "quiet_law c (installed cur c) []"
proof -
  show "node_ok (installed cur c)"
    using assms
    by (auto simp: installed_def Let_def node_ok_def log_ok_def term_at_def set_receiving_def
        set_agreed_def install_snapshot_tail_def set_own_tail_def)
  show "quiet_law c (installed cur c) []"
    using assms
    by (auto simp: installed_def Let_def quiet_law_def evolves_def calm_def set_receiving_def
        set_agreed_def install_snapshot_tail_def set_own_tail_def)
qed

lemma sound_finish_install:
  assumes ok: "node_ok c"
  shows "quiet.sound c (fst (finish_install c))"
proof (cases "snapshot_incoming c")
  case (Some cur)
  then have nl: "role c \<noteq> Leader" using ok by (auto simp: node_ok_def)
  note note_ok = sound_note_config[OF ok, of "sm_config (rc_meta cur)"]
  obtain h r where hr: "note_config_in_log (sm_config (rc_meta cur)) c = (h, r)" by fastforce
  have "quiet.sound c (andthen h (\<lambda>c. done_with (installed cur c)))"
  proof (rule quiet.sound_andthen)
    show "quiet.sound c h" using note_ok hr by simp
  next
    fix d as
    assume "node_ok d" "quiet_law c d as"
    then show "quiet.sound d (done_with (installed cur d))"
      using nl by (intro quiet.sound_upd installed_law) (auto simp: quiet_law_def calm_def)
  qed
  with note_ok hr Some show ?thesis
    by (auto simp: finish_install_def quiet.sound_done ok split: sum.split)
qed (simp add: finish_install_def quiet.sound_done ok)

end
