(* ===== verification/Replicate.thy ===== *)
theory Replicate
  imports Snapshot_Transfer
begin

text \<open>
  The handlers of \<open>consensus/replicate.rs\<close>: accepting an \<open>Append\<close>, counting its answers, learning that
  entries are durable, and proposing. \<open>on_append\<close> is cut where the source's comments cut it: the scan
  for a conflict, the truncation, and taking the new entries.
\<close>

section \<open>Accepting entries\<close>

definition malformed :: "nat \<Rightarrow> nat \<Rightarrow> entry list \<Rightarrow> bool" where
  "malformed t prev es \<longleftrightarrow>
     list_ex (\<lambda>(k, e). e_round e \<noteq> prev + 1 + k \<or> t < e_term e) (enumerate 0 es)"

text \<open>The newest configuration among the entries: the greatest \<open>(version, term)\<close>.\<close>

definition newer :: "cfg_at option \<Rightarrow> cfg_at \<Rightarrow> cfg_at option" where
  "newer acc a = (case acc of None \<Rightarrow> Some a | Some b \<Rightarrow> Some (if cfg_at_less b a then a else b))"

definition newest_config :: "entry list \<Rightarrow> cfg_at option" where
  "newest_config es =
     fold (\<lambda>e acc. case e_command e of Membership cf \<Rightarrow> newer acc (config_at cf) | _ \<Rightarrow> acc) es None"

text \<open>How many leading entries the log already holds, and the first round that conflicts.\<close>

fun scan :: "consensus \<Rightarrow> entry list \<Rightarrow> nat \<times> nat option" where
  "scan c [] = (0, None)"
| "scan c (e # es) =
     (case term_at c (e_round e) of
        None \<Rightarrow> (0, None)
      | Some t \<Rightarrow>
          if t = e_term e then (case scan c es of (i, conflict) \<Rightarrow> (Suc i, conflict))
          else (0, Some (e_round e)))"

definition cut_conflict :: "nat \<Rightarrow> consensus \<Rightarrow> step" where
  "cut_conflict r c =
     (let c = set_own_tail
                ((truncate_from (tail_mut c) r)\<lparr>lt_rewritten_in_term := cur_term c\<rparr>) c;
          c = c\<lparr>last_round := r - 1\<rparr>
      in case term_at c (r - 1) of
           None \<Rightarrow> None
         | Some t \<Rightarrow>
             emit (c\<lparr>last_term := t,
                     durable := (if last_round c < durable c then last_round c else durable c)\<rparr>)
               [Truncate r])"

text \<open>Recording what the leader established, and appending what is new.\<close>

definition take_fresh :: "node_id \<Rightarrow> nat \<Rightarrow> entry list \<Rightarrow> nat \<Rightarrow> nat option \<Rightarrow> consensus \<Rightarrow> step" where
  "take_fresh from prev es i conflict c =
     (let established = prev + length es;
          a = (case conflict of None \<Rightarrow> agreed c | Some r \<Rightarrow> min (agreed c) (r - 1));
          c = set_agreed (max a established) c;
          fresh = drop i es
      in if fresh = [] then emit c [acknowledgement c from]
         else andthen (for_each fresh push_own c) (\<lambda>c.
           emit (c\<lparr>last_round := e_round (last fresh), last_term := e_term (last fresh)\<rparr>)
             [Persist fresh]))"

text \<open>The end of \<open>on_append\<close>: the commit watermark, the two flags, and applying.\<close>

definition learn_commit :: "entry list \<Rightarrow> nat \<Rightarrow> consensus \<Rightarrow> step" where
  "learn_commit es leader_commit c =
     (let learned = min leader_commit (agreed c);
          c = (if commit c < learned then c\<lparr>commit := learned\<rparr> else c);
          c = observe_quorum_watermark leader_commit c;
          c = (case newest_config es of None \<Rightarrow> c | Some a \<Rightarrow> observe_config_at a c)
      in advance_apply c)"

definition on_append ::
  "node_id \<Rightarrow> nat \<Rightarrow> nat \<Rightarrow> nat \<Rightarrow> entry list \<Rightarrow> nat \<Rightarrow> consensus \<Rightarrow> step" where
  "on_append from t prev prev_term es leader_commit c =
     (if malformed t prev es then emit c [refusal c from 0]
      else andthen (adopt_leader from t c) (\<lambda>c.
        if prev < snapshot_round c then emit c [refusal c from (snapshot_round c + 1)]
        else case term_at c prev of
          None \<Rightarrow> emit c [refusal c from (last_round c + 1)]
        | Some pt \<Rightarrow>
            if pt \<noteq> prev_term then emit c [refusal c from (first_round_of_term_run c prev)]
            else
              (case scan c es of
                 (i, None) \<Rightarrow> andthen (take_fresh from prev es i None c) (learn_commit es leader_commit)
               | (i, Some r) \<Rightarrow>
                   if r \<le> commit c then emit c [refusal c from (commit c + 1)]
                   else andthen (cut_conflict r c) (\<lambda>c.
                     andthen (take_fresh from prev es i (Some r) c) (learn_commit es leader_commit)))))"

section \<open>Counting answers\<close>

definition mark_diverged :: "node_id \<Rightarrow> nat \<Rightarrow> u64 \<Rightarrow> consensus \<Rightarrow> consensus" where
  "mark_diverged from matched digest c =
     (if digest \<noteq> 0 then
        (case digest_at c matched of
           Some mine \<Rightarrow>
             if mine \<noteq> digest
             then upd_progress from (\<lambda>p. if p_diverged p = None
                    then p\<lparr>p_diverged := Some (Diverged from matched digest mine)\<rparr> else p) c
             else c
         | None \<Rightarrow> c)
      else c)"

definition on_append_resp :: "node_id \<Rightarrow> bool \<Rightarrow> nat \<Rightarrow> nat \<Rightarrow> u64 \<Rightarrow> consensus \<Rightarrow> step" where
  "on_append_resp from success matched hint digest c =
     (if role c \<noteq> Leader \<or> from = self_id c then done_with c
      else if \<not> is_known (cfg c) from then done_with c
      else
        (let c = upd_progress from (\<lambda>p. p\<lparr>p_silent := 0\<rparr>) c in
         if \<not> success then
           (if hint = 0 then done_with c
            else if max hint 1 = p_next (progress_entry c from) then done_with c
            else send_append_to from (upd_progress from (\<lambda>p. p\<lparr>p_next := max hint 1\<rparr>) c))
         else
           (let c = mark_diverged from matched digest c in
            if last_round c < matched then done_with c
            else
              (let before = p_matched (progress_entry c from);
                   m = max before matched;
                   c = upd_progress from (\<lambda>p. p\<lparr>p_matched := m, p_next := max (p_next p) (m + 1),
                         p_needs_snapshot := False, p_sending := None\<rparr>) c
               in if commit_advances c then advance_commit c
                  else if before < m \<and> m < last_round c then send_append_to from c
                  else done_with c))))"

section \<open>Durability and proposals\<close>

definition raise_durable :: "nat \<Rightarrow> nat \<Rightarrow> consensus \<Rightarrow> consensus" where
  "raise_durable t r c =
     (let rewritten_in = (case own_tail c of None \<Rightarrow> 0 | Some lg \<Rightarrow> lt_rewritten_in_term lg);
          bounded = min r (last_round c)
      in if rewritten_in \<le> t \<and> durable c < bounded then c\<lparr>durable := bounded\<rparr> else c)"

definition after_durable :: "consensus \<Rightarrow> step" where
  "after_durable c =
     andthen
       (if role c = Leader
        then advance_commit (upd_progress (self_id c) (\<lambda>p. p\<lparr>p_matched := durable c\<rparr>) c)
        else (case leader c of None \<Rightarrow> done_with c | Some l \<Rightarrow> emit c [acknowledgement c l]))
       advance_apply"

definition on_persisted :: "nat \<Rightarrow> nat \<Rightarrow> consensus \<Rightarrow> step" where
  "on_persisted t r c =
     andthen (ensure_log c) (\<lambda>c.
       case (if pending_install_round c = Some r then finish_install c else (done_with c, Inr ())) of
         (h, Inl why) \<Rightarrow> andthen h (\<lambda>c. emit c [Refuse why])
       | (h, Inr _) \<Rightarrow> andthen h (\<lambda>c. after_durable (raise_durable t r c)))"

text \<open>The \<open>Display\<close> of a node id: \<open>n\<close> and the decimal number.\<close>

fun decimal :: "nat \<Rightarrow> string" where
  "decimal n = (if n < 10 then [char_of (48 + n)] else decimal (n div 10) @ [char_of (48 + n mod 10)])"

definition id_text :: "node_id \<Rightarrow> string" where
  "id_text n = CHR ''n'' # decimal n"

definition on_propose :: "command \<Rightarrow> consensus \<Rightarrow> step" where
  "on_propose cmd c =
     (if role c \<noteq> Leader then emit c [Refuse (NotLeader (map_option id_text (leader c)))]
      else andthen (ensure_log c) (\<lambda>c.
        case admit_entry \<lparr>e_term = cur_term c, e_round = last_round c + 1, e_command = cmd\<rparr> of
          Inl why \<Rightarrow> emit c [Refuse why]
        | Inr _ \<Rightarrow> andthen (append_own_entry cmd c) bcast_append))"

definition on_append_msg :: "message \<Rightarrow> consensus \<Rightarrow> step" where
  "on_append_msg m c =
     andthen (ensure_log c) (\<lambda>c.
       case m_body m of
         Append prev prev_term es lc \<Rightarrow> on_append (m_from m) (m_term m) prev prev_term es lc c
       | AppendResp success matched hint digest \<Rightarrow>
           on_append_resp (m_from m) success matched hint digest c
       | InstallSnapshot meta offset data fin \<Rightarrow>
           on_install_snapshot (m_from m) (m_term m) meta offset data fin c
       | InstallSnapshotResp n \<Rightarrow> on_install_snapshot_resp (m_from m) n c
       | _ \<Rightarrow> None)"

section \<open>What the scan finds\<close>

lemma well_formed_nth:
  assumes "\<not> malformed t prev es" "k < length es"
  shows "e_round (es ! k) = prev + 1 + k" "e_term (es ! k) \<le> t"
proof -
  have "(k, es ! k) \<in> set (enumerate 0 es)"
    using assms(2) by (simp add: in_set_enumerate_eq)
  then show "e_round (es ! k) = prev + 1 + k" "e_term (es ! k) \<le> t"
    using assms(1) by (auto simp: malformed_def list_ex_iff)
qed

lemma well_formed_consecutive: "\<not> malformed t prev es \<Longrightarrow> own.consecutive (prev + 1) es"
  by (simp add: own.consecutive_def well_formed_nth)

lemma consecutive_drop: "own.consecutive r es \<Longrightarrow> own.consecutive (r + i) (drop i es)"
  by (simp add: own.consecutive_def)

lemma scan_spec:
  assumes "log_ok c" "own.consecutive (prev + 1) es" "snapshot_round c \<le> prev" "prev \<le> last_round c"
    and "scan c es = (i, conflict)"
  shows "i \<le> length es \<and> prev + i \<le> last_round c \<and>
    (\<forall>j < i. term_at c (prev + 1 + j) = Some (e_term (es ! j))) \<and>
    (case conflict of
       None \<Rightarrow> i < length es \<longrightarrow> prev + i = last_round c
     | Some r \<Rightarrow> i < length es \<and> r = prev + 1 + i \<and> r \<le> last_round c \<and>
         term_at c r \<noteq> Some (e_term (es ! i)))"
  using assms(2-)
proof (induction es arbitrary: prev i)
  case (Cons e es)
  have e: "e_round e = prev + 1" and rest: "own.consecutive (prev + 1 + 1) es"
    using Cons.prems(1) by (auto simp: own.consecutive_Cons)
  have known: "term_at c (prev + 1) \<noteq> None \<longleftrightarrow> prev + 1 \<le> last_round c"
    using term_at_known[OF assms(1), of "prev + 1"] Cons.prems(2) by simp
  show ?case
  proof (cases "term_at c (prev + 1) = Some (e_term e)")
    case True
    obtain k where k: "scan c es = (k, conflict)" "i = Suc k"
      using Cons.prems(4) True e by (auto split: prod.splits)
    have "snapshot_round c \<le> prev + 1" "prev + 1 \<le> last_round c"
      using Cons.prems(2) known True by auto
    from Cons.IH[OF rest this k(1)] k(2) True show ?thesis
      by (auto simp: less_Suc_eq_0_disj split: option.splits)
  next
    case False
    then show ?thesis
      using Cons.prems(3,4) e known by (auto split: option.splits if_splits)
  qed
qed auto

section \<open>The laws\<close>

lemma sound_refusal: "node_ok c \<Longrightarrow> quiet.sound c (emit c [refusal c dest h])"
  by (simp add: refusal_def sound_send)

lemma sound_acknowledgement: "node_ok c \<Longrightarrow> quiet.sound c (emit c [acknowledgement c dest])"
  by (simp add: acknowledgement_def Let_def sound_send)

lemma set_own_tail_twice [simp]: "set_own_tail u (set_own_tail t c) = set_own_tail u c"
  by (simp add: set_own_tail_def upd_progress_def progress_entry_def)

lemma tail_mut_set [simp]: "tail_mut (set_own_tail t c) = t"
  by (simp add: tail_mut_def set_own_tail_def)

lemma tail_stamp [simp]:
  "tail_wf (t\<lparr>lt_rewritten_in_term := x\<rparr>) = tail_wf t"
  "tail_last_round (t\<lparr>lt_rewritten_in_term := x\<rparr>) = tail_last_round t"
  "tail_entry_at (t\<lparr>lt_rewritten_in_term := x\<rparr>) = tail_entry_at t"
  by (simp_all add: tail_wf_def tail_last_round_def tail_entry_at_def fun_eq_iff)

lemma for_each_push_own:
  "own.push_all (tail_mut c) es = Some t \<Longrightarrow>
   for_each es push_own c = done_with (if es = [] then c else set_own_tail t c)"
proof (induction es arbitrary: c)
  case (Cons e es)
  then obtain u where u: "tail_push (tail_mut c) e = Some u" "own.push_all u es = Some t"
    by (auto split: option.splits)
  with Cons.IH[of "set_own_tail u c"] show ?case by (auto simp: push_own_def)
qed simp

text \<open>The last term after an append or a cut is the log's.\<close>

lemma cut_conflict_eq:
  assumes log: "log_ok c" and r: "snapshot_round c < r" "r \<le> last_round c"
  shows "\<exists>t lt. cut_conflict r c = emit ((set_own_tail t c)\<lparr>last_round := r - 1, last_term := lt,
      durable := min (r - 1) (durable c)\<rparr>) [Truncate r] \<and>
    t = (truncate_from (tail_mut c) r)\<lparr>lt_rewritten_in_term := cur_term c\<rparr> \<and>
    tail_wf t \<and> lt_base t = snapshot_round c \<and> tail_last_round t = r - 1 \<and>
    tail_entry_at t = (\<lambda>q. if q < r then tail_entry_at (tail_mut c) q else None) \<and>
    log_ok ((set_own_tail t c)\<lparr>last_round := r - 1, last_term := lt, durable := d\<rparr>)"
proof -
  note tl = log_ok_tail[OF log]
  let ?u = "truncate_from (tail_mut c) r"
  let ?t = "?u\<lparr>lt_rewritten_in_term := cur_term c\<rparr>"
  have u: "tail_wf ?u" "lt_base ?u = snapshot_round c" "tail_last_round ?u = r - 1"
      "tail_entry_at ?u = (\<lambda>q. if q < r then tail_entry_at (tail_mut c) q else None)"
    using own.cut_at[of "tail_mut c" r] tl r by auto
  have t: "tail_wf ?t" "lt_base ?t = snapshot_round c" "tail_last_round ?t = r - 1"
      "tail_entry_at ?t = tail_entry_at ?u"
    using u(1-3) by simp_all
  define d' where "d' = (set_own_tail ?t c)\<lparr>last_round := r - 1\<rparr>"
  have "term_at d' (r - 1) \<noteq> None"
    using t r by (auto simp: d'_def term_at_tail_mut tail_term_at_def)
  then obtain lt where lt: "term_at d' (r - 1) = Some lt" by blast
  have cut: "cut_conflict r c = emit ((set_own_tail ?t c)\<lparr>last_round := r - 1, last_term := lt,
      durable := min (r - 1) (durable c)\<rparr>) [Truncate r]"
    using lt by (simp add: cut_conflict_def Let_def d'_def min_def)
  have ok: "log_ok ((set_own_tail ?t c)\<lparr>last_round := r - 1, last_term := lt, durable := d\<rparr>)"
    using t lt by (auto simp: log_ok_def d'_def term_at_def split: if_splits)
  show ?thesis using cut t u(4) ok by (intro exI[of _ ?t] exI[of _ lt]) simp
qed

lemma sound_cut_conflict:
  assumes ok: "node_ok c" and f: "role c = Follower" and r: "snapshot_round c < r" "r \<le> last_round c"
  shows "wp (cut_conflict r c) (\<lambda>d as. quiet_law c d as \<and> node_ok (set_agreed (min (agreed c) (r - 1)) d) \<and>
    last_round d = r - 1 \<and> snapshot_round d = snapshot_round c \<and> role d = Follower \<and>
    agreed d = agreed c)"
proof -
  have log: "log_ok c" using ok by (simp add: node_ok_def)
  obtain t lt where cut: "cut_conflict r c = emit ((set_own_tail t c)\<lparr>last_round := r - 1,
        last_term := lt, durable := min (r - 1) (durable c)\<rparr>) [Truncate r]"
      "log_ok ((set_own_tail t c)\<lparr>last_round := r - 1, last_term := lt,
        durable := min (r - 1) (durable c)\<rparr>)"
    using cut_conflict_eq[OF log r, of "min (r - 1) (durable c)"] by blast
  show ?thesis
    using ok f cut by (auto simp: node_ok_def quiet_law_def evolves_def calm_def set_agreed_def)
qed

text \<open>The state in which \<open>take_fresh\<close> is entered: the entries from the \<open>i\<close>-th on continue the log.\<close>

definition continues :: "consensus \<Rightarrow> nat \<Rightarrow> entry list \<Rightarrow> nat \<Rightarrow> bool" where
  "continues c prev es i \<longleftrightarrow>
     (if drop i es = [] then prev + length es \<le> last_round c
      else last_round c = prev + i \<and> own.consecutive (last_round c + 1) (drop i es))"

lemma push_fresh:
  assumes log: "log_ok c" and fresh: "fresh \<noteq> []" "own.consecutive (last_round c + 1) fresh"
  shows "\<exists>t. for_each fresh push_own (set_agreed a c) = done_with (set_own_tail t (set_agreed a c)) \<and>
    log_ok ((set_own_tail t (set_agreed a c))\<lparr>last_round := e_round (last fresh),
      last_term := e_term (last fresh)\<rparr>) \<and>
    e_round (last fresh) = last_round c + length fresh \<and>
    tail_entry_at t = (\<lambda>q. if last_round c < q \<and> q \<le> last_round c + length fresh
      then Some (fresh ! (q - last_round c - 1)) else tail_entry_at (tail_mut c) q)"
proof -
  have tl: "tail_wf (tail_mut c)" and lb: "lt_base (tail_mut c) = snapshot_round c"
    and top: "tail_last_round (tail_mut c) = last_round c"
    using log_ok_tail[OF log] by auto
  let ?c = "set_agreed a c"
  have tm: "tail_mut ?c = tail_mut c" unfolding set_agreed_def by simp
  obtain t where t: "own.push_all (tail_mut c) fresh = Some t" "tail_wf t"
      "lt_base t = snapshot_round c" "tail_last_round t = last_round c + length fresh"
      "tail_entry_at t = (\<lambda>q. if last_round c < q \<and> q \<le> last_round c + length fresh
        then Some (fresh ! (q - last_round c - 1)) else tail_entry_at (tail_mut c) q)"
    using own.push_all_next[OF tl, of fresh] fresh(2) unfolding top lb by blast
  have round: "e_round (last fresh) = last_round c + length fresh"
    using fresh by (simp add: last_conv_nth own.consecutive_def)
  have "tail_entry_at t (last_round c + length fresh) = Some (last fresh)"
    using fresh(1) by (simp add: t(5) last_conv_nth)
  then have "tail_term_at t (last_round c + length fresh) = Some (e_term (last fresh))"
    by (simp add: tail_term_entry)
  moreover have "last_round c + length fresh \<noteq> snapshot_round c"
    using floor_le_last[OF log] fresh(1) by (cases fresh) auto
  ultimately have "log_ok ((set_own_tail t ?c)\<lparr>last_round := e_round (last fresh),
      last_term := e_term (last fresh)\<rparr>)"
    using t round by (simp add: log_ok_def term_at_def)
  moreover have "for_each fresh push_own ?c = done_with (set_own_tail t ?c)"
    using for_each_push_own[of ?c fresh t] t(1) fresh(1) by (simp add: tm)
  ultimately show ?thesis using round t(5) by blast
qed

lemma sound_take_fresh:
  assumes ok: "node_ok (set_agreed a c)" and a: "a = (case conflict of None \<Rightarrow> agreed c
      | Some r \<Rightarrow> min (agreed c) (r - 1))"
    and f: "role c = Follower" and nx: "continues c prev es i" and i: "i \<le> length es"
  shows "quiet.sound c (take_fresh src prev es i conflict c)"
proof (cases "drop i es = []")
  case True
  let ?c = "set_agreed (max a (prev + length es)) c"
  have "log_ok ?c" using ok by (simp add: node_ok_def set_agreed_def)
  then have "node_ok ?c" using ok f nx True by (auto simp: node_ok_def continues_def)
  moreover have "quiet_law c ?c []" by (rule quiet_same) (simp_all add: set_agreed_def)
  ultimately show ?thesis
    using True a sound_via[OF _ sound_acknowledgement, of c ?c src]
    by (simp add: take_fresh_def Let_def)
next
  case False
  let ?a = "max a (prev + length es)" and ?fresh = "drop i es"
  have log: "log_ok c" using ok by (simp add: node_ok_def set_agreed_def)
  have n: "last_round c = prev + i" "own.consecutive (last_round c + 1) ?fresh"
    using nx False by (auto simp: continues_def)
  obtain t where t: "for_each ?fresh push_own (set_agreed ?a c) = done_with (set_own_tail t (set_agreed ?a c))"
      "log_ok ((set_own_tail t (set_agreed ?a c))\<lparr>last_round := e_round (last ?fresh),
        last_term := e_term (last ?fresh)\<rparr>)"
      "e_round (last ?fresh) = last_round c + length ?fresh"
    using push_fresh[OF log False n(2)] by blast
  let ?d = "(set_own_tail t (set_agreed ?a c))\<lparr>last_round := e_round (last ?fresh),
    last_term := e_term (last ?fresh)\<rparr>"
  have "e_round (last ?fresh) = prev + length es" using t(3) n(1) i by simp
  moreover have "a \<le> last_round c" "durable c \<le> last_round c" using ok by (auto simp: node_ok_def)
  ultimately have "node_ok ?d" using ok t n(1) f i by (auto simp: node_ok_def)
  moreover have "quiet_law c ?d [Persist ?fresh]"
    using f by (auto simp: quiet_law_def evolves_def calm_def)
  ultimately show ?thesis
    using False t(1) a by (simp add: take_fresh_def Let_def quiet.sound_def)
qed

lemma observe_law:
  assumes "node_ok c"
  shows "node_ok (observe_quorum_watermark w c) \<and> quiet_law c (observe_quorum_watermark w c) []"
    and "node_ok (observe_config_at a c) \<and> quiet_law c (observe_config_at a c) []"
  using assms
  by (simp_all add: observe_quorum_watermark_def observe_config_at_def node_ok_def quiet.R_refl
      quiet_same)

lemma quiet_trans: "quiet_law c d [] \<Longrightarrow> quiet_law d e [] \<Longrightarrow> quiet_law c e []"
  using quiet.R_trans[of c d "[]" e "[]"] by simp

lemma sound_learn_commit:
  assumes ok: "node_ok c"
  shows "quiet.sound c (learn_commit es lc c)"
proof -
  let ?c = "if commit c < min lc (agreed c) then c\<lparr>commit := min lc (agreed c)\<rparr> else c"
  let ?d = "observe_quorum_watermark lc ?c"
  let ?e = "case newest_config es of None \<Rightarrow> ?d | Some a \<Rightarrow> observe_config_at a ?d"
  have c: "node_ok ?c" "quiet_law c ?c []"
    using ok by (auto simp: node_ok_def quiet.R_refl intro!: quiet_same)
  have d: "node_ok ?d" "quiet_law c ?d []"
    using observe_law(1)[OF c(1), of lc] quiet_trans[OF c(2)] by blast+
  have "node_ok ?e \<and> quiet_law c ?e []"
  proof (cases "newest_config es")
    case (Some a)
    then show ?thesis using observe_law(2)[OF d(1), of a] quiet_trans[OF d(2)] by simp
  qed (use d in simp)
  then show ?thesis
    unfolding learn_commit_def Let_def by (intro sound_via[OF _ sound_advance_apply]) auto
qed

text \<open>From the scan on: the log takes the entries, or refuses to touch a committed round.\<close>

definition merge_entries :: "node_id \<Rightarrow> nat \<Rightarrow> entry list \<Rightarrow> nat \<Rightarrow> consensus \<Rightarrow> step" where
  "merge_entries src prev es lc c =
     (case scan c es of
        (i, None) \<Rightarrow> andthen (take_fresh src prev es i None c) (learn_commit es lc)
      | (i, Some r) \<Rightarrow>
          if r \<le> commit c then emit c [refusal c src (commit c + 1)]
          else andthen (cut_conflict r c) (\<lambda>c.
            andthen (take_fresh src prev es i (Some r) c) (learn_commit es lc)))"

lemma sound_merge:
  assumes ok: "node_ok c" and f: "role c = Follower" and es: "own.consecutive (prev + 1) es"
    and prev: "snapshot_round c \<le> prev" "prev \<le> last_round c"
  shows "quiet.sound c (merge_entries src prev es lc c)"
proof -
  obtain i conflict where sc: "scan c es = (i, conflict)" by fastforce
  have log: "log_ok c" using ok by (simp add: node_ok_def)
  note spec = scan_spec[OF log es prev sc]
  have cont: "continues d prev es i" if "last_round d = prev + i \<or> i = length es \<and> prev + i \<le> last_round d" for d
    using that consecutive_drop[OF es, of i] spec by (auto simp: continues_def)
  show ?thesis
  proof (cases conflict)
    case None
    have "continues c prev es i" using spec None by (intro cont) auto
    then have "quiet.sound c (take_fresh src prev es i None c)"
      using ok f spec by (intro sound_take_fresh[where a = "agreed c"])
        (auto simp: set_agreed_def node_ok_def)
    then show ?thesis
      unfolding merge_entries_def sc None by (auto intro: quiet.sound_andthen sound_learn_commit)
  next
    case (Some r)
    then have r: "r = prev + 1 + i" "snapshot_round c < r" "r \<le> last_round c"
      using spec prev by auto
    show ?thesis
    proof (cases "r \<le> commit c")
      case True
      then show ?thesis by (simp add: merge_entries_def sc Some sound_refusal ok)
    next
      case False
      obtain d as where d: "cut_conflict r c = Some (d, as)" "quiet_law c d as"
          "node_ok (set_agreed (min (agreed d) (r - 1)) d)" "last_round d = r - 1" "role d = Follower"
        using sound_cut_conflict[OF ok f r(2,3)] by (auto simp: wp_Some)
      have "continues d prev es i" using d(4) r(1) by (intro cont) simp
      then have "quiet.sound d (take_fresh src prev es i (Some r) d)"
        using d spec by (intro sound_take_fresh[where a = "min (agreed d) (r - 1)"]) auto
      then have "quiet.sound d (andthen (take_fresh src prev es i (Some r) d) (learn_commit es lc))"
        by (auto intro: quiet.sound_andthen sound_learn_commit)
      then have "quiet.sound c (andthen (emit d as) (\<lambda>d.
          andthen (take_fresh src prev es i (Some r) d) (learn_commit es lc)))"
        using quiet.sound_from[OF d(2)] by (simp add: andthen_def emit_def)
      then show ?thesis using False d(1) by (simp add: merge_entries_def sc Some emit_def)
    qed
  qed
qed

lemma on_append_merge:
  "on_append src t prev prev_term es lc c =
     (if malformed t prev es then emit c [refusal c src 0]
      else andthen (adopt_leader src t c) (\<lambda>c.
        if prev < snapshot_round c then emit c [refusal c src (snapshot_round c + 1)]
        else case term_at c prev of
          None \<Rightarrow> emit c [refusal c src (last_round c + 1)]
        | Some pt \<Rightarrow>
            if pt \<noteq> prev_term then emit c [refusal c src (first_round_of_term_run c prev)]
            else merge_entries src prev es lc c))"
  unfolding on_append_def merge_entries_def ..

lemma sound_on_append:
  assumes ok: "node_ok c" and t: "cur_term c \<le> t" "t \<le> u64_max"
  shows "quiet.sound c (on_append src t prev prev_term es lc c)"
proof (cases "malformed t prev es")
  case False
  have rest: "quiet.sound d (if prev < snapshot_round d then emit d [refusal d src (snapshot_round d + 1)]
        else case term_at d prev of
          None \<Rightarrow> emit d [refusal d src (last_round d + 1)]
        | Some pt \<Rightarrow>
            if pt \<noteq> prev_term then emit d [refusal d src (first_round_of_term_run d prev)]
            else merge_entries src prev es lc d)"
    if d: "node_ok d" "role d = Follower" for d
  proof (cases "prev < snapshot_round d")
    case False
    have "log_ok d" using d(1) by (simp add: node_ok_def)
    from term_at_known[OF this, of prev] False
    show ?thesis
      using sound_merge[OF d well_formed_consecutive[OF \<open>\<not> malformed t prev es\<close>], of src lc]
      by (auto simp: sound_refusal d(1) split: option.split)
  qed (simp add: sound_refusal d(1))
  show ?thesis
    unfolding on_append_merge using False
    by (auto intro!: quiet.sound_andthen[OF sound_adopt[OF ok t]] rest dest: adopt_follower)
qed (simp add: on_append_def sound_refusal ok)

lemma sound_on_append_resp:
  assumes ok: "node_ok c"
  shows "quiet.sound c (on_append_resp src success matched hint digest c)"
proof (cases "role c \<noteq> Leader \<or> src = self_id c \<or> \<not> is_known (cfg c) src")
  case True
  then show ?thesis by (auto simp: on_append_resp_def quiet.sound_done ok)
next
  case False
  then have peer: "src \<noteq> self_id c" by simp
  have h: "harmless d src f" if "self_id d = self_id c" for d f
    using peer that by (simp add: harmless_def)
  have upd: "quiet.sound d (m (upd_progress src f d))"
    if "node_ok d" "self_id d = self_id c" "\<And>e. node_ok e \<Longrightarrow> self_id e = self_id c \<Longrightarrow> quiet.sound e (m e)"
    for m f d
    by (rule sound_via_upd[OF h[OF that(2)]], rule that(3)[OF node_ok_upd[OF that(1) h[OF that(2)]]])
      (simp add: that(2))
  have mark: "quiet.sound d (m (mark_diverged src matched digest d))"
    if "node_ok d" "self_id d = self_id c" "\<And>e. node_ok e \<Longrightarrow> self_id e = self_id c \<Longrightarrow> quiet.sound e (m e)"
    for m d
    unfolding mark_diverged_def using that(3)[OF that(1,2)] upd[OF that]
    by (simp split: option.split)
  have updS: "quiet.sound d (send_append_to src (upd_progress src f d))"
    if "node_ok d" "self_id d = self_id c" for d f
    by (rule upd[OF that]) (rule sound_send_append)
  have updD: "quiet.sound d (done_with (upd_progress src f d))"
    if "node_ok d" "self_id d = self_id c" for d f
    by (rule upd[OF that]) (rule quiet.sound_done)
  define ok_part where "ok_part c = (if last_round c < matched then done_with c
      else
        (let before = p_matched (progress_entry c src); m = max before matched;
             c = upd_progress src (\<lambda>p. p\<lparr>p_matched := m, p_next := max (p_next p) (m + 1),
                   p_needs_snapshot := False, p_sending := None\<rparr>) c
         in if commit_advances c then advance_commit c
            else if before < m \<and> m < last_round c then send_append_to src c
            else done_with c))" for c
  have fin: "quiet.sound d (ok_part d)" if "node_ok d" "self_id d = self_id c" for d
    unfolding ok_part_def Let_def using that
    by (simp add: quiet.sound_done updS updD upd[where m = advance_commit] sound_advance_commit)
  let ?c = "upd_progress src (\<lambda>p. p\<lparr>p_silent := 0\<rparr>) c"
  have eq: "on_append_resp src success matched hint digest c =
     (if \<not> success then
       (if hint = 0 then done_with ?c
        else if max hint 1 = p_next (progress_entry ?c src) then done_with ?c
        else send_append_to src (upd_progress src (\<lambda>p. p\<lparr>p_next := max hint 1\<rparr>) ?c))
      else ok_part (mark_diverged src matched digest ?c))"
    using False unfolding on_append_resp_def Let_def ok_part_def by simp
  have ok': "node_ok ?c" by (intro node_ok_upd ok h) simp
  have "quiet.sound ?c (on_append_resp src success matched hint digest c)"
    unfolding eq using ok' by (simp add: quiet.sound_done updS mark[where m = ok_part] fin)
  then show ?thesis by (rule sound_via_upd[rotated]) (simp add: h)
qed

lemma sound_after_durable:
  assumes ok: "node_ok c"
  shows "quiet.sound c (after_durable c)"
proof -
  let ?d = "upd_progress (self_id c) (\<lambda>p. p\<lparr>p_matched := durable c\<rparr>) c"
  have "node_ok ?d" using ok by (auto simp: node_ok_def)
  moreover have "quiet_law c ?d []" by (rule quiet_same) simp_all
  ultimately have "quiet.sound c (advance_commit ?d)" by (intro sound_via[OF _ sound_advance_commit])
  then show ?thesis
    unfolding after_durable_def
    by (intro quiet.sound_andthen sound_advance_apply)
      (auto intro: quiet.sound_done sound_acknowledgement ok split: option.split)
qed

lemma sound_on_persisted:
  assumes ok: "node_ok c"
  shows "quiet.sound c (on_persisted t r c)"
  unfolding on_persisted_def
proof (rule quiet.sound_andthen[OF sound_ensure_log[OF ok]])
  fix d as
  assume d: "node_ok d"
  obtain h res where hr: "(if pending_install_round d = Some r then finish_install d
      else (done_with d, Inr ())) = (h, res)" by fastforce
  have h: "quiet.sound d h"
    using sound_finish_install[OF d] quiet.sound_done[OF d] hr by (auto split: if_splits)
  have raise: "node_ok (raise_durable t r e) \<and> quiet_law e (raise_durable t r e) []" if "node_ok e" for e
    using that by (simp add: raise_durable_def Let_def node_ok_def quiet.R_refl quiet_same)
  have after: "quiet.sound e (after_durable (raise_durable t r e))" if "node_ok e" for e
    using raise[OF that] by (intro sound_via[OF _ sound_after_durable]) auto
  have refuse: "quiet.sound e (emit e [Refuse why])" if "node_ok e" for e why
    using that by (intro quiet.sound_emit quiet_same) auto
  show "quiet.sound d (case (if pending_install_round d = Some r then finish_install d
      else (done_with d, Inr ())) of
        (h, Inl why) \<Rightarrow> andthen h (\<lambda>c. emit c [Refuse why])
      | (h, Inr _) \<Rightarrow> andthen h (\<lambda>c. after_durable (raise_durable t r c)))"
    unfolding hr by (cases res) (auto intro: quiet.sound_andthen[OF h] after refuse)
qed

lemma sound_on_propose:
  assumes ok: "node_ok c"
  shows "quiet.sound c (on_propose cmd c)"
proof -
  have refuse: "quiet.sound e (emit e [Refuse why])" if "node_ok e" for e why
    using that by (intro quiet.sound_emit quiet_same) auto
  show ?thesis
    unfolding on_propose_def
    by (auto intro!: refuse ok quiet.sound_andthen[OF sound_ensure_log[OF ok]]
        quiet.sound_andthen[OF sound_append_own_entry] sound_bcast split: sum.split)
qed

text \<open>The four bodies that \<open>on_message\<close> routes to the election.\<close>

fun is_vote_body :: "body \<Rightarrow> bool" where
  "is_vote_body (PreVote _ _) = True"
| "is_vote_body (PreVoteResp _) = True"
| "is_vote_body (RequestVote _ _) = True"
| "is_vote_body (RequestVoteResp _) = True"
| "is_vote_body _ = False"

lemma sound_on_append_msg:
  assumes ok: "node_ok c" and t: "cur_term c \<le> m_term m" "m_term m \<le> u64_max"
    and body: "\<not> is_vote_body (m_body m)"
  shows "quiet.sound c (on_append_msg m c)"
  unfolding on_append_msg_def
proof (rule quiet.sound_andthen[OF sound_ensure_log[OF ok]])
  fix d as
  assume d: "node_ok d" "ensure_log c = Some (d, as)"
  have "cur_term d = cur_term c"
    using d(2) ok by (auto simp: node_ok_def ensure_log_eq done_with_def)
  with t have t': "cur_term d \<le> m_term m" by simp
  show "quiet.sound d (case m_body m of
         Append prev prev_term es lc \<Rightarrow> on_append (m_from m) (m_term m) prev prev_term es lc d
       | AppendResp success matched hint digest \<Rightarrow>
           on_append_resp (m_from m) success matched hint digest d
       | InstallSnapshot meta offset data fin \<Rightarrow>
           on_install_snapshot (m_from m) (m_term m) meta offset data fin d
       | InstallSnapshotResp n \<Rightarrow> on_install_snapshot_resp (m_from m) n d
       | _ \<Rightarrow> None)"
    using body
    by (cases "m_body m") (auto intro: sound_on_append[OF d(1) t' t(2)] sound_on_append_resp[OF d(1)]
        sound_on_install_snapshot[OF d(1) t' t(2)] sound_install_resp[OF d(1)])
qed

end
