(* ===== verification/Election.thy ===== *)
theory Election
  imports Replicate
begin

text \<open>
  \<open>consensus/election.rs\<close>: the clock, the lease, the four vote messages and the transitions between the
  roles; and the dispatch of \<open>consensus/mod.rs\<close> that makes them one step function, \<open>step\<close>.
\<close>

section \<open>Small shared rules\<close>

definition draw_timeout :: "consensus \<Rightarrow> nat \<times> consensus" where
  "draw_timeout c =
     (let base = max (election_base c) 1 in
      case next_u32 (rng c) of (v, st) \<Rightarrow> (base + v mod base, c\<lparr>rng := st\<rparr>))"

text \<open>\<open>self.election_timeout = self.draw_timeout()\<close>.\<close>

definition redraw :: "consensus \<Rightarrow> consensus" where
  "redraw c = (case draw_timeout c of (t, c) \<Rightarrow> c\<lparr>election_timeout := t\<rparr>)"

definition log_is_at_least_as_complete :: "consensus \<Rightarrow> nat \<Rightarrow> nat \<Rightarrow> bool" where
  "log_is_at_least_as_complete c cand_term cand_round \<longleftrightarrow>
     last_term c < cand_term \<or> last_term c = cand_term \<and> last_round c \<le> cand_round"

definition leader_is_live :: "consensus \<Rightarrow> bool" where
  "leader_is_live c \<longleftrightarrow> leader c \<noteq> None \<and> since_heard c < election_timeout c"

definition campaign_voters :: "consensus \<Rightarrow> node_id list" where
  "campaign_voters c =
     (case campaign c of None \<Rightarrow> [] | Some cf \<Rightarrow> filter (\<lambda>n. n \<noteq> self_id c) (members cf))"

text \<open>\<open>self.campaign.as_ref().is_some_and(|c| c.has_quorum(self.votes.len()))\<close>.\<close>

definition campaign_carried :: "consensus \<Rightarrow> bool" where
  "campaign_carried c = (case campaign c of None \<Rightarrow> False | Some cf \<Rightarrow> has_quorum cf (card (votes c)))"

definition campaign_counts :: "consensus \<Rightarrow> node_id \<Rightarrow> bool" where
  "campaign_counts c n = (case campaign c of None \<Rightarrow> False | Some cf \<Rightarrow> contains cf n)"

definition silence_of :: "consensus \<Rightarrow> node_id \<Rightarrow> nat" where
  "silence_of c n =
     (if n = self_id c then 0 else case progress c n of None \<Rightarrow> u32_max | Some p \<Rightarrow> p_silent p)"

definition quorum_silence :: "consensus \<Rightarrow> nat" where
  "quorum_silence c =
     (let ages = sort (map (silence_of c) (members (cfg c))); k = quorum (cfg c) - 1 in
      if k < length ages then ages ! k else u32_max)"

section \<open>The transitions\<close>

definition become_leader :: "consensus \<Rightarrow> step" where
  "become_leader c =
     andthen (emit (c\<lparr>role := Leader, leader := Some (self_id c), campaign := None, votes := {},
                      since_quorum := 0, since_heartbeat := 0\<rparr>)
                [RoleChanged Leader (cur_term c) (Some (self_id c))])
       on_became_leader"

definition enter_term :: "consensus \<Rightarrow> consensus" where
  "enter_term c =
     redraw (c\<lparr>hard := \<lparr>hs_term = sat_add64 (cur_term c) 1, hs_voted_for = Some (self_id c)\<rparr>,
               campaign := Some (cfg c), role := Candidate, leader := None, votes := {self_id c},
               since_heard := 0\<rparr>)"

definition become_candidate :: "consensus \<Rightarrow> step" where
  "become_candidate c =
     (let c = enter_term c in
      andthen (emit c [PersistHardState (cur_term c) (Some (self_id c)),
                       RoleChanged Candidate (cur_term c) None]) (\<lambda>c.
        if campaign_carried c then become_leader c
        else emit c (map (\<lambda>dest. send_to c dest (RequestVote (last_term c) (last_round c)))
                       (campaign_voters c))))"

definition start_precampaign :: "consensus \<Rightarrow> step" where
  "start_precampaign c =
     (let c = redraw (c\<lparr>role := PreCandidate, leader := None, campaign := Some (cfg c),
                        votes := {self_id c}, since_heard := 0\<rparr>) in
      andthen (emit c [RoleChanged PreCandidate (cur_term c) None]) (\<lambda>c.
        if campaign_carried c then become_candidate c
        else emit c (map (\<lambda>dest. Send \<lparr>m_from = self_id c, m_to = dest,
                           m_term = sat_add64 (cur_term c) 1,
                           m_body = PreVote (last_term c) (last_round c)\<rparr>)
                       (campaign_voters c))))"

section \<open>The clock\<close>

definition voter_tick :: "consensus \<Rightarrow> step" where
  "voter_tick c =
     (let c = c\<lparr>since_heard := sat_add32 (since_heard c) 1\<rparr> in
      if since_heard c < election_timeout c then done_with c
      else if may_campaign c then start_precampaign c
      else andthen (if role c \<noteq> Follower then become_follower (cur_term c) None c else done_with c)
             (\<lambda>c. done_with (redraw (c\<lparr>since_heard := 0\<rparr>))))"

text \<open>Every known peer grows one tick more silent.\<close>

definition age_peer :: "node_id \<Rightarrow> consensus \<Rightarrow> consensus" where
  "age_peer n c =
     (case progress c n of
        None \<Rightarrow> c
      | Some p \<Rightarrow> c\<lparr>progress := (progress c)(n \<mapsto> p\<lparr>p_silent := sat_add32 (p_silent p) 1\<rparr>)\<rparr>)"

definition leader_tick :: "consensus \<Rightarrow> step" where
  "leader_tick c =
     (if \<not> contains (cfg c) (self_id c) then become_follower (cur_term c) None c
      else
        (let c = fold age_peer (peer_ids c) c;
             c = c\<lparr>since_quorum := quorum_silence c\<rparr>
         in if lease c \<le> since_quorum c then become_follower (cur_term c) None c
            else
              (let c = c\<lparr>since_heartbeat := sat_add32 (since_heartbeat c) 1\<rparr> in
               if heartbeat c \<le> since_heartbeat c then bcast_append (c\<lparr>since_heartbeat := 0\<rparr>)
               else done_with c)))"

definition on_tick :: "consensus \<Rightarrow> step" where
  "on_tick c = (if role c = Leader then leader_tick c else voter_tick c)"

section \<open>Vote messages\<close>

definition on_pre_vote :: "node_id \<Rightarrow> nat \<Rightarrow> nat \<Rightarrow> nat \<Rightarrow> consensus \<Rightarrow> step" where
  "on_pre_vote from asked_term cand_term cand_round c =
     (let granted = (cur_term c < asked_term \<and> \<not> leader_is_live c \<and>
                     log_is_at_least_as_complete c cand_term cand_round)
      in emit c [Send \<lparr>m_from = self_id c, m_to = from, m_term = asked_term,
                       m_body = PreVoteResp granted\<rparr>])"

definition on_pre_vote_resp :: "node_id \<Rightarrow> nat \<Rightarrow> bool \<Rightarrow> consensus \<Rightarrow> step" where
  "on_pre_vote_resp from asked_term granted c =
     (if role c \<noteq> PreCandidate then done_with c
      else if asked_term \<noteq> sat_add64 (cur_term c) 1 then done_with c
      else if \<not> campaign_counts c from then done_with c
      else if \<not> granted then done_with c
      else
        (let c = c\<lparr>votes := insert from (votes c)\<rparr> in
         if campaign_carried c then become_candidate c else done_with c))"

definition on_request_vote :: "node_id \<Rightarrow> nat \<Rightarrow> nat \<Rightarrow> consensus \<Rightarrow> step" where
  "on_request_vote from cand_term cand_round c =
     (let unpledged = (case hs_voted_for (hard c) of None \<Rightarrow> True | Some v \<Rightarrow> v = from);
          granted = (unpledged \<and> \<not> leader_is_live c \<and>
                     log_is_at_least_as_complete c cand_term cand_round)
      in if granted then
           (let c = c\<lparr>hard := (hard c)\<lparr>hs_voted_for := Some from\<rparr>, since_heard := 0\<rparr> in
            emit c [PersistHardState (cur_term c) (Some from), send_to c from (RequestVoteResp True)])
         else emit c [send_to c from (RequestVoteResp False)])"

definition on_request_vote_resp :: "node_id \<Rightarrow> nat \<Rightarrow> bool \<Rightarrow> consensus \<Rightarrow> step" where
  "on_request_vote_resp from t granted c =
     (if role c \<noteq> Candidate then done_with c
      else if t \<noteq> cur_term c then done_with c
      else if \<not> campaign_counts c from then done_with c
      else if \<not> granted then done_with c
      else
        (let c = c\<lparr>votes := insert from (votes c)\<rparr> in
         if campaign_carried c then become_leader c else done_with c))"

definition on_vote_msg :: "message \<Rightarrow> consensus \<Rightarrow> step" where
  "on_vote_msg m c =
     (case m_body m of
        PreVote lt lr \<Rightarrow> on_pre_vote (m_from m) (m_term m) lt lr c
      | PreVoteResp granted \<Rightarrow> on_pre_vote_resp (m_from m) (m_term m) granted c
      | RequestVote lt lr \<Rightarrow> on_request_vote (m_from m) lt lr c
      | RequestVoteResp granted \<Rightarrow> on_request_vote_resp (m_from m) (m_term m) granted c
      | _ \<Rightarrow> None)"

section \<open>The step function\<close>

definition hypothetical :: "body \<Rightarrow> bool" where
  "hypothetical b = (case b of PreVote _ _ \<Rightarrow> True | PreVoteResp _ \<Rightarrow> True | _ \<Rightarrow> False)"

definition on_message :: "message \<Rightarrow> consensus \<Rightarrow> step" where
  "on_message m c =
     (if m_term m < cur_term c then
        (if is_request (m_body m)
         then (case stale_refusal (m_body m) of
                 None \<Rightarrow> None
               | Some b \<Rightarrow> emit c [send_to c (m_from m) b])
         else done_with c)
      else
        andthen (if cur_term c < m_term m \<and> \<not> hypothetical (m_body m)
                 then become_follower (m_term m) None c else done_with c) (\<lambda>c.
          if is_vote_body (m_body m) then on_vote_msg m c else on_append_msg m c))"

fun step :: "event \<Rightarrow> consensus \<Rightarrow> step" where
  "step Tick c = on_tick c"
| "step (Recv m) c = on_message m c"
| "step (Persisted t r) c = on_persisted t r c"
| "step (Propose cmd) c = on_propose cmd c"

section \<open>The laws\<close>

lemma redraw_eq:
  "redraw c = c\<lparr>rng := snd (next_u32 (rng c)), election_timeout := max (election_base c) 1 +
     fst (next_u32 (rng c)) mod max (election_base c) 1\<rparr>"
  by (simp add: redraw_def draw_timeout_def Let_def case_prod_beta)

lemma timing_redraw: "timing_ok c \<Longrightarrow> timing_ok (redraw c)"
  by (auto simp: redraw_eq timing_ok_def)

lemma node_ok_redraw: "node_ok c \<Longrightarrow> node_ok (redraw c)"
  using timing_redraw[of c] by (auto simp: node_ok_def redraw_eq)

lemma legal_sends:
  "(\<And>d. d \<in> set ds \<Longrightarrow> m_from (f d) = me \<and> m_term (f d) \<le> u64_max \<and> m_body (f d) \<noteq> RequestVoteResp True) \<Longrightarrow>
   legal me h (map (\<lambda>d. Send (f d)) ds) \<and> stored h (map (\<lambda>d. Send (f d)) ds) = h"
  by (induction ds) auto

lemma sends_lawful:
  assumes ok: "node_ok c"
    and f: "\<And>d. d \<in> set ds \<Longrightarrow> m_from (f d) = self_id c \<and> m_term (f d) \<le> u64_max \<and>
      m_body (f d) \<noteq> RequestVoteResp True"
  shows "lawful.sound c (emit c (map (\<lambda>d. Send (f d)) ds))"
  using legal_sends[of ds f "self_id c" "hard c", OF f]
  by (intro lawful.sound_emit ok) (simp add: evolves_def)

lemma sound_become_leader:
  assumes ok: "node_ok c"
  shows "lawful.sound c (become_leader c)"
  unfolding become_leader_def
proof (rule lawful.sound_emit_then)
  let ?c = "c\<lparr>role := Leader, leader := Some (self_id c), campaign := None, votes := {},
    since_quorum := 0, since_heartbeat := 0\<rparr>"
  show "evolves c ?c [RoleChanged Leader (cur_term c) (Some (self_id c))]"
    by (simp add: evolves_def)
  show "lawful.sound ?c (on_became_leader ?c)"
    by (intro quiet_lawful sound_on_became_leader) (use ok in \<open>simp add: node_ok_def\<close>)
qed

lemma sound_become_candidate:
  assumes ok: "node_ok c" and t: "cur_term c < u64_max"
  shows "lawful.sound c (become_candidate c)"
  unfolding become_candidate_def Let_def
proof (rule lawful.sound_emit_then)
  have nxt: "sat_add64 (cur_term c) 1 = Suc (cur_term c)" by (rule sat_add64_Suc[OF t])
  show "evolves c (enter_term c) [PersistHardState (cur_term (enter_term c))
      (Some (self_id (enter_term c))), RoleChanged Candidate (cur_term (enter_term c)) None]"
    using nxt by (simp add: evolves_def enter_term_def redraw_eq vote_move_def)
  have ok': "node_ok (enter_term c)"
    unfolding enter_term_def by (rule node_ok_redraw) (use ok t nxt in \<open>auto simp: node_ok_def\<close>)
  show "lawful.sound (enter_term c)
      (if campaign_carried (enter_term c) then become_leader (enter_term c)
       else emit (enter_term c) (map (\<lambda>dest. send_to (enter_term c) dest
         (RequestVote (last_term (enter_term c)) (last_round (enter_term c))))
         (campaign_voters (enter_term c))))"
    using sound_become_leader[OF ok'] ok'
    by (auto simp: send_to_def node_ok_def intro!: sends_lawful)
qed

lemma sound_start_precampaign:
  assumes ok: "node_ok c" and t: "cur_term c < u64_max"
  shows "lawful.sound c (start_precampaign c)"
  unfolding start_precampaign_def Let_def
proof (rule lawful.sound_emit_then)
  let ?c = "redraw (c\<lparr>role := PreCandidate, leader := None, campaign := Some (cfg c),
    votes := {self_id c}, since_heard := 0\<rparr>)"
  show "evolves c ?c [RoleChanged PreCandidate (cur_term ?c) None]"
    by (simp add: evolves_def redraw_eq)
  have ok': "node_ok ?c" by (rule node_ok_redraw) (use ok in \<open>simp add: node_ok_def\<close>)
  have t': "cur_term ?c < u64_max" using t by (simp add: redraw_eq)
  have "sat_add64 (cur_term ?c) 1 \<le> u64_max" using t' unfolding sat_add64_Suc[OF t'] by simp
  then show "lawful.sound ?c
      (if campaign_carried ?c then become_candidate ?c
       else emit ?c (map (\<lambda>dest. Send \<lparr>m_from = self_id ?c, m_to = dest,
         m_term = sat_add64 (cur_term ?c) 1, m_body = PreVote (last_term ?c) (last_round ?c)\<rparr>)
         (campaign_voters ?c)))"
    using sound_become_candidate[OF ok' t'] ok' by (auto intro!: sends_lawful)
qed

lemma lawful_via: "evolves c d [] \<Longrightarrow> lawful.sound d m \<Longrightarrow> lawful.sound c m"
  using lawful.sound_from[of c d "[]" m] by (simp add: lawful.sound_def)

lemma sound_voter_tick:
  assumes ok: "node_ok c" and t: "cur_term c < u64_max"
  shows "lawful.sound c (voter_tick c)"
proof -
  define d where "d = c\<lparr>since_heard := sat_add32 (since_heard c) 1\<rparr>"
  have d: "node_ok d" "cur_term d < u64_max" using ok t by (simp_all add: d_def node_ok_def)
  have eq: "voter_tick c =
     (if since_heard d < election_timeout d then done_with d
      else if may_campaign d then start_precampaign d
      else andthen (if role d \<noteq> Follower then become_follower (cur_term d) None d else done_with d)
             (\<lambda>c. done_with (redraw (c\<lparr>since_heard := 0\<rparr>))))"
    unfolding voter_tick_def Let_def d_def ..
  have redrawn: "lawful.sound e (done_with (redraw (e\<lparr>since_heard := 0\<rparr>)))" if "node_ok e" for e
    using that by (intro lawful.sound_upd node_ok_redraw) (simp_all add: node_ok_def redraw_eq evolves_def)
  have "lawful.sound d (become_follower (cur_term d) None d)"
    using d by (intro quiet_lawful sound_become_follower) auto
  then have first: "lawful.sound d (if role d \<noteq> Follower then become_follower (cur_term d) None d
      else done_with d)"
    using lawful.sound_done[OF d(1)] by simp
  have "lawful.sound d (voter_tick c)"
    unfolding eq using lawful.sound_andthen[OF first redrawn] sound_start_precampaign[OF d]
      lawful.sound_done[OF d(1)] by simp
  then show ?thesis by (rule lawful_via[rotated]) (simp add: evolves_def d_def)
qed

lemma age_peer_eq:
  "\<exists>pr. fold age_peer ns c = c\<lparr>progress := pr\<rparr> \<and>
     (self_id c \<notin> set ns \<longrightarrow> pr (self_id c) = progress c (self_id c))"
proof (induction ns arbitrary: c)
  case Nil
  show ?case by (rule exI[of _ "progress c"]) simp
next
  case (Cons n ns)
  let ?c = "age_peer n c"
  have c: "self_id ?c = self_id c" "n \<noteq> self_id c \<Longrightarrow> progress ?c (self_id c) = progress c (self_id c)"
      "?c\<lparr>progress := pr\<rparr> = c\<lparr>progress := pr\<rparr>" for pr
    by (auto simp: age_peer_def split: option.split)
  from Cons.IH[of ?c] obtain pr where "fold age_peer ns ?c = ?c\<lparr>progress := pr\<rparr>"
      "self_id c \<notin> set ns \<longrightarrow> pr (self_id c) = progress ?c (self_id c)"
    by (auto simp: c(1))
  then show ?case by (intro exI[of _ pr]) (auto simp: c)
qed

lemma sound_leader_tick:
  assumes ok: "node_ok c"
  shows "quiet.sound c (leader_tick c)"
proof (cases "contains (cfg c) (self_id c)")
  case True
  obtain pr where pr: "fold age_peer (peer_ids c) c = c\<lparr>progress := pr\<rparr>"
      "pr (self_id c) = progress c (self_id c)"
    using age_peer_eq[of "peer_ids c" c] by (auto simp: peer_ids_def)
  define tail_end where "tail_end c = (let c = c\<lparr>since_quorum := quorum_silence c\<rparr> in
      if lease c \<le> since_quorum c then become_follower (cur_term c) None c
      else
        (let c = c\<lparr>since_heartbeat := sat_add32 (since_heartbeat c) 1\<rparr> in
         if heartbeat c \<le> since_heartbeat c then bcast_append (c\<lparr>since_heartbeat := 0\<rparr>)
         else done_with c))" for c
  have eq: "leader_tick c = andthen (done_with (c\<lparr>progress := pr\<rparr>)) tail_end"
    using True pr(1) by (simp add: leader_tick_def tail_end_def Let_def)
  have tail_end: "quiet.sound d (tail_end d)" if d: "node_ok d" for d
  proof -
    let ?d = "d\<lparr>since_quorum := quorum_silence d\<rparr>"
    let ?e = "?d\<lparr>since_heartbeat := sat_add32 (since_heartbeat ?d) 1\<rparr>"
    have okd: "node_ok ?d" "node_ok ?e" "node_ok (?e\<lparr>since_heartbeat := 0\<rparr>)"
      using d by (simp_all add: node_ok_def)
    have law: "quiet_law d ?d []" "quiet_law d ?e []" "quiet_law d (?e\<lparr>since_heartbeat := 0\<rparr>) []"
      by (rule quiet_same, simp_all)+
    have "quiet.sound ?d (become_follower (cur_term ?d) None ?d)"
      using okd(1) by (intro sound_become_follower) (auto simp: node_ok_def)
    then show ?thesis
      using sound_via[OF law(1)] sound_via[OF law(3) sound_bcast[OF okd(3)]]
        quiet.sound_upd[OF okd(2) law(2)]
      by (simp add: tail_end_def Let_def)
  qed
  show ?thesis
    unfolding eq by (intro quiet.sound_andthen sound_set_progress ok pr(2) tail_end)
next
  case False
  then show ?thesis
    using ok by (auto simp: leader_tick_def node_ok_def intro!: sound_become_follower)
qed

lemma sound_on_tick: "node_ok c \<Longrightarrow> cur_term c < u64_max \<Longrightarrow> lawful.sound c (on_tick c)"
  by (simp add: on_tick_def sound_voter_tick quiet_lawful sound_leader_tick)

lemma sound_on_request_vote:
  assumes ok: "node_ok c"
  shows "lawful.sound c (on_request_vote src lt lr c)"
proof -
  have no: "lawful.sound c (emit c [send_to c src (RequestVoteResp False)])"
    by (intro quiet_lawful sound_send ok) simp
  let ?c = "c\<lparr>hard := (hard c)\<lparr>hs_voted_for := Some src\<rparr>, since_heard := 0\<rparr>"
  have "lawful.sound c (emit ?c [PersistHardState (cur_term ?c) (Some src),
      send_to ?c src (RequestVoteResp True)])"
    if "hs_voted_for (hard c) = None \<or> hs_voted_for (hard c) = Some src"
  proof (rule lawful.sound_emit)
    show "node_ok ?c" using ok by (simp add: node_ok_def)
    show "evolves c ?c [PersistHardState (cur_term ?c) (Some src),
        send_to ?c src (RequestVoteResp True)]"
      using ok that by (cases "hard c") (auto simp: evolves_def vote_move_def node_ok_def send_to_def)
  qed
  with no show ?thesis
    by (auto simp: on_request_vote_def Let_def split: option.split)
qed

lemma sound_on_vote_msg:
  assumes ok: "node_ok c" and body: "is_vote_body (m_body m)" and t: "m_term m \<le> u64_max"
    and c: "cur_term c < u64_max \<or> role c \<noteq> PreCandidate"
  shows "lawful.sound c (on_vote_msg m c)"
proof -
  have counted: "lawful.sound c (f (c\<lparr>votes := v\<rparr>))" if "lawful.sound (c\<lparr>votes := v\<rparr>) (f (c\<lparr>votes := v\<rparr>))"
    for f v by (rule lawful_via[OF _ that]) (simp add: evolves_def)
  have okv: "node_ok (c\<lparr>votes := v\<rparr>)" for v using ok by (simp add: node_ok_def)
  note cand = counted[where f = become_candidate, OF sound_become_candidate, OF okv]
    and lead = counted[where f = become_leader, OF sound_become_leader, OF okv]
    and stay = counted[where f = done_with, OF lawful.sound_done, OF okv]
  show ?thesis
  proof (cases "m_body m")
    case (PreVote lt lr)
    then show ?thesis
      using ok t by (auto simp: on_vote_msg_def on_pre_vote_def Let_def evolves_def
          intro!: lawful.sound_emit)
  next
    case (PreVoteResp g)
    then show ?thesis
      using c cand stay lawful.sound_done[OF ok]
      by (auto simp: on_vote_msg_def on_pre_vote_resp_def Let_def)
  next
    case (RequestVote lt lr)
    then show ?thesis by (simp add: on_vote_msg_def sound_on_request_vote ok)
  next
    case (RequestVoteResp g)
    then show ?thesis
      using lead stay lawful.sound_done[OF ok]
      by (auto simp: on_vote_msg_def on_request_vote_resp_def Let_def)
  qed (use body in auto)
qed

text \<open>An event whose term, if it carries one, is a \<open>u64\<close>.\<close>

fun event_ok :: "event \<Rightarrow> bool" where
  "event_ok (Recv m) \<longleftrightarrow> m_term m \<le> u64_max"
| "event_ok _ \<longleftrightarrow> True"

lemma stale_refusal_request:
  "is_request b \<Longrightarrow> \<exists>b'. stale_refusal b = Some b' \<and> b' \<noteq> RequestVoteResp True"
  by (cases b) auto

lemma follow_first:
  assumes ok: "node_ok c" and t: "m_term m \<le> u64_max"
  shows "quiet.sound c (if cur_term c < m_term m \<and> \<not> hypothetical (m_body m)
    then become_follower (m_term m) None c else done_with c)"
  using sound_become_follower[OF ok _ t] quiet.sound_done[OF ok] by simp

lemma follow_first_state:
  assumes "(if cur_term c < m_term m \<and> \<not> hypothetical (m_body m)
    then become_follower (m_term m) None c else done_with c) = Some (d, as)"
  shows "d = c \<and> as = [] \<and> (cur_term c < m_term m \<longrightarrow> hypothetical (m_body m)) \<or>
    role d = Follower \<and> cur_term d = m_term m \<and> (\<forall>t l. RoleChanged Leader t l \<notin> set as)"
  using assms by (auto simp: become_follower_def emit_def done_with_def Let_def split: if_splits)

lemma sound_on_message:
  assumes ok: "node_ok c" and t: "m_term m \<le> u64_max" and c: "cur_term c < u64_max"
  shows "lawful.sound c (on_message m c)"
proof (cases "m_term m < cur_term c")
  case True
  then show ?thesis
    using stale_refusal_request[of "m_body m"]
    by (auto simp: on_message_def lawful.sound_done ok intro!: quiet_lawful sound_send)
next
  case False
  have vote: "lawful.sound d (on_vote_msg m d)"
    if "node_ok d" "is_vote_body (m_body m)" "d = c \<or> role d = Follower" for d
    using that c by (intro sound_on_vote_msg t) auto
  have app: "lawful.sound d (on_append_msg m d)"
    if "node_ok d" "\<not> is_vote_body (m_body m)" "d = c \<or> cur_term d = m_term m" for d
    using that False by (intro quiet_lawful sound_on_append_msg t) auto
  show ?thesis
    unfolding on_message_def if_not_P[OF False]
    by (rule lawful.sound_andthen[OF quiet_lawful[OF follow_first[OF ok t]]])
      (auto dest!: follow_first_state intro: vote app)
qed

lemma sound_step:
  assumes "node_ok c" "event_ok ev" "cur_term c < u64_max"
  shows "lawful.sound c (step ev c)"
  using assms
  by (cases ev) (auto intro: sound_on_tick sound_on_message quiet_lawful sound_on_persisted sound_on_propose)

end
