(* ===== verification/Node_Runs.thy ===== *)
theory Node_Runs
  imports Election
begin

text \<open>
  One node over time: every state it can be in, as an inductive predicate over the operations its
  driver calls, and what holds of all of them. Then the functional properties of the rules a node
  decides by: committing, the lease, the retry hint of a refusal.
\<close>

section \<open>Starting, restarting, checkpointing\<close>

lemma new_simps:
  "role (consensus_new me cf seed) = Follower" "last_round (consensus_new me cf seed) = 0"
  "snapshot_round (consensus_new me cf seed) = 0" "self_id (consensus_new me cf seed) = me"
  "cfg (consensus_new me cf seed) = cf" "commit (consensus_new me cf seed) = 0"
  "hard (consensus_new me cf seed) = \<lparr>hs_term = 0, hs_voted_for = None\<rparr>"
  "campaign (consensus_new me cf seed) = None" "votes (consensus_new me cf seed) = {}"
  "own_tail (consensus_new me cf seed) = None" "agreed (consensus_new me cf seed) = 0"
  "snapshot_incoming (consensus_new me cf seed) = None"
  by (simp_all add: consensus_new_def own_tail_def agreed_def snapshot_incoming_def case_prod_beta)

lemma timing_new: "timing_ok (consensus_new me cf seed)"
  by (simp add: consensus_new_def timing_ok_def case_prod_beta)

lemma node_ok_new: "node_ok (consensus_new me cf seed)"
  using timing_new[of me cf seed]
  by (simp add: node_ok_def log_ok_def term_at_def new_simps)
    (simp add: consensus_new_def case_prod_beta)

lemma node_ok_joining: "node_ok (joining me seed)"
  using node_ok_new[of me config_empty seed] by (simp add: joining_def node_ok_def)

text \<open>The state after the first assignments of \<open>restore\<close>, and what each entry read back does to it.\<close>

definition restored :: "consensus \<Rightarrow> bool" where
  "restored c \<longleftrightarrow> log_ok c \<and> snapshot_round c \<le> last_round c \<and> role c = Follower \<and>
     cur_term c \<le> u64_max \<and> timing_ok c \<and> agreed c = 0"

lemma restore_entry_ok:
  assumes "restored c" "snapshot_round c = floor" "restore_entry floor e c = Some (d, as)"
  shows "restored d \<and> snapshot_round d = floor \<and> as = [] \<and> hard d = hard c \<and>
    self_id d = self_id c \<and> cfg d = cfg c \<and> campaign d = campaign c \<and> votes d = votes c"
proof (cases "e_round e \<le> floor")
  case False
  have log: "log_ok c" using assms(1) by (simp add: restored_def)
  have "e_round e = last_round c + 1"
    using assms(3) False log_ok_tail[OF log]
    by (auto simp: restore_entry_def push_own_def tail_push_def andthen_def split: option.splits if_splits)
  with push_own_ok[OF log this] obtain t where t: "push_own e c = done_with (set_own_tail t c)"
      "tail_wf t" "lt_base t = snapshot_round c" "tail_last_round t = last_round c + 1"
      "lt_entries t = lt_entries (tail_mut c) @ [e]" by blast
  let ?d = "(set_own_tail t c)\<lparr>last_round := last_round c + 1, last_term := e_term e\<rparr>"
  have "log_ok ?d" by (rule pushed_log_ok[OF log t])
  moreover have "d = ?d" "as = []"
    using assms(3) False t(1) \<open>e_round e = last_round c + 1\<close>
    by (auto simp: restore_entry_def done_with_def andthen_def)
  ultimately show ?thesis using assms(1,2) by (simp add: restored_def)
qed (use assms in \<open>auto simp: restore_entry_def done_with_def\<close>)

lemma restore_entries_ok:
  assumes "restored c" "snapshot_round c = floor" "for_each es (restore_entry floor) c = Some (d, as)"
  shows "restored d \<and> snapshot_round d = floor \<and> as = [] \<and> hard d = hard c \<and>
    self_id d = self_id c \<and> cfg d = cfg c \<and> campaign d = campaign c \<and> votes d = votes c"
  using assms
proof (induction es arbitrary: c as)
  case (Cons e es)
  obtain b bs cs where b: "restore_entry floor e c = Some (b, bs)"
      "for_each es (restore_entry floor) b = Some (d, cs)" "as = bs @ cs"
    using Cons.prems(3) by (auto simp: andthen_def split: option.splits)
  note r = restore_entry_ok[OF Cons.prems(1,2) b(1)]
  with Cons.IH[of b cs] b show ?case by simp
qed (auto simp: done_with_def)

lemma restore_ok:
  assumes "restore hs floor ft bd es (consensus_new me cf seed) = Some (d, as)" "hs_term hs \<le> u64_max"
  shows "node_ok d \<and> as = [] \<and> hard d = hs \<and> self_id d = me \<and> cfg d = cf \<and> role d = Follower \<and>
    campaign d = None \<and> votes d = {}"
proof -
  let ?b = "set_own_tail (rebased floor bd) ((consensus_new me cf seed)\<lparr>hard := hs,
    snapshot_round := floor, snapshot_term := ft, last_round := floor, last_term := ft\<rparr>)"
  have b: "restored ?b"
    using assms(2) timing_new[of me cf seed]
    by (simp add: restored_def log_ok_def term_at_def new_simps)
  obtain e where e: "for_each es (restore_entry floor) ?b = Some (e, as)"
      "d = e\<lparr>durable := last_round e, commit := floor, applied := floor\<rparr>"
    using assms(1) by (auto simp: restore_def Let_def new_simps andthen_def done_with_def
        split: option.splits)
  have fl: "snapshot_round ?b = floor" by simp
  from restore_entries_ok[OF b fl e(1)]
  show ?thesis by (auto simp: e(2) restored_def node_ok_def new_simps)
qed

text \<open>A log that is a contiguous run above the floor is restored without a panic, entry for entry.\<close>

lemma restore_entry_next:
  assumes "restored c" "snapshot_round c = floor" "e_round e = last_round c + 1"
  shows "\<exists>t. restore_entry floor e c =
      done_with ((set_own_tail t c)\<lparr>last_term := e_term e, last_round := last_round c + 1\<rparr>) \<and>
    lt_entries t = lt_entries (tail_mut c) @ [e]"
proof -
  have "log_ok c" "floor \<le> last_round c" using assms by (auto simp: restored_def)
  with push_own_ok[OF this(1) assms(3)] assms(3) show ?thesis
    by (auto simp: restore_entry_def)
qed

lemma restore_entries_next:
  assumes "restored c" "snapshot_round c = floor" "own.consecutive (last_round c + 1) es"
  shows "\<exists>d. for_each es (restore_entry floor) c = Some (d, []) \<and>
    lt_entries (tail_mut d) = lt_entries (tail_mut c) @ es \<and> last_round d = last_round c + length es"
  using assms
proof (induction es arbitrary: c)
  case (Cons e es)
  have e: "e_round e = last_round c + 1" and es: "own.consecutive (last_round c + 1 + 1) es"
    using Cons.prems(3) by (auto simp: own.consecutive_Cons)
  obtain t where t: "restore_entry floor e c =
      done_with ((set_own_tail t c)\<lparr>last_term := e_term e, last_round := last_round c + 1\<rparr>)"
      "lt_entries t = lt_entries (tail_mut c) @ [e]"
    using restore_entry_next[OF Cons.prems(1,2) e] by blast
  let ?d = "(set_own_tail t c)\<lparr>last_term := e_term e, last_round := last_round c + 1\<rparr>"
  have d: "restored ?d" "snapshot_round ?d = floor"
    using restore_entry_ok[OF Cons.prems(1,2)] t(1) by (simp_all add: done_with_def)
  have lr: "last_round ?d = last_round c + 1" by simp
  have "own.consecutive (last_round ?d + 1) es" using es unfolding lr .
  from Cons.IH[OF d this] t show ?case by auto
qed (auto simp: done_with_def)

lemma digest_known:
  assumes "log_ok c" "snapshot_round c < r" "r \<le> last_round c"
  shows "tail_digest_at (tail_mut c) r = Some (digest_or_0 c r)"
  using assms
  by (cases "own_tail c")
    (auto simp: digest_or_0_def digest_at_def tail_mut_def log_ok_def tail_digest_at_def)

lemma compact_ok:
  assumes ok: "node_ok c"
  shows "\<exists>d. fst (compact r c) = Some (d, []) \<and> node_ok d \<and> hard d = hard c \<and> self_id d = self_id c \<and>
    role d = role c \<and> campaign d = campaign c \<and> votes d = votes c \<and> cfg d = cfg c"
proof (cases "snapshot_round c < r \<and> r \<le> applied c \<and> r \<le> last_round c")
  case True
  have log: "log_ok c" using ok by (simp add: node_ok_def)
  note tl = log_ok_tail[OF log]
  obtain t where t: "compact_to (tail_mut c) r (digest_or_0 c r) = Some t" "tail_wf t" "lt_base t = r"
      "tail_last_round t = last_round c"
      "lt_entries t = drop (r - snapshot_round c) (lt_entries (tail_mut c))"
    using compact_to_wf[of "tail_mut c" r "digest_or_0 c r"] tl digest_known[OF log] True by auto
  obtain ct where ct: "term_at c r = Some ct" using term_at_known[OF log, of r] True by auto
  have last: "term_at c (last_round c) = Some (last_term c)" using log by (simp add: log_ok_def)
  have "tail_term_at t (last_round c) = Some (last_term c)" if "r < last_round c"
  proof -
    have "tail_term_at (tail_mut c) (last_round c) = Some (last_term c)"
      using last that True by (simp add: term_at_tail_mut)
    with tl t that True show ?thesis
      by (auto simp: tail_term_at_def tail_last_round_def split: if_splits)
  qed
  with ct last have "log_ok ((set_own_tail t c)\<lparr>snapshot_round := r, snapshot_term := ct\<rparr>)"
    using t True by (cases "r = last_round c") (auto simp: log_ok_def term_at_def)
  moreover have "fst (compact r c) = Some ((set_own_tail t c)\<lparr>snapshot_round := r, snapshot_term := ct\<rparr>, [])"
    using True ct t(1) by (simp add: compact_def compact_tail_def) (simp add: done_with_def)
  ultimately show ?thesis using ok True by (auto simp: node_ok_def)
next
  case False
  then consider "r \<le> snapshot_round c" | "snapshot_round c < r" "applied c < r"
    | "snapshot_round c < r" "r \<le> applied c" "last_round c < r" by linarith
  then have "fst (compact r c) = Some (c, [])" by cases (simp_all add: compact_def done_with_def)
  then show ?thesis using ok by simp
qed

lemma offer_cases:
  "fst (offer_snapshot_to p s c) = c \<or>
   fst (offer_snapshot_to p s c) = upd_progress p (\<lambda>p. p\<lparr>p_needs_snapshot := True,
     p_sending := Some \<lparr>sc_snapshot = s, sc_acked = 0\<rparr>\<rparr>) c"
  by (simp add: offer_snapshot_to_def split: sum.split)

lemma offer_ok:
  assumes "node_ok c" "fst (offer_snapshot_to p s c) = d"
  shows "node_ok d \<and> hard d = hard c \<and> self_id d = self_id c \<and> role d = role c \<and>
    campaign d = campaign c \<and> votes d = votes c \<and> cfg d = cfg c"
  using offer_cases[of p s c] assms by (auto simp: harmless_def intro!: node_ok_upd)

section \<open>Every state a node can be in\<close>

text \<open>
  A node starts fresh, as a joiner, or from what its disk holds; then its driver feeds it events,
  takes checkpoints, offers snapshots, and reports configurations. The term guard on a step is the
  ceiling of the \<open>u64\<close> term counter.
\<close>

inductive node_reach :: "consensus \<Rightarrow> bool" where
  fresh: "node_reach (consensus_new me cf seed)"
| join: "node_reach (joining me seed)"
| restart: "restore hs floor ft bd es (consensus_new me cf seed) = Some (c, as) \<Longrightarrow>
    hs_term hs \<le> u64_max \<Longrightarrow> node_reach c"
| event: "node_reach c \<Longrightarrow> event_ok ev \<Longrightarrow> cur_term c < u64_max \<Longrightarrow> step ev c = Some (d, as) \<Longrightarrow>
    node_reach d"
| checkpoint: "node_reach c \<Longrightarrow> fst (compact r c) = Some (d, as) \<Longrightarrow> node_reach d"
| offer: "node_reach c \<Longrightarrow> node_reach (fst (offer_snapshot_to p s c))"
| bootstrap: "node_reach c \<Longrightarrow> node_reach (note_bootstrap_config c)"
| noted: "node_reach c \<Longrightarrow> fst (note_config_in_log cf c) = Some (d, as) \<Longrightarrow> node_reach d"
| ack: "node_reach c \<Longrightarrow> node_reach (note_config_ack n a c)"
| began: "node_reach c \<Longrightarrow> fst (begin_membership cf own c) = Some (d, as) \<Longrightarrow> node_reach d"

lemma sound_state: "quiet.sound c m \<Longrightarrow> m = Some (d, as) \<Longrightarrow> node_ok d"
  by (auto simp: quiet.sound_def wp_Some)

lemma bootstrap_eq: "\<exists>a. note_bootstrap_config c = c\<lparr>acked := a\<rparr>"
proof -
  have "\<exists>a. fold (\<lambda>m c. c\<lparr>acked := (acked c)(m \<mapsto> config_at (cfg c))\<rparr>) ms c = c\<lparr>acked := a\<rparr>" for ms
  proof (induction ms arbitrary: c)
    case (Cons m ms)
    from Cons.IH[of "c\<lparr>acked := (acked c)(m \<mapsto> config_at (cfg c))\<rparr>"] show ?case by (simp add: fun_upd_def)
  next
    case Nil
    show ?case by (rule exI[of _ "acked c"]) simp
  qed
  then show ?thesis by (simp add: note_bootstrap_config_def)
qed

lemma begin_ok: "node_ok c \<Longrightarrow> quiet.sound c (fst (begin_membership cf own c))"
proof -
  assume ok: "node_ok c"
  have "quiet.sound c (apply_config cf (retain_acked cf c))"
    by (rule sound_via[OF quiet_same sound_apply_config]) (use ok in \<open>simp_all add: retain_acked_def node_ok_def\<close>)
  then show ?thesis by (auto simp: begin_membership_def quiet.sound_done ok split: sum.split)
qed

lemma node_reach_ok: "node_reach c \<Longrightarrow> node_ok c"
proof (induction rule: node_reach.induct)
  case (event c ev d as)
  then show ?case using sound_step[of c ev] by (auto simp: lawful.sound_def wp_Some)
next
  case (checkpoint c r d as)
  then show ?case using compact_ok[of c r] by auto
next
  case (bootstrap c)
  then show ?case using bootstrap_eq[of c] by (auto simp: node_ok_def)
next
  case (noted c cf d as)
  then show ?case using sound_note_config[of c cf] sound_state by blast
next
  case (ack c n a)
  then show ?case by (simp add: note_config_ack_def Let_def node_ok_def)
next
  case (began c cf own d as)
  then show ?case using begin_ok[of c cf own] sound_state by blast
qed (auto simp: node_ok_new node_ok_joining dest: restore_ok offer_ok)

text \<open>
  The round counter has a ceiling too. \<open>rounds_fit\<close> keeps every round the code adds one to -- the end of the
  log (twice: a new leader appends its own entry and then names the next one), the commit watermark, what
  each peer matched, the round of a snapshot being sent or received, the version of the configuration --
  below the last \<open>u64\<close>; \<open>event_fits\<close> does it for the rounds and the byte offset a message brings.
  \<open>bounded_reach\<close> is \<open>node_reach\<close> for a node whose states and inputs all stay below it, where the sums of
  the source and those of the model are the same.
\<close>

definition rounds_fit :: "consensus \<Rightarrow> bool" where
  "rounds_fit c \<longleftrightarrow> last_round c + 1 < u64_max \<and> commit c < u64_max \<and> cfg_version (cfg c) < u64_max \<and>
     (\<forall>n p. progress c n = Some p \<longrightarrow> p_matched p < u64_max \<and>
        (\<forall>s. p_sending p = Some s \<longrightarrow> sc_round s < u64_max) \<and>
        (\<forall>r. p_receiving p = Some r \<longrightarrow> sm_last_round (rc_meta r) < u64_max))"

fun event_fits :: "event \<Rightarrow> bool" where
  "event_fits (Recv m) \<longleftrightarrow> m_term m \<le> u64_max \<and>
     (case m_body m of
        Append prev prev_term es lc \<Rightarrow> prev + length es < u64_max \<and> lc < u64_max
      | AppendResp ok matched hint digest \<Rightarrow> matched < u64_max \<and> hint < u64_max
      | InstallSnapshot meta offset bs fin \<Rightarrow>
          sm_last_round meta < u64_max \<and> cfg_version (sm_config meta) < u64_max \<and>
          offset + length bs \<le> u64_max
      | _ \<Rightarrow> True)"
| "event_fits (Persisted r t) \<longleftrightarrow> r < u64_max"
| "event_fits _ \<longleftrightarrow> True"

inductive bounded_reach :: "consensus \<Rightarrow> bool" where
  b_fresh: "rounds_fit (consensus_new me cf seed) \<Longrightarrow> bounded_reach (consensus_new me cf seed)"
| b_join: "bounded_reach (joining me seed)"
| b_restart: "restore hs floor ft bd es (consensus_new me cf seed) = Some (c, as) \<Longrightarrow>
    hs_term hs \<le> u64_max \<Longrightarrow> floor < u64_max \<Longrightarrow> list_all (\<lambda>e. e_round e < u64_max) es \<Longrightarrow>
    rounds_fit c \<Longrightarrow> bounded_reach c"
| b_event: "bounded_reach c \<Longrightarrow> event_fits ev \<Longrightarrow> cur_term c < u64_max \<Longrightarrow>
    step ev c = Some (d, as) \<Longrightarrow> rounds_fit d \<Longrightarrow> bounded_reach d"
| b_checkpoint: "bounded_reach c \<Longrightarrow> fst (compact r c) = Some (d, as) \<Longrightarrow> rounds_fit d \<Longrightarrow>
    bounded_reach d"
| b_offer: "bounded_reach c \<Longrightarrow> fst (offer_snapshot_to p s c) = d \<Longrightarrow> rounds_fit d \<Longrightarrow> bounded_reach d"
| b_bootstrap: "bounded_reach c \<Longrightarrow> bounded_reach (note_bootstrap_config c)"
| b_noted: "bounded_reach c \<Longrightarrow> fst (note_config_in_log cf c) = Some (d, as) \<Longrightarrow> rounds_fit d \<Longrightarrow>
    bounded_reach d"
| b_ack: "bounded_reach c \<Longrightarrow> bounded_reach (note_config_ack n a c)"
| b_began: "bounded_reach c \<Longrightarrow> fst (begin_membership cf own c) = Some (d, as) \<Longrightarrow> rounds_fit d \<Longrightarrow>
    bounded_reach d"

lemma event_fits_ok: "event_fits ev \<Longrightarrow> event_ok ev"
  by (cases ev) auto

lemma bounded_reach_node: "bounded_reach c \<Longrightarrow> node_reach c"
  by (induction rule: bounded_reach.induct) (auto intro: node_reach.intros event_fits_ok)

lemma progress_new: "progress (consensus_new me cf seed) = Map.empty"
  by (simp add: consensus_new_def case_prod_beta)

lemma bounded_reach_fits: "bounded_reach c \<Longrightarrow> rounds_fit c"
proof (induction rule: bounded_reach.induct)
  case (b_join me seed)
  show ?case by (simp add: rounds_fit_def joining_def new_simps progress_new config_empty_def config_new_def)
next
  case (b_bootstrap c)
  then show ?case using bootstrap_eq[of c] by (auto simp: rounds_fit_def)
next
  case (b_ack c n a)
  then show ?case by (simp add: note_config_ack_def Let_def rounds_fit_def)
qed

text \<open>
  (C3) A node never panics and never leaves its invariant, as long as its rounds stay below the \<open>u64\<close>
  ceiling. In every state a node can reach -- fresh, joining or restarted, then driven by any events,
  checkpoints, snapshot offers and configuration reports, each of whose rounds fits -- its log is the one
  its scalars describe, the floor is applied, what is applied is committed, what is durable or agreed is
  in the log, a leader is receiving no snapshot, and the lease is shorter than the election timeout; every
  round it adds one to is below \<open>u64::MAX\<close>; and no event whose rounds fit (with the term below its own
  ceiling), checkpoint or configuration report makes it panic.
\<close>

theorem node_invariant:
  assumes "bounded_reach c"
  shows "node_ok c \<and> rounds_fit c \<and>
    (\<forall>ev. event_fits ev \<and> cur_term c < u64_max \<longrightarrow> step ev c \<noteq> None) \<and>
    (\<forall>r. fst (compact r c) \<noteq> None) \<and> (\<forall>cf. fst (note_config_in_log cf c) \<noteq> None) \<and>
    (\<forall>cf own. fst (begin_membership cf own c) \<noteq> None)"
proof -
  have ok: "node_ok c" by (rule node_reach_ok[OF bounded_reach_node[OF assms]])
  have "step ev c \<noteq> None" if "event_fits ev" "cur_term c < u64_max" for ev
    using sound_step[OF ok event_fits_ok[OF that(1)] that(2)] by (auto simp: lawful.sound_def wp_Some)
  moreover have "fst (compact r c) \<noteq> None" for r using compact_ok[OF ok, of r] by auto
  moreover have "fst (note_config_in_log cf c) \<noteq> None" for cf
    using sound_note_config[OF ok, of cf] by (auto simp: quiet.sound_def wp_Some)
  moreover have "fst (begin_membership cf own c) \<noteq> None" for cf own
    using begin_ok[OF ok, of cf own] by (auto simp: quiet.sound_def wp_Some)
  ultimately show ?thesis using ok bounded_reach_fits[OF assms] by blast
qed

lemma fresh_fits: "rounds_fit (consensus_new 1 (config_new [1, 2, 3] 1 1) 7)"
  by (simp add: rounds_fit_def new_simps progress_new config_new_def)

theorem node_invariant_witness:
  "\<exists>c as d bs. step Tick (consensus_new 1 (config_new [1, 2, 3] 1 1) 7) = Some (c, as) \<and>
   step (Recv \<lparr>m_from = 2, m_to = 1, m_term = 1,
       m_body = Append 0 0 [\<lparr>e_term = 1, e_round = 1, e_command = NoOp\<rparr>] 0\<rparr>)
     (consensus_new 1 (config_new [1, 2, 3] 1 1) 7) = Some (d, bs)"
proof -
  let ?c = "consensus_new 1 (config_new [1, 2, 3] 1 1) 7"
  let ?m = "\<lparr>m_from = 2, m_to = 1, m_term = 1,
    m_body = Append 0 0 [\<lparr>e_term = 1, e_round = 1, e_command = NoOp\<rparr>] 0\<rparr>"
  have "step ev ?c \<noteq> None" if "event_fits ev" for ev
    using node_invariant[OF b_fresh[OF fresh_fits]] that by (simp add: new_simps del: One_nat_def)
  from this[of Tick] this[of "Recv ?m"] show ?thesis by (auto simp del: step.simps)
qed

text \<open>
  (C20) Nothing a node promised is taken back. Over any step, the term, the commit and the applied
  watermarks never decrease, the node's id is kept, and within one term a vote once cast stays cast
  for the same candidate. At the end of the step the hard state in memory is the one the step's own
  \<open>PersistHardState\<close> actions leave on disk.
\<close>

theorem step_monotone:
  assumes "node_reach c" "event_ok ev" "cur_term c < u64_max" "step ev c = Some (d, as)"
  shows "self_id d = self_id c \<and> cur_term c \<le> cur_term d \<and> commit c \<le> commit d \<and>
    applied c \<le> applied d \<and>
    (cur_term d = cur_term c \<and> hs_voted_for (hard c) = Some v \<longrightarrow> hs_voted_for (hard d) = Some v) \<and>
    stored (hard c) as = hard d"
proof -
  have "evolves c d as"
    using sound_step[OF node_reach_ok[OF assms(1)] assms(2,3)] assms(4)
    by (auto simp: lawful.sound_def wp_Some)
  then show ?thesis
    using legal_term[of "self_id c" "hard c" as] legal_vote[of "self_id c" "hard c" as v]
    by (auto simp: evolves_def)
qed

theorem step_monotone_witness:
  "\<exists>d as. step (Recv \<lparr>m_from = 2, m_to = 1, m_term = 4, m_body = RequestVote 0 0\<rparr>)
       (consensus_new 1 (config_new [1, 2, 3] 1 1) 7) = Some (d, as) \<and> 0 \<le> cur_term d \<and>
     stored \<lparr>hs_term = 0, hs_voted_for = None\<rparr> as = hard d"
proof -
  let ?c = "consensus_new 1 (config_new [1, 2, 3] 1 1) 7"
  let ?ev = "Recv \<lparr>m_from = 2, m_to = 1, m_term = 4, m_body = RequestVote 0 0\<rparr>"
  have ev: "event_ok ?ev" "cur_term ?c < u64_max" by (simp_all add: new_simps)
  obtain d as where d: "step ?ev ?c = Some (d, as)"
    using sound_step[OF node_ok_new ev] by (auto simp: lawful.sound_def wp_Some)
  from step_monotone[OF node_reach.fresh ev d] d show ?thesis by (auto simp: new_simps)
qed

text \<open>
  (C7) A vote is on disk before it is sent. Wherever a granted \<open>RequestVoteResp\<close> stands in the list
  of actions a step emits, performing the actions before it leaves exactly that vote -- the response's
  term, for the node it is addressed to -- in the stored hard state.
\<close>

theorem vote_stored_before_sent:
  assumes "node_reach c" "event_ok ev" "cur_term c < u64_max"
    and "step ev c = Some (d, before @ Send m # after)" "m_body m = RequestVoteResp True"
  shows "stored (hard c) before = \<lparr>hs_term = m_term m, hs_voted_for = Some (m_to m)\<rparr> \<and>
    m_from m = self_id c"
  using sound_step[OF node_reach_ok[OF assms(1)] assms(2,3)] assms(4,5)
  by (auto simp: lawful.sound_def wp_Some evolves_def)

lemma fresh_grants:
  "\<exists>d. step (Recv \<lparr>m_from = 2, m_to = 1, m_term = 4, m_body = RequestVote 0 0\<rparr>)
       (consensus_new 1 (config_new [1, 2, 3] 1 1) 7) =
     Some (d, [PersistHardState 4 None, RoleChanged Follower 4 None, PersistHardState 4 (Some 2)] @
       Send \<lparr>m_from = 1, m_to = 2, m_term = 4, m_body = RequestVoteResp True\<rparr> # [])"
  by (simp add: on_message_def hypothetical_def become_follower_def Let_def on_vote_msg_def
      on_request_vote_def leader_is_live_def log_is_at_least_as_complete_def send_to_def
      andthen_def emit_def consensus_new_def case_prod_beta)

theorem vote_stored_before_sent_witness:
  "\<exists>d. step (Recv \<lparr>m_from = 2, m_to = 1, m_term = 4, m_body = RequestVote 0 0\<rparr>)
       (consensus_new 1 (config_new [1, 2, 3] 1 1) 7) =
     Some (d, [PersistHardState 4 None, RoleChanged Follower 4 None, PersistHardState 4 (Some 2)] @
       Send \<lparr>m_from = 1, m_to = 2, m_term = 4, m_body = RequestVoteResp True\<rparr> # []) \<and>
   stored \<lparr>hs_term = 0, hs_voted_for = None\<rparr> [PersistHardState 4 None, RoleChanged Follower 4 None,
     PersistHardState 4 (Some 2)] = \<lparr>hs_term = 4, hs_voted_for = Some 2\<rparr>"
proof -
  let ?c = "consensus_new 1 (config_new [1, 2, 3] 1 1) 7"
  let ?ev = "Recv \<lparr>m_from = 2, m_to = 1, m_term = 4, m_body = RequestVote 0 0\<rparr>"
  have ev: "event_ok ?ev" "cur_term ?c < u64_max" by (simp_all add: new_simps)
  obtain d where d: "step ?ev ?c = Some (d, [PersistHardState 4 None, RoleChanged Follower 4 None,
      PersistHardState 4 (Some 2)] @
      Send \<lparr>m_from = 1, m_to = 2, m_term = 4, m_body = RequestVoteResp True\<rparr> # [])"
    using fresh_grants by blast
  from vote_stored_before_sent[OF node_reach.fresh ev d] d show ?thesis
    by (intro exI[of _ d] conjI) (simp_all add: new_simps)
qed

section \<open>A leader's log\<close>

text \<open>Outside a campaign the vote messages change neither standing nor log.\<close>

lemma vote_msg_idle:
  assumes "role c \<noteq> PreCandidate" "role c \<noteq> Candidate" "on_vote_msg m c = Some (d, as)"
  shows "role d = role c \<and> campaign d = campaign c \<and> votes d = votes c \<and> tail_mut d = tail_mut c \<and>
    snapshot_round d = snapshot_round c \<and> snapshot_term d = snapshot_term c \<and>
    cur_term d = cur_term c \<and> cfg d = cfg c \<and> (\<forall>t l. RoleChanged Leader t l \<notin> set as)"
  using assms
  by (cases "m_body m")
    (auto simp: on_vote_msg_def on_pre_vote_def on_pre_vote_resp_def on_request_vote_def
      on_request_vote_resp_def Let_def emit_def done_with_def send_to_def split: if_splits)

lemma sound_quiet_law: "quiet.sound c m \<Longrightarrow> m = Some (d, as) \<Longrightarrow> quiet_law c d as"
  by (auto simp: quiet.sound_def wp_Some)

text \<open>The two halves of \<open>on_message\<close>, taken apart.\<close>

lemma on_message_cases:
  assumes "node_ok c" "m_term m \<le> u64_max" "on_message m c = Some (d, as)"
  obtains (stale) "d = c" "\<forall>t l. RoleChanged Leader t l \<notin> set as"
  | (vote) b bs cs where "is_vote_body (m_body m)" "on_vote_msg m b = Some (d, cs)" "as = bs @ cs"
      "b = c \<and> bs = [] \<or> role b = Follower \<and> (\<forall>t l. RoleChanged Leader t l \<notin> set bs)"
      "b = c \<longrightarrow> bs = [] \<or> role c = Follower" "quiet_law c b bs" "node_ok b"
      "b = c \<or> cur_term b = m_term m"
  | (append) "quiet_law c d as"
proof (cases "m_term m < cur_term c")
  case True
  then have "d = c" "\<forall>t l. RoleChanged Leader t l \<notin> set as"
    using assms(3) by (auto simp: on_message_def emit_def done_with_def split: if_splits option.splits)
  then show ?thesis by (rule stale)
next
  case False
  let ?first = "if cur_term c < m_term m \<and> \<not> hypothetical (m_body m)
    then become_follower (m_term m) None c else done_with c"
  obtain b bs cs where b: "?first = Some (b, bs)" "as = bs @ cs"
      "(if is_vote_body (m_body m) then on_vote_msg m b else on_append_msg m b) = Some (d, cs)"
    using assms(3) False by (auto simp: on_message_def andthen_def split: option.splits)
  have first: "node_ok b" "quiet_law c b bs"
    using follow_first[OF assms(1,2)] b(1) by (auto simp: quiet.sound_def wp_Some)
  note st = follow_first_state[OF b(1)]
  show ?thesis
  proof (cases "is_vote_body (m_body m)")
    case True
    show ?thesis by (rule vote[of b cs bs]) (use True b st first in auto)
  next
    case nv: False
    have "cur_term b \<le> m_term m" using st False by auto
    then have "quiet.sound b (on_append_msg m b)"
      using nv assms(2) by (intro sound_on_append_msg first(1))
    then have "quiet_law b d cs" using b(3) nv by (auto intro: sound_quiet_law)
    with first(2) have "quiet_law c d as" unfolding b(2) by (rule quiet.R_trans)
    then show ?thesis by (rule append)
  qed
qed

lemma calm_leader:
  assumes "quiet_law c d as" "role c = Leader" "role d = Leader"
  shows "cur_term d = cur_term c \<and> log_grows c d"
  using assms by (auto simp: quiet_law_def calm_def)

end
