(* ===== verification/Node_Rules.thy ===== *)
theory Node_Rules
  imports Node_Runs
begin

text \<open>
  The rules one node decides by, each against what it is meant to compute: what a proposal does, when
  the commit watermark moves, when a leader keeps its lease, and which round a refusal hints at.
\<close>

section \<open>Proposals\<close>

lemma bcast_frame:
  assumes "bcast_append c = Some (d, as)"
  obtains pr where "d = c\<lparr>progress := pr\<rparr>" "tail_mut d = tail_mut c"
  using bcast_only[OF assms] by (auto simp: only_progress_def)

lemma bcast_returns: "node_ok c \<Longrightarrow> \<exists>d as. bcast_append c = Some (d, as)"
  using sound_bcast[of c] by (auto simp: quiet.sound_def wp_Some)

lemma append_own_entry_eq:
  assumes log: "log_ok c"
  shows "\<exists>t. append_own_entry cmd c = emit ((set_own_tail t c)\<lparr>last_round := last_round c + 1,
      last_term := cur_term c\<rparr>)
      [Persist [\<lparr>e_term = cur_term c, e_round = last_round c + 1, e_command = cmd\<rparr>]] \<and>
    lt_entries t = lt_entries (tail_mut c) @
      [\<lparr>e_term = cur_term c, e_round = last_round c + 1, e_command = cmd\<rparr>]"
proof -
  let ?e = "\<lparr>e_term = cur_term c, e_round = last_round c + 1, e_command = cmd\<rparr>"
  let ?c = "set_own_tail (tail_mut c) c"
  obtain t where t: "push_own ?e ?c = done_with (set_own_tail t ?c)"
      "lt_entries t = lt_entries (tail_mut ?c) @ [?e]"
    using push_own_ok[OF ensured_log_ok[OF log], of ?e] by auto
  show ?thesis
    using t by (intro exI[of _ t]) (simp add: append_own_entry_def ensure_log_eq[OF log] Let_def)
qed

lemma propose_lead:
  fixes c :: consensus and cmd :: command
  assumes "node_ok c" "role c = Leader"
  defines "e \<equiv> \<lparr>e_term = cur_term c, e_round = last_round c + 1, e_command = cmd\<rparr>"
    and "c' \<equiv> set_own_tail (tail_mut c) c"
  shows "step (Propose cmd) c = (case admit_entry e of
      Inl why \<Rightarrow> emit c' [Refuse why] | Inr _ \<Rightarrow> andthen (append_own_entry cmd c') bcast_append)"
  using assms(2) ensure_log_eq[of c] assms(1) unfolding e_def c'_def
  by (simp add: on_propose_def node_ok_def)

lemma tail_put_back:
  "set_own_tail (tail_mut c) c = (if own_tail c = None then set_own_tail (rebased (snapshot_round c) 0) c else c)"
proof (cases "progress c (self_id c)")
  case None
  then show ?thesis by (simp add: own_tail_def tail_mut_def)
next
  case (Some p)
  then show ?thesis
    by (cases "p_own_log p")
      (simp_all add: own_tail_def tail_mut_def set_own_tail_def upd_progress_def progress_entry_def fun_upd_idem)
qed

lemma propose_accepted:
  fixes c :: consensus and cmd :: command
  assumes ok: "node_ok c" and lead: "role c = Leader"
  defines "e \<equiv> \<lparr>e_term = cur_term c, e_round = last_round c + 1, e_command = cmd\<rparr>"
  assumes admitted: "admit_entry e = Inr ()"
  shows "\<exists>d as. step (Propose cmd) c = Some (d, Persist [e] # as) \<and> role d = Leader \<and>
     lt_entries (tail_mut d) = lt_entries (tail_mut c) @ [e] \<and> last_round d = last_round c + 1 \<and>
     last_term d = cur_term c \<and> hard d = hard c \<and> commit d = commit c \<and>
     applied d = applied c \<and> durable d = durable c"
proof -
  let ?c = "set_own_tail (tail_mut c) c"
  have c: "log_ok ?c" "node_ok ?c"
    using ensured_log_ok[of c] ensured_node_ok[OF ok] ok by (auto simp: node_ok_def)
  obtain t where t: "append_own_entry cmd ?c = emit ((set_own_tail t ?c)\<lparr>last_round := last_round c + 1,
        last_term := cur_term c\<rparr>) [Persist [e]]" "lt_entries t = lt_entries (tail_mut ?c) @ [e]"
    using append_own_entry_eq[OF c(1), of cmd] by (auto simp: e_def)
  let ?d = "(set_own_tail t ?c)\<lparr>last_round := last_round c + 1, last_term := cur_term c\<rparr>"
  have "node_ok ?d" using sound_append_own_entry[OF c(2), of cmd] t(1) by (simp add: quiet.sound_def)
  then obtain b as where b: "bcast_append ?d = Some (b, as)" using bcast_returns by blast
  obtain pr where frame: "b = ?d\<lparr>progress := pr\<rparr>" "tail_mut b = tail_mut ?d"
    by (rule bcast_frame[OF b])
  have "step (Propose cmd) c = Some (b, Persist [e] # as)"
    using propose_lead[OF ok lead, of cmd] admitted t(1) b by (simp add: andthen_def emit_def e_def)
  then show ?thesis
    using frame t(2) lead by (intro exI[of _ b] exI[of _ as]) (simp add: tail_mut_def)
qed

text \<open>
  (C24) What a proposal does, on a node whose log has room for a round below the last \<open>u64\<close>. On a node that
  does not lead it is refused with the leader's name and changes nothing. On a leader, a command that does
  not pass admission is refused with the reason and changes nothing either, except that a leader that had
  no tail in memory has the empty one of its floor; one that does is appended as the next round of the leader's own term, is the
  first action emitted for durability (ahead of every message shipping it), and moves no watermark.
\<close>

theorem propose_outcome:
  fixes c :: consensus and cmd :: command
  assumes ok: "node_ok c" and room: "last_round c + 1 < u64_max"
  defines "e \<equiv> \<lparr>e_term = cur_term c, e_round = last_round c + 1, e_command = cmd\<rparr>"
  shows "(role c \<noteq> Leader \<longrightarrow>
      step (Propose cmd) c = Some (c, [Refuse (NotLeader (map_option id_text (leader c)))])) \<and>
    (role c = Leader \<and> admit_entry e = Inl why \<longrightarrow>
      step (Propose cmd) c =
        Some (if own_tail c = None then set_own_tail (rebased (snapshot_round c) 0) c else c, [Refuse why])) \<and>
    (role c = Leader \<and> admit_entry e = Inr () \<longrightarrow>
      (\<exists>d as. step (Propose cmd) c = Some (d, Persist [e] # as) \<and> role d = Leader \<and>
         lt_entries (tail_mut d) = lt_entries (tail_mut c) @ [e] \<and> last_round d = last_round c + 1 \<and>
         last_term d = cur_term c \<and> hard d = hard c \<and> commit d = commit c \<and>
         applied d = applied c \<and> durable d = durable c))"
proof -
  have "step (Propose cmd) c =
      Some (if own_tail c = None then set_own_tail (rebased (snapshot_round c) 0) c else c, [Refuse why])"
    if "role c = Leader" "admit_entry e = Inl why"
    using propose_lead[OF ok that(1), of cmd] that(2) tail_put_back[of c] by (simp add: emit_def e_def)
  then show ?thesis
    using propose_accepted[OF ok, of cmd] by (auto simp: on_propose_def emit_def e_def)
qed

definition sample_tail :: log_tail where
  "sample_tail =
     (let es = [\<lparr>e_term = 4, e_round = 1, e_command = NoOp\<rparr>, \<lparr>e_term = 5, e_round = 2, e_command = NoOp\<rparr>]
      in \<lparr>lt_base = 0, lt_base_digest = 0, lt_entries = es, lt_digests = digest_chain 0 es,
          lt_rewritten_in_term = 0\<rparr>)"

definition sample_busy :: consensus where
  "sample_busy = sample_leader\<lparr>last_round := 2, last_term := 5, durable := 2, progress :=
     [1 \<mapsto> progress_default\<lparr>p_own_log := Some sample_tail, p_matched := 2\<rparr>,
      2 \<mapsto> progress_default\<lparr>p_matched := 2\<rparr>]\<rparr>"

lemma sample_busy_simps [simp]:
  "role sample_busy = Leader" "cur_term sample_busy = 5" "last_round sample_busy = 2"
  "commit sample_busy = 0" "snapshot_round sample_busy = 0" "self_id sample_busy = 1"
  "cfg sample_busy = \<lparr>members = [1, 2, 3], learners = [4], cfg_version = 1, cfg_term = 1\<rparr>" "tail_mut sample_busy = sample_tail" "lease sample_busy = 8"
  "own_tail sample_busy = Some sample_tail"
  by (simp_all add: sample_busy_def sample_leader_def sample_config_def tail_mut_def own_tail_def)

lemma sample_tail_simps [simp]:
  "tail_wf sample_tail" "lt_base sample_tail = 0" "tail_last_round sample_tail = 2"
  "tail_term_at sample_tail 1 = Some 4" "tail_term_at sample_tail 2 = Some 5"
  by (auto simp: sample_tail_def tail_wf_def tail_last_round_def tail_term_at_def Let_def
      less_Suc_eq numeral_2_eq_2)

lemma sample_busy_terms [simp]: "term_at sample_busy (Suc 0) = Some 4" "term_at sample_busy 2 = Some 5"
  using sample_tail_simps(4) by (simp_all add: term_at_def)

lemma sample_busy_ok: "log_ok sample_busy" "node_ok sample_busy"
proof -
  show log: "log_ok sample_busy" by (simp add: log_ok_def) (simp add: sample_busy_def)
  then show "node_ok sample_busy"
    by (simp add: node_ok_def timing_ok_def)
      (simp add: sample_busy_def sample_leader_def agreed_def snapshot_incoming_def
        progress_default_def)
qed

lemma sample_busy_wf: "config_wf (cfg sample_busy)" "members (cfg sample_busy) = [1, 2, 3]"
  by (simp_all add: config_wf_def)

lemma noop_admitted: "admit_entry \<lparr>e_term = t, e_round = r, e_command = NoOp\<rparr> = Inr ()"
  by (simp add: admit_entry_iff entry_enc_def entry_bytes_def budget_eq)

theorem propose_outcome_witness:
  "\<exists>d as. step (Propose NoOp) sample_busy =
     Some (d, Persist [\<lparr>e_term = 5, e_round = 3, e_command = NoOp\<rparr>] # as) \<and> role d = Leader"
  using propose_outcome[OF sample_busy_ok(2), of NoOp] noop_admitted by auto

text \<open>
  (C15) A leader only appends. From any state that satisfies the node invariant, if a node leads before
  and after a step, its term and its floor are
  unchanged, and its log is what it was followed by entries of its own term: nothing is overwritten,
  removed or added under another term.
\<close>

theorem leader_append_only:
  assumes ok: "node_ok c" and ev: "event_ok ev" "cur_term c < u64_max"
    and st: "step ev c = Some (d, as)" and lead: "role c = Leader" "role d = Leader"
  shows "cur_term d = cur_term c \<and> snapshot_round d = snapshot_round c \<and>
    (\<exists>es. lt_entries (tail_mut d) = lt_entries (tail_mut c) @ es \<and>
       (\<forall>e \<in> set es. e_term e = cur_term c))"
proof -
  have goal: ?thesis if "quiet_law c d as"
    using calm_leader[OF that lead] by (auto simp: log_grows_def)
  show ?thesis
  proof (cases ev)
    case Tick
    then show ?thesis
      using st lead goal sound_quiet_law[OF sound_leader_tick[OF ok]] by (simp add: on_tick_def)
  next
    case (Recv m)
    have t: "m_term m \<le> u64_max" "on_message m c = Some (d, as)" using ev st Recv by auto
    from ok t show ?thesis
    proof (cases rule: on_message_cases)
      case stale
      then show ?thesis by auto
    next
      case (vote b bs cs)
      then have nf: "role b \<noteq> PreCandidate" "role b \<noteq> Candidate" using lead by auto
      note idle = vote_msg_idle[OF nf vote(2)]
      have "b = c" using idle vote(4) lead by auto
      with idle show ?thesis by auto
    next
      case append
      then show ?thesis by (rule goal)
    qed
  next
    case (Persisted t r)
    then show ?thesis using st goal sound_quiet_law[OF sound_on_persisted[OF ok]] by simp
  next
    case (Propose cmd)
    then show ?thesis using st goal sound_quiet_law[OF sound_on_propose[OF ok]] by simp
  qed
qed

theorem leader_append_only_witness:
  "\<exists>d as es. step (Propose NoOp) sample_busy = Some (d, as) \<and> cur_term d = cur_term sample_busy \<and>
     lt_entries (tail_mut d) = lt_entries (tail_mut sample_busy) @ es"
proof -
  obtain d as where d: "step (Propose NoOp) sample_busy = Some (d, as)" "role d = Leader"
    using propose_accepted[OF sample_busy_ok(2) sample_busy_simps(1) noop_admitted] by blast
  have "event_ok (Propose NoOp)" "cur_term sample_busy < u64_max" by simp_all
  from leader_append_only[OF sample_busy_ok(2) this d(1) _ d(2)] d(1) show ?thesis by auto
qed

section \<open>Committing\<close>

lemma quorum_positive: "0 < quorum cf"
  by (simp add: quorum_def)

lemma quorum_le: "members cf \<noteq> [] \<Longrightarrow> quorum cf \<le> length (members cf)"
  by (cases "members cf") (auto simp: quorum_def)

text \<open>\<open>quorum_matched\<close> reads off the sorted list the greatest round a majority of voters holds.\<close>

lemma quorum_matched_iff:
  assumes wf: "config_wf (cfg c)" and ne: "members (cfg c) \<noteq> []"
  shows "r \<le> quorum_matched c \<longleftrightarrow> majority (cfg c) {n \<in> set (members (cfg c)). r \<le> held_by c n}"
proof -
  let ?held = "map (held_by c) (members (cfg c))"
  have "r \<le> quorum_matched c \<longleftrightarrow> quorum (cfg c) \<le> length (filter (\<lambda>x. r \<le> x) ?held)"
    using rev_sort_nth_ge[of "quorum (cfg c)" ?held r] quorum_le[OF ne] quorum_positive ne
    by (simp add: quorum_matched_def Let_def)
  also have "length (filter (\<lambda>x. r \<le> x) ?held) = card {n \<in> set (members (cfg c)). r \<le> held_by c n}"
    using length_filter_card[OF config_wf_distinct[OF wf], of "\<lambda>n. r \<le> held_by c n"]
    by (simp add: filter_map o_def)
  finally show ?thesis using ne by (auto simp: majority_def has_quorum_def)
qed

lemma advance_commit_fields:
  assumes "node_ok c" "advance_commit c = Some (d, as)"
  shows "commit d = (if commit_advances c then quorum_matched c else commit c)"
proof (cases "commit_advances c")
  case True
  let ?c = "c\<lparr>commit := quorum_matched c\<rparr>"
  obtain b bs cs where b: "advance_apply ?c = Some (b, bs)" "bcast_append b = Some (d, cs)"
    using assms(2) True by (auto simp: advance_commit_def andthen_def split: option.splits)
  have "commit b = quorum_matched c"
    using b(1) by (auto simp: advance_apply_def Let_def emit_def done_with_def split: if_splits)
  moreover have "commit d = commit b"
    by (rule bcast_frame[OF b(2)]) simp
  ultimately show ?thesis using True by simp
qed (use assms in \<open>auto simp: advance_commit_def done_with_def\<close>)

text \<open>
  (C4) The commit rule. When a leader looks for rounds to commit, the watermark it arrives at is
  either the one it had, or the greatest round that a majority of its voters holds durably -- a peer
  latched as diverged counting for nothing -- and then that round is above the old watermark and
  carries the leader's own term. It stays put only if no higher round is held by a majority, or the
  greatest one that is belongs to an earlier term.
\<close>

theorem commit_rule:
  assumes ok: "node_ok c" and wf: "config_wf (cfg c)" "members (cfg c) \<noteq> []"
    and lead: "role c = Leader" and run: "advance_commit c = Some (d, as)"
  defines "held r \<equiv> majority (cfg c) {n \<in> set (members (cfg c)). r \<le> held_by c n}"
  shows "(commit d \<noteq> commit c \<longrightarrow> commit c < commit d \<and> held (commit d) \<and>
      (\<forall>r > commit d. \<not> held r) \<and> term_at c (commit d) = Some (cur_term c) \<and>
      commit d \<le> last_round c) \<and>
    (commit d = commit c \<longrightarrow> (\<forall>r > commit c. \<not> held r) \<or>
      (\<exists>r > commit c. held r \<and> (\<forall>q > r. \<not> held q) \<and> term_at c r \<noteq> Some (cur_term c)))"
proof -
  let ?q = "quorum_matched c"
  have iff: "held r \<longleftrightarrow> r \<le> ?q" for r
    using quorum_matched_iff[OF wf, of r] by (simp add: held_def)
  have d: "commit d = (if commit_advances c then ?q else commit c)"
    by (rule advance_commit_fields[OF ok run])
  have log: "log_ok c" using ok by (simp add: node_ok_def)
  show ?thesis
  proof (cases "commit_advances c")
    case True
    then have "commit c < ?q" "term_at c ?q = Some (cur_term c)" by (auto simp: commit_advances_def)
    moreover from this have "?q \<le> last_round c" using term_at_known[OF log, of ?q] by simp
    ultimately show ?thesis using d True iff by auto
  next
    case False
    then have "?q \<le> commit c \<or> commit c < ?q \<and> term_at c ?q \<noteq> Some (cur_term c)"
      using lead by (auto simp: commit_advances_def)
    with d False iff show ?thesis by fastforce
  qed
qed

theorem commit_rule_witness:
  "\<exists>d as. advance_commit sample_busy = Some (d, as) \<and> commit d = 2 \<and>
     term_at sample_busy (commit d) = Some (cur_term sample_busy)"
proof -
  have q: "quorum_matched sample_busy = 2"
    by (simp add: quorum_matched_def quorum_def held_by_def)
      (simp add: sample_busy_def sample_leader_def progress_default_def)
  obtain d as where d: "advance_commit sample_busy = Some (d, as)"
    using sound_advance_commit[OF sample_busy_ok(2)] by (auto simp: quiet.sound_def wp_Some)
  have "commit d = 2"
    using advance_commit_fields[OF sample_busy_ok(2) d] q by (simp add: commit_advances_def)
  with commit_rule[OF sample_busy_ok(2) sample_busy_wf(1) _ _ d] d show ?thesis
    by (auto simp: sample_busy_wf(2))
qed

section \<open>The lease\<close>

lemma quorum_silence_less:
  assumes wf: "config_wf (cfg c)" and ne: "members (cfg c) \<noteq> []"
  shows "quorum_silence c < l \<longleftrightarrow> majority (cfg c) {n \<in> set (members (cfg c)). silence_of c n < l}"
proof -
  let ?ages = "map (silence_of c) (members (cfg c))"
  have q: "0 < quorum (cfg c)" "quorum (cfg c) \<le> length ?ages"
    using quorum_positive quorum_le[OF ne] by auto
  have qs: "quorum_silence c = sort ?ages ! (quorum (cfg c) - 1)"
    using q by (auto simp: quorum_silence_def Let_def)
  have card: "length (filter P ?ages) = card {n \<in> set (members (cfg c)). P (silence_of c n)}" for P
    using length_filter_card[OF config_wf_distinct[OF wf], of "P \<circ> silence_of c"]
    by (simp add: filter_map)
  show ?thesis
  proof (cases l)
    case 0
    then show ?thesis by (auto simp: majority_def has_quorum_def quorum_def)
  next
    case (Suc k)
    have "quorum_silence c < l \<longleftrightarrow> quorum (cfg c) \<le> card {n \<in> set (members (cfg c)). silence_of c n \<le> k}"
      using sort_nth_le[OF q, of k] card[of "\<lambda>x. x \<le> k"] by (simp add: qs Suc less_Suc_eq_le)
    then show ?thesis using ne by (auto simp: majority_def has_quorum_def Suc less_Suc_eq_le)
  qed
qed

lemma quorum_silence_frame [simp]:
  "quorum_silence (c\<lparr>since_quorum := x\<rparr>) = quorum_silence c"
proof -
  have "silence_of (c\<lparr>since_quorum := x\<rparr>) = silence_of c" by (simp add: silence_of_def fun_eq_iff)
  then show ?thesis by (simp add: quorum_silence_def)
qed

text \<open>
  (C16) The lease. On a tick, after every peer has grown one tick more silent, a leader that is a
  voter in its (well-formed) configuration keeps office if and only if a majority of the voters, itself
  included, has answered within fewer ticks than the lease; otherwise it steps down in that same tick,
  before any message is sent, and keeps its term.
\<close>

theorem leader_lease:
  assumes ok: "node_ok c" and wf: "config_wf (cfg c)" and lead: "role c = Leader"
    and voter: "contains (cfg c) (self_id c)"
  defines "aged \<equiv> fold age_peer (peer_ids c) c"
  shows "\<exists>d as. step Tick c = Some (d, as) \<and> cur_term d = cur_term c \<and>
    (if majority (cfg c) {n \<in> set (members (cfg c)). silence_of aged n < lease c}
     then role d = Leader else role d = Follower \<and> as = [RoleChanged Follower (cur_term c) None])"
proof -
  obtain pr where pr: "aged = c\<lparr>progress := pr\<rparr>" unfolding aged_def using age_peer_eq by blast
  let ?b = "aged\<lparr>since_quorum := quorum_silence aged\<rparr>"
  have ne: "members (cfg c) \<noteq> []" using voter by (auto simp: contains_def)
  have keeps: "quorum_silence aged < lease c \<longleftrightarrow>
      majority (cfg c) {n \<in> set (members (cfg c)). silence_of aged n < lease c}"
    using quorum_silence_less[of aged "lease c"] wf ne by (simp add: pr)
  obtain d as where d: "step Tick c = Some (d, as)"
    using sound_leader_tick[OF ok] lead by (auto simp: on_tick_def quiet.sound_def wp_Some)
  have tick: "step Tick c = (if lease c \<le> quorum_silence aged then become_follower (cur_term c) None ?b
      else (let b = ?b\<lparr>since_heartbeat := sat_add32 (since_heartbeat c) 1\<rparr> in
        if heartbeat c \<le> since_heartbeat b then bcast_append (b\<lparr>since_heartbeat := 0\<rparr>) else done_with b))"
    using lead voter by (simp add: on_tick_def leader_tick_def aged_def[symmetric] Let_def pr)
  show ?thesis
  proof (cases "lease c \<le> quorum_silence aged")
    case True
    then have "step Tick c = become_follower (cur_term c) None ?b" using tick by simp
    then have "role d = Follower \<and> cur_term d = cur_term c \<and> as = [RoleChanged Follower (cur_term c) None]"
      using d lead by (auto simp: become_follower_def emit_def Let_def pr)
    with True keeps d show ?thesis by auto
  next
    case False
    have "role d = Leader \<and> cur_term d = cur_term c"
    proof (cases "heartbeat c \<le> sat_add32 (since_heartbeat c) 1")
      case True
      then have "bcast_append (?b\<lparr>since_heartbeat := 0\<rparr>) = Some (d, as)"
        using tick d False by (simp add: Let_def)
      then show ?thesis by (rule bcast_frame) (simp add: pr lead)
    next
      case h: False
      then show ?thesis using tick d False lead by (auto simp: Let_def done_with_def pr)
    qed
    with False keeps d show ?thesis by auto
  qed
qed

theorem leader_lease_witness:
  "\<exists>d as. step Tick sample_busy = Some (d, as) \<and> role d = Leader"
proof -
  let ?aged = "fold age_peer (peer_ids sample_busy) sample_busy"
  have "{n \<in> set (members (cfg sample_busy)). silence_of ?aged n < lease sample_busy} \<supseteq> {1, 2}"
    by (simp add: peer_ids_def age_peer_def silence_of_def)
      (simp add: sample_busy_def sample_leader_def progress_default_def sat_add32_def)
  then have "majority (cfg sample_busy)
      {n \<in> set (members (cfg sample_busy)). silence_of ?aged n < lease sample_busy}"
    using card_mono[of "{n \<in> set (members (cfg sample_busy)). silence_of ?aged n < lease sample_busy}" "{1, 2}"]
    by (auto simp: majority_def has_quorum_def quorum_def sample_busy_wf(2))
  moreover have "contains (cfg sample_busy) (self_id sample_busy)" by (simp add: contains_def)
  ultimately show ?thesis
    using leader_lease[OF sample_busy_ok(2) sample_busy_wf(1) sample_busy_simps(1)] by auto
qed

section \<open>The hint of a refusal\<close>

lemma back_up_spec:
  assumes "back_up c t lo = f" "snapshot_round c < lo" "term_at c lo = Some t"
  shows "snapshot_round c < f \<and> f \<le> lo \<and> (\<forall>q. f \<le> q \<and> q \<le> lo \<longrightarrow> term_at c q = Some t) \<and>
    (f = snapshot_round c + 1 \<or> term_at c (f - 1) \<noteq> Some t)"
  using assms
proof (induction lo)
  case (Suc lo)
  show ?case
  proof (cases "snapshot_round c + 1 < Suc lo \<and> term_at c lo = Some t")
    case True
    with Suc have "snapshot_round c < f \<and> f \<le> lo \<and> (\<forall>q. f \<le> q \<and> q \<le> lo \<longrightarrow> term_at c q = Some t) \<and>
      (f = snapshot_round c + 1 \<or> term_at c (f - 1) \<noteq> Some t)"
      by auto
    with Suc.prems(3) show ?thesis by (auto simp: le_Suc_eq)
  next
    case False
    then show ?thesis using Suc.prems by (auto simp: le_Suc_eq)
  qed
qed simp

text \<open>
  (C31) The retry hint skips a whole run. For a round the node holds above its floor,
  \<open>first_round_of_term_run\<close> is the start of the maximal run of rounds of that round's term: it is above
  the floor and no later than the round asked about, every round from it to there carries the term,
  and it is the first round above the floor or the round before it carries another term.
\<close>

theorem term_run_hint:
  assumes "log_ok c" "snapshot_round c < r" "r \<le> last_round c"
  defines "f \<equiv> first_round_of_term_run c r"
  shows "snapshot_round c < f \<and> f \<le> r \<and> (\<forall>q. f \<le> q \<and> q \<le> r \<longrightarrow> term_at c q = term_at c r) \<and>
    (f = snapshot_round c + 1 \<or> term_at c (f - 1) \<noteq> term_at c r)"
proof -
  obtain t where t: "term_at c r = Some t" using term_at_known[OF assms(1), of r] assms(2,3) by auto
  then show ?thesis
    using back_up_spec[of c t r f] assms(2) by (auto simp: f_def first_round_of_term_run_def)
qed

theorem term_run_hint_witness: "first_round_of_term_run sample_busy 2 = 2"
proof -
  have "term_at sample_busy 1 = Some 4" by simp
  moreover have "let f = first_round_of_term_run sample_busy 2 in
      0 < f \<and> f \<le> 2 \<and> (\<forall>q. f \<le> q \<and> q \<le> 2 \<longrightarrow> term_at sample_busy q = Some 5)"
    using term_run_hint[OF sample_busy_ok(1), of 2] by (simp add: Let_def)
  ultimately show ?thesis
    by (auto simp: Let_def le_Suc_eq numeral_2_eq_2) 
qed

section \<open>The clock\<close>

text \<open>Hearing nothing: \<open>k\<close> ticks in a row.\<close>

fun ticks :: "nat \<Rightarrow> consensus \<Rightarrow> step" where
  "ticks 0 c = done_with c"
| "ticks (Suc k) c = andthen (ticks k c) (step Tick)"

lemma quiet_ticks:
  assumes "role c \<noteq> Leader" "election_timeout c \<le> u32_max" "since_heard c + j < election_timeout c"
  shows "ticks j c = done_with (c\<lparr>since_heard := since_heard c + j\<rparr>)"
  using assms(3)
proof (induction j)
  case (Suc j)
  then have "sat_add32 (since_heard c + j) 1 = since_heard c + Suc j"
    using assms(2) by (simp add: sat_add32_def)
  with Suc assms(1) show ?case by (simp add: on_tick_def voter_tick_def Let_def)
qed simp

lemma last_tick:
  assumes "role c \<noteq> Leader" "may_campaign c" "election_timeout c \<le> Suc (since_heard c)"
    "since_heard c < u32_max"
  shows "step Tick c = start_precampaign (c\<lparr>since_heard := Suc (since_heard c)\<rparr>)"
proof -
  have "sat_add32 (since_heard c) 1 = Suc (since_heard c)" using assms(4) by (simp add: sat_add32_def)
  moreover have "may_campaign (c\<lparr>since_heard := Suc (since_heard c)\<rparr>)"
    using assms(2) by (simp add: may_campaign_def)
  ultimately show ?thesis using assms(1,3) by (simp add: on_tick_def voter_tick_def Let_def)
qed

lemma precampaign_out:
  assumes ok: "node_ok c" "cur_term c < u64_max" and run: "start_precampaign c = Some (d, as)"
  shows "if has_quorum (cfg c) 1
    then PersistHardState (Suc (cur_term c)) (Some (self_id c)) \<in> set as \<and>
      RoleChanged Leader (Suc (cur_term c)) (Some (self_id c)) \<in> set as
    else role d = PreCandidate \<and> hard d = hard c \<and>
      (\<forall>n. contains (cfg c) n \<and> n \<noteq> self_id c \<longrightarrow>
         Send \<lparr>m_from = self_id c, m_to = n, m_term = Suc (cur_term c),
               m_body = PreVote (last_term c) (last_round c)\<rparr> \<in> set as)"
proof -
  define b where "b = redraw (c\<lparr>role := PreCandidate, leader := None, campaign := Some (cfg c),
    votes := {self_id c}, since_heard := 0\<rparr>)"
  have b: "role b = PreCandidate" "hard b = hard c" "self_id b = self_id c" "cfg b = cfg c"
      "campaign b = Some (cfg c)" "votes b = {self_id c}" "last_term b = last_term c"
      "last_round b = last_round c"
    by (simp_all add: b_def redraw_eq)
  have nxt: "sat_add64 (cur_term c) 1 = Suc (cur_term c)" by (rule sat_add64_Suc[OF ok(2)])
  have carried: "campaign_carried b \<longleftrightarrow> has_quorum (cfg c) 1" by (simp add: campaign_carried_def b)
  obtain cs where cs: "as = RoleChanged PreCandidate (cur_term b) None # cs"
      "(if campaign_carried b then become_candidate b
        else emit b (map (\<lambda>dest. Send \<lparr>m_from = self_id b, m_to = dest,
          m_term = sat_add64 (cur_term b) 1, m_body = PreVote (last_term b) (last_round b)\<rparr>)
          (campaign_voters b))) = Some (d, cs)"
    using run unfolding start_precampaign_def Let_def b_def[symmetric]
    by (elim andthen_SomeE) (auto simp: emit_def)
  show ?thesis
  proof (cases "has_quorum (cfg c) 1")
    case True
    let ?e = "enter_term b"
    have e: "cur_term ?e = Suc (cur_term c)" "self_id ?e = self_id c" "campaign_carried ?e"
      using True nxt by (simp_all add: enter_term_def redraw_eq b campaign_carried_def)
    have "become_candidate b = Some (d, cs)" using cs(2) True carried by simp
    then obtain ds where ds: "cs = [PersistHardState (Suc (cur_term c)) (Some (self_id c)),
        RoleChanged Candidate (Suc (cur_term c)) None] @ ds" "become_leader ?e = Some (d, ds)"
      unfolding become_candidate_def Let_def by (elim andthen_SomeE) (auto simp: emit_def e)
    have "RoleChanged Leader (Suc (cur_term c)) (Some (self_id c)) \<in> set ds"
      using ds(2) unfolding become_leader_def by (elim andthen_SomeE) (auto simp: emit_def e)
    with ds(1) cs(1) True show ?thesis by simp
  next
    case False
    then have d: "d = b" "as = RoleChanged PreCandidate (cur_term b) None # map (\<lambda>dest. Send \<lparr>m_from = self_id b,
        m_to = dest, m_term = sat_add64 (cur_term b) 1, m_body = PreVote (last_term b) (last_round b)\<rparr>)
        (campaign_voters b)"
      using cs carried by (auto simp: emit_def)
    show ?thesis
      using False d nxt by (auto simp: b campaign_voters_def contains_def)
  qed
qed


lemma new_clock:
  "since_heard (consensus_new me cf seed) = 0" "election_timeout (consensus_new me cf seed) \<le> u32_max"
  "0 < election_timeout (consensus_new me cf seed)"
  "may_campaign (consensus_new me cf seed) \<longleftrightarrow> contains cf me"
  by (simp_all add: consensus_new_def case_prod_beta may_campaign_def)


end
