(* ===== verification/Append_Rule.thy ===== *)
theory Append_Rule
  imports Node_Rules
begin

text \<open>
  What accepting an \<open>Append\<close> does to a follower's log, against the rule of the protocol stated on
  logs as maps from rounds to entries: \<open>on_append\<close> with its scan, cut and suffix implements it.
\<close>

section \<open>The rule\<close>

text \<open>
  Taking the leader's entries one by one: an entry already held (same round, same term) leaves the log
  alone; any other one replaces its round and discards everything above it.
\<close>

fun merge_log :: "(nat \<Rightarrow> entry option) \<Rightarrow> entry list \<Rightarrow> nat \<Rightarrow> entry option" where
  "merge_log l [] = l"
| "merge_log l (e # es) =
     (if map_option e_term (l (e_round e)) = Some (e_term e) then merge_log l es
      else merge_log ((\<lambda>q. if q < e_round e then l q else None)(e_round e \<mapsto> e)) es)"

definition log_of :: "consensus \<Rightarrow> nat \<Rightarrow> entry option" where
  "log_of c = tail_entry_at (tail_mut c)"

text \<open>
  When the entries are taken: the batch is well formed, the node holds the round before it with the
  term the leader named, and no entry contradicts a committed round.
\<close>

definition acceptable :: "consensus \<Rightarrow> nat \<Rightarrow> nat \<Rightarrow> nat \<Rightarrow> entry list \<Rightarrow> bool" where
  "acceptable c t prev prev_term es \<longleftrightarrow>
     \<not> malformed t prev es \<and> snapshot_round c \<le> prev \<and> term_at c prev = Some prev_term \<and>
     (\<forall>e \<in> set es. e_round e \<le> commit c \<and> log_of c (e_round e) \<noteq> None \<longrightarrow>
        map_option e_term (log_of c (e_round e)) = Some (e_term e))"

lemma merge_new:
  assumes "own.consecutive r es" "\<And>q. r \<le> q \<Longrightarrow> l q = None"
  shows "merge_log l es = (\<lambda>q. if r \<le> q \<and> q < r + length es then Some (es ! (q - r)) else l q)"
  using assms
proof (induction es arbitrary: r l)
  case (Cons e es)
  have e: "e_round e = r" "own.consecutive (r + 1) es"
    using Cons.prems(1) by (auto simp: own.consecutive_Cons)
  let ?l = "(\<lambda>q. if q < r then l q else None)(r \<mapsto> e)"
  have "merge_log l (e # es) = merge_log ?l es" using e Cons.prems(2)[of r] by simp
  also have "\<dots> = (\<lambda>q. if r + 1 \<le> q \<and> q < r + 1 + length es then Some (es ! (q - (r + 1))) else ?l q)"
    by (rule Cons.IH[OF e(2)]) auto
  also have "\<dots> = (\<lambda>q. if r \<le> q \<and> q < r + length (e # es) then Some ((e # es) ! (q - r)) else l q)"
    using Cons.prems(2) by (auto simp: fun_eq_iff nth_Cons')
  finally show ?case .
qed auto

lemma term_at_log: "snapshot_round c < r \<Longrightarrow> term_at c r = map_option e_term (log_of c r)"
  by (simp add: term_at_tail_mut tail_term_entry log_of_def)

lemma log_of_known:
  "log_ok c \<Longrightarrow> log_of c r \<noteq> None \<longleftrightarrow> snapshot_round c < r \<and> r \<le> last_round c"
  using log_ok_tail[of c] own.held[of "tail_mut c" r] by (simp add: log_of_def)

text \<open>The scan skips what is held; the rest is merged into the log, cut at the conflict.\<close>

lemma merge_scan:
  assumes "own.consecutive (prev + 1) es" "snapshot_round c \<le> prev" "scan c es = (i, conflict)"
  shows "merge_log (log_of c) es = merge_log (case conflict of None \<Rightarrow> log_of c
    | Some r \<Rightarrow> (\<lambda>q. if q < r then log_of c q else None)) (drop i es)"
  using assms
proof (induction es arbitrary: prev i)
  case (Cons e es)
  have e: "e_round e = prev + 1" "own.consecutive (prev + 1 + 1) es"
    using Cons.prems(1) by (auto simp: own.consecutive_Cons)
  have t: "term_at c (e_round e) = map_option e_term (log_of c (e_round e))"
    using term_at_log[of c "e_round e"] Cons.prems(2) e(1) by simp
  show ?case
  proof (cases "term_at c (e_round e) = Some (e_term e)")
    case True
    then obtain k where k: "scan c es = (k, conflict)" "i = Suc k"
      using Cons.prems(3) by (auto split: prod.splits)
    with Cons.IH[OF e(2) _ k(1)] Cons.prems(2) True t show ?thesis by simp
  next
    case False
    then have i: "i = 0" "conflict = None \<or> conflict = Some (e_round e)"
      using Cons.prems(3) by (auto split: option.splits if_splits)
    have "(\<lambda>q. if q < e_round e then (if q < e_round e then log_of c q else None) else None) =
        (\<lambda>q. if q < e_round e then log_of c q else None)" by auto
    with False i t show ?thesis by (auto split: option.splits)
  qed
qed simp

section \<open>The steps of the handler\<close>

lemma log_of_frame [simp]:
  "log_of (set_agreed a c) = log_of c" "log_of (set_own_tail t c) = tail_entry_at t"
  "log_of (c\<lparr>last_round := r\<rparr>) = log_of c" "log_of (c\<lparr>last_term := tt\<rparr>) = log_of c"
  "log_of (c\<lparr>durable := r\<rparr>) = log_of c" "log_of (c\<lparr>commit := r\<rparr>) = log_of c"
  "log_of (c\<lparr>applied := r\<rparr>) = log_of c" "log_of (c\<lparr>unjoined := b\<rparr>) = log_of c"
  "log_of (c\<lparr>behind := b\<rparr>) = log_of c" "log_of (c\<lparr>since_heard := r\<rparr>) = log_of c"
  "log_of (c\<lparr>hard := h\<rparr>) = log_of c"
  by (simp_all add: log_of_def tail_mut_def set_agreed_def split: option.split)

lemma advance_apply_out:
  "advance_apply c = Some (d, as) \<Longrightarrow> \<exists>r. d = c\<lparr>applied := r\<rparr> \<and> set as \<subseteq> {Apply r}"
  by (auto simp: advance_apply_def Let_def emit_def done_with_def split: if_splits
      intro: exI[of _ "applied c"])

lemma observe_frame [simp]:
  "log_of (observe_quorum_watermark lc c) = log_of c" "durable (observe_quorum_watermark lc c) = durable c"
  "agreed (observe_quorum_watermark lc c) = agreed c" "hard (observe_quorum_watermark lc c) = hard c"
  "commit (observe_quorum_watermark lc c) = commit c"
  "log_of (observe_config_at x c) = log_of c" "durable (observe_config_at x c) = durable c"
  "agreed (observe_config_at x c) = agreed c" "hard (observe_config_at x c) = hard c"
  "commit (observe_config_at x c) = commit c"
  by (simp_all add: observe_quorum_watermark_def observe_config_at_def)

lemma learn_commit_out:
  assumes "learn_commit es lc c = Some (d, as)"
  shows "log_of d = log_of c \<and> durable d = durable c \<and> agreed d = agreed c \<and> cur_term d = cur_term c \<and>
    commit d = max (commit c) (min lc (agreed c)) \<and> (\<exists>r. set as \<subseteq> {Apply r})"
proof -
  define b where "b = (if commit c < min lc (agreed c) then c\<lparr>commit := min lc (agreed c)\<rparr> else c)"
  define e where "e = (case newest_config es of None \<Rightarrow> observe_quorum_watermark lc b
    | Some a \<Rightarrow> observe_config_at a (observe_quorum_watermark lc b))"
  have "advance_apply e = Some (d, as)"
    using assms unfolding learn_commit_def Let_def b_def e_def .
  then obtain r where r: "d = e\<lparr>applied := r\<rparr>" "set as \<subseteq> {Apply r}" using advance_apply_out by blast
  have "log_of b = log_of c \<and> durable b = durable c \<and> agreed b = agreed c \<and> hard b = hard c \<and>
      commit b = max (commit c) (min lc (agreed c))"
    by (auto simp: b_def)
  then have "log_of e = log_of c \<and> durable e = durable c \<and> agreed e = agreed c \<and> hard e = hard c \<and>
      commit e = max (commit c) (min lc (agreed c))"
    by (cases "newest_config es") (simp_all add: e_def)
  with r show ?thesis by auto
qed

text \<open>An acknowledgement never claims more than is durable and agreed.\<close>

definition honest :: "consensus \<Rightarrow> action \<Rightarrow> bool" where
  "honest d a \<longleftrightarrow>
     (case a of
        Send m \<Rightarrow> (case m_body m of
            AppendResp success matched hint digest \<Rightarrow> success \<longrightarrow> matched \<le> durable d \<and> matched \<le> agreed d
          | _ \<Rightarrow> True)
      | _ \<Rightarrow> True)"

lemma honest_simps [simp]:
  "honest d (refusal c dest h)" "honest d (Apply r)" "honest d (Persist es)" "honest d (Truncate r)"
  "honest d (PersistHardState t v)" "honest d (RoleChanged rl t l)"
  by (simp_all add: honest_def refusal_def send_to_def)

lemma honest_ack: "durable c \<le> durable d \<Longrightarrow> agreed c \<le> agreed d \<Longrightarrow> honest d (acknowledgement c dest)"
  by (auto simp: honest_def acknowledgement_def send_to_def Let_def)

lemma take_fresh_out:
  assumes log: "log_ok c" and nx: "continues c prev es i" and i: "i \<le> length es"
    and run: "take_fresh src prev es i conflict c = Some (d, as)"
  shows "log_of d = merge_log (log_of c) (drop i es) \<and> durable d = durable c \<and> commit d = commit c \<and>
    prev + length es \<le> agreed d \<and> cur_term d = cur_term c \<and> (\<forall>a \<in> set as. honest d a)"
proof -
  define a where "a = max (case conflict of None \<Rightarrow> agreed c | Some r \<Rightarrow> min (agreed c) (r - 1))
    (prev + length es)"
  have run': "(if drop i es = [] then emit (set_agreed a c) [acknowledgement (set_agreed a c) src]
      else andthen (for_each (drop i es) push_own (set_agreed a c)) (\<lambda>c.
        emit (c\<lparr>last_round := e_round (last (drop i es)), last_term := e_term (last (drop i es))\<rparr>)
          [Persist (drop i es)])) = Some (d, as)"
    using run unfolding take_fresh_def Let_def a_def .
  have le: "prev + length es \<le> a" by (simp add: a_def)
  show ?thesis
  proof (cases "drop i es = []")
    case True
    with run' have "d = set_agreed a c" "as = [acknowledgement d src]" by (auto simp: emit_def)
    with le True show ?thesis by (auto intro: honest_ack)
  next
    case False
    have n: "own.consecutive (last_round c + 1) (drop i es)"
      using nx unfolding continues_def if_not_P[OF False] by (rule conjunct2)
    obtain t where t: "for_each (drop i es) push_own (set_agreed a c) = done_with (set_own_tail t (set_agreed a c))"
        "tail_entry_at t = (\<lambda>q. if last_round c < q \<and> q \<le> last_round c + length (drop i es)
           then Some (drop i es ! (q - last_round c - 1)) else log_of c q)"
      using push_fresh[OF log False n, of a] unfolding log_of_def by blast
    have "log_of c q = None" if "last_round c + 1 \<le> q" for q
      using log_of_known[OF log, of q] that by auto
    from merge_new[OF n this]
    have "tail_entry_at t = merge_log (log_of c) (drop i es)"
      unfolding t(2) by (auto simp: fun_eq_iff Suc_le_eq less_Suc_eq_le)
    moreover have "d = (set_own_tail t (set_agreed a c))\<lparr>last_round := e_round (last (drop i es)),
        last_term := e_term (last (drop i es))\<rparr>" "as = [Persist (drop i es)]"
      using run' False t(1) by (auto simp: emit_def)
    ultimately show ?thesis using le by simp
  qed
qed

text \<open>From the scan on, on every branch.\<close>

lemma merge_entries_out:
  assumes ok: "node_ok c" and f: "role c = Follower" and es: "own.consecutive (prev + 1) es"
    and prev: "snapshot_round c \<le> prev" "prev \<le> last_round c"
    and run: "merge_entries src prev es lc c = Some (d, as)"
  shows "(\<forall>a \<in> set as. honest d a) \<and> cur_term d = cur_term c \<and>
    (case scan c es of
       (i, Some r) \<Rightarrow> if r \<le> commit c then d = c \<and> as = [refusal c src (commit c + 1)]
         else log_of d = merge_log (log_of c) es \<and> commit c \<le> commit d \<and> prev + length es \<le> agreed d
     | (i, None) \<Rightarrow> log_of d = merge_log (log_of c) es \<and> commit c \<le> commit d \<and>
         prev + length es \<le> agreed d)"
proof -
  obtain i conflict where sc: "scan c es = (i, conflict)" by fastforce
  have log: "log_ok c" using ok by (simp add: node_ok_def)
  note spec = scan_spec[OF log es prev sc]
  note mg = merge_scan[OF es prev(1) sc]
  have cont: "continues d prev es i" if "last_round d = prev + i \<or> i = length es \<and> prev + i \<le> last_round d" for d
    using that consecutive_drop[OF es, of i] spec by (auto simp: continues_def)
  have fin: "log_of d = merge_log (log_of b) (drop i es) \<and> durable d = durable b \<and>
      commit b \<le> commit d \<and> prev + length es \<le> agreed d \<and> cur_term d = cur_term b \<and>
      (\<forall>a \<in> set as. honest d a)"
    if b: "log_ok b" "continues b prev es i"
      "andthen (take_fresh src prev es i conflict b) (learn_commit es lc) = Some (d, as)" for b as
  proof -
    obtain e xs ys where e: "take_fresh src prev es i conflict b = Some (e, xs)"
        "learn_commit es lc e = Some (d, ys)" "as = xs @ ys"
      using b(3) by (auto simp: andthen_def split: option.splits)
    have "durable d = durable e" "agreed d = agreed e" using learn_commit_out[OF e(2)] by auto
    then have "honest d a \<longleftrightarrow> honest e a" for a
      unfolding honest_def by (simp only:)
    with take_fresh_out[OF b(1,2) _ e(1)] spec learn_commit_out[OF e(2)] e(3) show ?thesis by auto
  qed
  show ?thesis
  proof (cases conflict)
    case None
    have "continues c prev es i" using spec None by (intro cont) auto
    from fin[OF log this] run None sc mg show ?thesis by (simp add: merge_entries_def)
  next
    case (Some r)
    then have r: "r = prev + 1 + i" "snapshot_round c < r" "r \<le> last_round c" using spec prev by auto
    show ?thesis
    proof (cases "r \<le> commit c")
      case True
      then show ?thesis using run Some sc by (auto simp: merge_entries_def emit_def)
    next
      case False
      define b where "b t lt = (set_own_tail t c)\<lparr>last_round := r - 1, last_term := lt,
        durable := min (r - 1) (durable c)\<rparr>" for t lt
      obtain t lt where t: "cut_conflict r c = emit (b t lt) [Truncate r]" "log_ok (b t lt)"
          "tail_entry_at t = (\<lambda>q. if q < r then log_of c q else None)"
        using cut_conflict_eq[OF log r(2,3), of "min (r - 1) (durable c)"] unfolding b_def log_of_def by blast
      have b: "log_of (b t lt) = tail_entry_at t" "commit (b t lt) = commit c"
          "cur_term (b t lt) = cur_term c" "last_round (b t lt) = prev + i"
        using r(1) by (simp_all add: b_def)
      obtain xs where xs: "andthen (take_fresh src prev es i conflict (b t lt)) (learn_commit es lc) = Some (d, xs)"
          "as = Truncate r # xs"
        using run Some sc False t(1)
        by (auto simp: merge_entries_def andthen_def emit_def split: option.splits)
      have "continues (b t lt) prev es i" using b(4) by (intro cont) simp
      from fin[OF t(2) this xs(1)] show ?thesis
        using mg Some sc False xs(2) b t(3) by simp
    qed
  qed
qed

lemma adopt_out:
  assumes "adopt_leader src t c = Some (d, as)"
  shows "own_tail d = own_tail c" "snapshot_round d = snapshot_round c" "snapshot_term d = snapshot_term c"
    "last_round d = last_round c" "commit d = commit c" "cur_term d = t" "\<forall>a \<in> set as. honest e a"
  using assms
  by (auto simp: adopt_leader_def become_follower_def emit_def done_with_def andthen_def Let_def
      set_agreed_def split: if_splits)

lemma scan_conflict_acceptable:
  assumes log: "log_ok c" and es: "own.consecutive (prev + 1) es"
    and prev: "snapshot_round c \<le> prev" "prev \<le> last_round c" and sc: "scan c es = (i, conflict)"
  shows "(\<forall>e \<in> set es. e_round e \<le> commit c \<and> log_of c (e_round e) \<noteq> None \<longrightarrow>
      map_option e_term (log_of c (e_round e)) = Some (e_term e)) \<longleftrightarrow>
    (\<forall>r. conflict = Some r \<longrightarrow> commit c < r)"
proof -
  note spec = scan_spec[OF log es prev sc]
  have rnd: "e_round (es ! k) = prev + 1 + k" if "k < length es" for k
    using es that by (simp add: own.consecutive_def)
  have tm: "term_at c (prev + 1 + k) = map_option e_term (log_of c (prev + 1 + k))" for k
    using prev(1) by (intro term_at_log) simp
  have above: "log_of c q = None" if "last_round c < q" for q using log_of_known[OF log, of q] that by auto
  show ?thesis (is "?L \<longleftrightarrow> ?R")
  proof
    assume L: ?L
    show ?R
    proof (intro allI impI)
      fix r
      assume r: "conflict = Some r"
      then have i: "i < length es" "r = prev + 1 + i" "r \<le> last_round c"
          "term_at c r \<noteq> Some (e_term (es ! i))" using spec by auto
      have "log_of c r \<noteq> None" using log_of_known[OF log, of r] i prev by auto
      with bspec[OF L nth_mem[OF i(1)]] show "commit c < r"
        using i tm[of i] rnd[OF i(1)] by (simp add: not_le[symmetric]) blast
    qed
  next
    assume R: ?R
    have "map_option e_term (log_of c (e_round (es ! k))) = Some (e_term (es ! k))"
      if k: "k < length es" "e_round (es ! k) \<le> commit c" "log_of c (e_round (es ! k)) \<noteq> None" for k
    proof (cases "k < i")
      case True
      then show ?thesis using spec tm[of k] rnd[OF k(1)] by simp
    next
      case False
      then have "conflict = None \<Longrightarrow> last_round c < e_round (es ! k)" "\<And>r. conflict = Some r \<Longrightarrow> r \<le> e_round (es ! k)"
        using spec k(1) rnd[OF k(1)] by auto
      then show ?thesis using R k above by (cases conflict) auto
    qed
    then show ?L by (metis in_set_conv_nth)
  qed
qed

lemma merge_keeps:
  assumes "q \<le> k" "own.consecutive r es"
    and "\<forall>x \<in> set es. e_round x \<le> k \<and> l (e_round x) \<noteq> None \<longrightarrow> map_option e_term (l (e_round x)) = Some (e_term x)"
    and "l q = Some e" "\<And>a b. a \<le> b \<Longrightarrow> b \<le> k \<Longrightarrow> l b \<noteq> None \<Longrightarrow> r \<le> a \<Longrightarrow> l a \<noteq> None"
  shows "merge_log l es q = Some e"
  using assms(2-)
proof (induction es arbitrary: r l)
  case (Cons x es)
  have x: "e_round x = r" "own.consecutive (r + 1) es"
    using Cons.prems(1) by (auto simp: own.consecutive_Cons)
  show ?case
  proof (cases "map_option e_term (l r) = Some (e_term x)")
    case True
    then have "merge_log l (x # es) = merge_log l es" using x(1) by simp
    moreover have "merge_log l es q = Some e"
      using Cons.prems by (intro Cons.IH[OF x(2)]) auto
    ultimately show ?thesis by simp
  next
    case False
    then have lt: "q < r"
      using Cons.prems(2,3) Cons.prems(4)[of r q] x(1) assms(1) by (cases "l r"; cases "k < r") fastforce+
    let ?l = "(\<lambda>p. if p < r then l p else None)(r \<mapsto> x)"
    have step: "merge_log l (x # es) = merge_log ?l es"
      using False x(1) by (simp only: merge_log.simps if_False)
    show ?thesis
      unfolding step using merge_new[OF x(2), of ?l] lt Cons.prems(3) by simp
  qed
qed simp

lemma append_out:
  assumes ok: "node_ok c" and t: "cur_term c \<le> t" "t \<le> u64_max"
  shows "\<exists>d as. on_append src t prev prev_term es lc c = Some (d, as) \<and> (\<forall>a \<in> set as. honest d a) \<and>
    (if acceptable c t prev prev_term es
     then log_of d = merge_log (log_of c) es \<and> commit c \<le> commit d \<and> prev + length es \<le> agreed d
     else log_of d = log_of c \<and> commit d = commit c \<and> (\<exists>h. refusal d src h \<in> set as))"
proof -
  obtain d as where run: "on_append src t prev prev_term es lc c = Some (d, as)"
    using sound_on_append[OF ok t, of src prev prev_term es lc] by (auto simp: quiet.sound_def wp_Some)
  show ?thesis
  proof (cases "malformed t prev es")
    case True
    then show ?thesis using run by (auto simp: on_append_def emit_def acceptable_def)
  next
    case False
    have es: "own.consecutive (prev + 1) es" by (rule well_formed_consecutive[OF False])
    obtain b bs cs where b: "adopt_leader src t c = Some (b, bs)" "as = bs @ cs"
        "(if prev < snapshot_round b then emit b [refusal b src (snapshot_round b + 1)]
          else case term_at b prev of
            None \<Rightarrow> emit b [refusal b src (last_round b + 1)]
          | Some pt \<Rightarrow>
              if pt \<noteq> prev_term then emit b [refusal b src (first_round_of_term_run b prev)]
              else merge_entries src prev es lc b) = Some (d, cs)"
      using run False unfolding on_append_merge if_not_P[OF False] by (elim andthen_SomeE)
    note frame = adopt_out[OF b(1)]
    have bok: "node_ok b" "role b = Follower"
      using sound_adopt[OF ok t, of src] b(1) adopt_follower[OF b(1)] by (auto simp: quiet.sound_def wp_Some)
    have log: "log_ok b" using bok(1) by (simp add: node_ok_def)
    have same: "log_of b = log_of c" "term_at b = term_at c"
      using frame(1-3) by (auto simp: log_of_def tail_mut_def term_at_def fun_eq_iff split: option.split)
    show ?thesis
    proof (cases "prev < snapshot_round b \<or> term_at b prev \<noteq> Some prev_term")
      case True
      then have "d = b \<and> (\<exists>h. cs = [refusal b src h])" "\<not> acceptable c t prev prev_term es"
        using b(3) frame same by (auto simp: emit_def acceptable_def split: if_splits option.splits)
      with run b(2) frame same show ?thesis by auto
    next
      case held: False
      then have prev: "snapshot_round b \<le> prev" "prev \<le> last_round b"
        using term_at_known[OF log, of prev] by auto
      obtain i conflict where sc: "scan b es = (i, conflict)" by fastforce
      have "merge_entries src prev es lc b = Some (d, cs)" using b(3) held by simp
      note out = merge_entries_out[OF bok es prev this, unfolded sc prod.case]
      have acc: "acceptable c t prev prev_term es \<longleftrightarrow> (\<forall>r. conflict = Some r \<longrightarrow> commit b < r)"
        using scan_conflict_acceptable[OF log es prev sc] False held frame same
        by (auto simp: acceptable_def)
      show ?thesis
        using out acc run b(2) frame same by (cases conflict) (auto split: if_splits)
    qed
  qed
qed

section \<open>Properties\<close>

text \<open>
  (C2) Accepting entries implements the protocol's rule. From a state satisfying the node invariant whose
  log and commit watermark are below the last \<open>u64\<close>, an \<open>Append\<close> of the current or a later term whose
  entries end at a \<open>u64\<close> round is always answered. (The bounds are what the code's sums need: \<open>on_append\<close>
  computes \<open>prev_round + 1 + k\<close> for its entries, and the round after the floor, the log or the watermark
  for a refusal, and each of them would overflow past \<open>u64::MAX\<close>.) If its entries are acceptable (well
  formed, continuing a round held with the term the leader names, contradicting no committed round),
  the log becomes exactly the entry-by-entry merge of them -- so entries already held are not rewritten
  and nothing beyond them is discarded unless an entry really conflicts -- and they count as agreed with
  this leader. Otherwise log and watermark are unchanged and the sender is sent a refusal. On every
  branch, a success answer claims only rounds that are both durable and agreed with this leader.
\<close>

theorem append_implements_merge:
  assumes ok: "node_ok c" and t: "cur_term c \<le> t" "t \<le> u64_max"
    and rounds: "last_round c < u64_max" "commit c < u64_max" "prev + length es \<le> u64_max"
  shows "\<exists>d as. on_append src t prev prev_term es lc c = Some (d, as) \<and> (\<forall>a \<in> set as. honest d a) \<and>
    (if acceptable c t prev prev_term es
     then log_of d = merge_log (log_of c) es \<and> commit c \<le> commit d \<and> prev + length es \<le> agreed d
     else log_of d = log_of c \<and> commit d = commit c \<and> (\<exists>h. refusal d src h \<in> set as))"
  by (rule append_out[OF ok t])

text \<open>
  (C8) No \<open>Append\<close> changes a committed round. Whatever a leader of the current or a later term sends --
  well formed or not -- an entry the node holds at or below its commit watermark is the same entry
  afterwards.
\<close>

theorem committed_entries_kept:
  assumes ok: "node_ok c" and t: "cur_term c \<le> t" "t \<le> u64_max"
    and run: "on_append src t prev prev_term es lc c = Some (d, as)"
    and held: "log_of c q = Some e" "q \<le> commit c"
  shows "log_of d q = Some e"
proof (cases "acceptable c t prev prev_term es")
  case True
  have log: "log_ok c" using ok by (simp add: node_ok_def)
  have "log_of d = merge_log (log_of c) es"
    using append_out[OF ok t, of src prev prev_term es lc] True run by auto
  moreover have "merge_log (log_of c) es q = Some e"
  proof (rule merge_keeps[OF held(2), where r = "prev + 1"])
    show "own.consecutive (prev + 1) es" using True well_formed_consecutive by (auto simp: acceptable_def)
    show "\<forall>x \<in> set es. e_round x \<le> commit c \<and> log_of c (e_round x) \<noteq> None \<longrightarrow>
        map_option e_term (log_of c (e_round x)) = Some (e_term x)"
      using True by (simp add: acceptable_def)
    show "log_of c a \<noteq> None" if "a \<le> b" "b \<le> commit c" "log_of c b \<noteq> None" "prev + 1 \<le> a" for a b
      using that True unfolding log_of_known[OF log] acceptable_def by linarith
  qed (rule held(1))
  ultimately show ?thesis by simp
next
  case False
  then show ?thesis using append_out[OF ok t, of src prev prev_term es lc] run held(1) by auto
qed

theorem append_implements_merge_witness:
  "\<exists>d as. on_append 2 6 1 4 [\<lparr>e_term = 6, e_round = 2, e_command = NoOp\<rparr>] 0 sample_busy = Some (d, as) \<and>
     log_of d = merge_log (log_of sample_busy) [\<lparr>e_term = 6, e_round = 2, e_command = NoOp\<rparr>] \<and>
     log_of d 2 \<noteq> log_of sample_busy 2"
proof -
  let ?e = "\<lparr>e_term = 6, e_round = 2, e_command = NoOp\<rparr>"
  have acc: "acceptable sample_busy 6 1 4 [?e]"
    by (simp add: acceptable_def malformed_def)
  have diff: "map_option e_term (log_of sample_busy 2) = Some 5"
    using term_at_log[of sample_busy 2] by simp
  then have "merge_log (log_of sample_busy) [?e] 2 = Some ?e" by auto
  moreover have "log_of sample_busy 2 \<noteq> Some ?e" using diff by auto
  ultimately show ?thesis
    using append_implements_merge[OF sample_busy_ok(2), of 6 1 "[?e]" 2 4 0] acc by auto
qed

theorem committed_entries_kept_witness:
  "\<exists>d as. on_append 2 6 1 4 [\<lparr>e_term = 6, e_round = 2, e_command = NoOp\<rparr>] 9 (sample_busy\<lparr>commit := 2\<rparr>) = Some (d, as) \<and>
     map_option e_term (log_of d 2) = Some 5"
proof -
  let ?c = "sample_busy\<lparr>commit := 2\<rparr>" and ?e = "\<lparr>e_term = 6, e_round = 2, e_command = NoOp\<rparr>"
  have ok: "node_ok ?c" using sample_busy_ok(2) by (simp add: node_ok_def)
  have t: "cur_term ?c \<le> 6" "(6::nat) \<le> u64_max" by simp_all
  obtain d as where d: "on_append 2 6 1 4 [?e] 9 ?c = Some (d, as)"
    using append_out[OF ok t, of 2 1 4 "[?e]" 9] by blast
  obtain e where e: "log_of ?c 2 = Some e" "e_term e = 5"
    using term_at_log[of sample_busy 2] by (auto simp: eq_commute[of "Some _" "map_option _ _"])
  from committed_entries_kept[OF ok t d e(1)] e(2) d show ?thesis by simp
qed

end
