(* ===== verification/Snapshot_Stream.thy ===== *)
theory Snapshot_Stream
  imports Snapshot_Transfer
begin

text \<open>
  A snapshot transfer as a whole: the chunks \<open>snapshot_chunk\<close> cuts, judged one after another by
  \<open>accept_chunk\<close>. What a receive cursor can hold, and that a transfer in lockstep arrives.
\<close>

section \<open>What a cursor holds\<close>

text \<open>
  The bytes a cursor stands for: they begin with its header, the header agrees with the envelope, the
  running digest is that of everything after the header, and a cursor marked complete has the length
  and the digest it was announced with.
\<close>

definition stands_for :: "recv_cursor \<Rightarrow> byte list \<Rightarrow> bool" where
  "stands_for cur bs \<longleftrightarrow>
     length bs = rc_received cur \<and> header_decode bs = Inr (rc_header cur) \<and>
     ph_last_round (rc_header cur) = sm_last_round (rc_meta cur) \<and>
     ph_last_term (rc_header cur) = sm_last_term (rc_meta cur) \<and>
     header_total_bytes (rc_header cur) = sm_total_bytes (rc_meta cur) \<and>
     rc_received cur \<le> sm_total_bytes (rc_meta cur) \<and>
     rc_body_digest cur = payload_digest (drop HEADER_BYTES bs) \<and>
     (rc_complete cur \<longrightarrow> rc_received cur = sm_total_bytes (rc_meta cur) \<and>
        rc_body_digest cur = ph_body_digest (rc_header cur))"

text \<open>What the receiver keeps, and what it answers.\<close>

definition settle :: "recv_cursor option \<Rightarrow> chunk_outcome \<Rightarrow> recv_cursor option \<times> nat" where
  "settle held out =
     (case out of
        RefuseChunk \<Rightarrow> (held, case held of None \<Rightarrow> 0 | Some cur \<Rightarrow> rc_received cur)
      | Answer n \<Rightarrow> (held, n)
      | Hold cur \<Rightarrow> (Some cur, rc_received cur)
      | DropCursor \<Rightarrow> (None, 0))"

lemma header_decode_append: "header_decode bs = Inr h \<Longrightarrow> header_decode (bs @ rest) = Inr h"
proof -
  assume d: "header_decode bs = Inr h"
  then have "100 \<le> length bs" by (auto simp: header_decode_def HEADER_BYTES_eq split: if_splits)
  with d show ?thesis by (simp add: header_decode_iff)
qed

lemma header_decode_length: "header_decode bs = Inr h \<Longrightarrow> HEADER_BYTES \<le> length bs"
  by (auto simp: header_decode_def split: if_splits)

text \<open>The cursor a transfer starts from stands for no byte yet; its first chunk brings the header.\<close>

definition starting :: "recv_cursor \<Rightarrow> byte list \<Rightarrow> bool" where
  "starting cur data \<longleftrightarrow>
     header_decode data = Inr (rc_header cur) \<and> rc_received cur = 0 \<and> rc_body_digest cur = FNV_OFFSET \<and>
     \<not> rc_complete cur \<and> ph_last_round (rc_header cur) = sm_last_round (rc_meta cur) \<and>
     ph_last_term (rc_header cur) = sm_last_term (rc_meta cur) \<and>
     header_total_bytes (rc_header cur) = sm_total_bytes (rc_meta cur)"

lemma absorb_stands:
  assumes "stands_for cur bs" "\<not> rc_complete cur" "rc_received cur + length data \<le> sm_total_bytes (rc_meta cur)"
  shows "stands_for (absorb data cur) (bs @ data)"
proof -
  have "header_decode bs = Inr (rc_header cur)" "length bs = rc_received cur"
    using assms(1) by (simp_all add: stands_for_def)
  then have "HEADER_BYTES \<le> length bs" using header_decode_length by blast
  with assms show ?thesis
    by (auto simp: stands_for_def absorb_def Let_def header_decode_append payload_digest_def
        fnv64_update_append)
qed

lemma absorb_starting:
  assumes "starting cur data" "length data \<le> sm_total_bytes (rc_meta cur)"
  shows "stands_for (absorb data cur) data"
  using assms header_decode_length[of data]
  by (auto simp: stands_for_def starting_def absorb_def Let_def payload_digest_def not_less)

section \<open>What any stream of chunks leaves\<close>

text \<open>A chunk as it arrives: envelope, offset, bytes, and whether it is announced as the last one.\<close>

type_synonym chunk = "snapshot_meta \<times> nat \<times> byte list \<times> bool"

fun receive :: "chunk list \<Rightarrow> recv_cursor option \<Rightarrow> recv_cursor option" where
  "receive [] held = held"
| "receive ((meta, offset, data, fin) # cs) held =
     receive cs (fst (settle held (accept_chunk held meta offset data fin)))"

text \<open>Chunks that follow each other without a gap or an overlap, and the bytes they bring.\<close>

fun in_order :: "nat \<Rightarrow> chunk list \<Rightarrow> bool" where
  "in_order n [] = True"
| "in_order n ((meta, offset, data, fin) # cs) \<longleftrightarrow> offset = n \<and> in_order (n + length data) cs"

abbreviation chunk_data :: "chunk \<Rightarrow> byte list" where "chunk_data c \<equiv> fst (snd (snd c))"

abbreviation chunk_bytes :: "chunk list \<Rightarrow> byte list" where "chunk_bytes cs \<equiv> concat (map chunk_data cs)"

definition assembled :: "chunk list \<Rightarrow> recv_cursor option \<Rightarrow> bool" where
  "assembled cs held \<longleftrightarrow> (\<forall>cur. held = Some cur \<longrightarrow> (\<exists>ps. subseq ps cs \<and> in_order 0 ps \<and>
     list_all (\<lambda>c. fst c = rc_meta cur) ps \<and> stands_for cur (chunk_bytes ps)))"

lemma receive_append: "receive (xs @ ys) held = receive ys (receive xs held)"
  by (induction xs held rule: receive.induct) auto

lemma in_order_append: "in_order n (xs @ ys) \<longleftrightarrow> in_order n xs \<and> in_order (n + length (chunk_bytes xs)) ys"
  by (induction n xs rule: in_order.induct) (auto simp: add.assoc)

text \<open>A chunk changes nothing, ends the transfer, starts one, or extends the one held where it stopped.\<close>

definition extends :: "recv_cursor option \<Rightarrow> snapshot_meta \<Rightarrow> nat \<Rightarrow> byte list \<Rightarrow> recv_cursor \<Rightarrow> bool" where
  "extends held meta offset data cur \<longleftrightarrow> rc_meta cur = meta \<and>
     (offset = 0 \<and> stands_for cur data \<or>
      (\<exists>old. held = Some old \<and> rc_meta old = meta \<and> offset = rc_received old \<and>
         (\<forall>bs. stands_for old bs \<longrightarrow> stands_for cur (bs @ data))))"

lemma extends_complete:
  assumes "extends held meta offset data cur"
    and "completion_verdict (rc_received cur) (sm_total_bytes (rc_meta cur)) (rc_body_digest cur)
      (ph_body_digest (rc_header cur)) = Inr ()"
  shows "extends held meta offset data (cur\<lparr>rc_complete := True\<rparr>)"
  using assms by (auto simp: extends_def stands_for_def completion_verdict_def split: if_splits)

lemma accept_tail:
  assumes "extends held (rc_meta cur) offset data cur"
  shows "\<exists>r. fst (settle held (if fin then
     (case completion_verdict (rc_received cur) (sm_total_bytes (rc_meta cur)) (rc_body_digest cur)
            (ph_body_digest (rc_header cur)) of
        Inr _ \<Rightarrow> Hold (cur\<lparr>rc_complete := True\<rparr>)
      | Inl LengthFault \<Rightarrow> Hold cur
      | Inl DigestFault \<Rightarrow> DropCursor) else Hold cur)) = r \<and>
    (r = None \<or> (\<exists>new. r = Some new \<and> extends held (rc_meta cur) offset data new))"
  using assms extends_complete[OF assms]
  by (auto simp: settle_def split: sum.split completion_fault.split)

lemma pick_cursor_cases:
  "case pick_cursor held meta offset data of
      Inl out \<Rightarrow> fst (settle held out) = held
    | Inr cur \<Rightarrow> rc_meta cur = meta \<and> (starting cur data \<and> offset = 0 \<or> held = Some cur)"
  by (auto simp: pick_cursor_def settle_def Let_def starting_def split: sum.splits option.splits if_splits)

lemma chunk_step:
  fixes held meta offset data fin
  defines "r \<equiv> fst (settle held (accept_chunk held meta offset data fin))"
  shows "r = held \<or> r = None \<or> (\<exists>new. r = Some new \<and> extends held meta offset data new)"
proof (cases "pick_cursor held meta offset data")
  case (Inl out)
  then show ?thesis using pick_cursor_cases[of held meta data offset] by (simp add: accept_chunk_def r_def)
next
  case (Inr cur)
  then have cur: "rc_meta cur = meta" "starting cur data \<and> offset = 0 \<or> held = Some cur"
    using pick_cursor_cases[of held meta data offset] by auto
  show ?thesis
  proof (cases "rc_complete cur \<or> offset \<noteq> rc_received cur \<or> sm_total_bytes meta < rc_received cur + length data")
    case True
    then show ?thesis using Inr cur by (auto simp: accept_chunk_def settle_def starting_def r_def)
  next
    case False
    have ab: "rc_meta (absorb data cur) = meta" using cur(1) by (simp add: absorb_def Let_def)
    have "extends held meta offset data (absorb data cur)"
      using cur False ab absorb_stands[of cur] absorb_starting[of cur data]
      by (auto simp: extends_def starting_def not_less)
    from accept_tail[OF this[folded ab], of fin] show ?thesis
      using False unfolding ab r_def accept_chunk_def Inr Let_def by (simp only: sum.case if_False de_Morgan_disj) blast
  qed
qed

lemma assembled_extend:
  assumes "assembled cs held" "extends held meta offset data new"
  shows "assembled (cs @ [(meta, offset, data, fin)]) (Some new)"
proof -
  let ?c = "(meta, offset, data, fin)"
  have m: "rc_meta new = meta" using assms(2) by (simp add: extends_def)
  have "\<exists>ps. subseq ps (cs @ [?c]) \<and> in_order 0 ps \<and> list_all (\<lambda>c. fst c = meta) ps \<and> stands_for new (chunk_bytes ps)"
  proof (cases "offset = 0 \<and> stands_for new data")
    case True
    then show ?thesis by (intro exI[of _ "[?c]"]) (simp add: subseq_drop_many)
  next
    case False
    with assms(2) obtain old where old: "held = Some old" "rc_meta old = meta" "offset = rc_received old"
        "\<And>bs. stands_for old bs \<Longrightarrow> stands_for new (bs @ data)"
      by (auto simp: extends_def)
    obtain ps where ps: "subseq ps cs" "in_order 0 ps" "list_all (\<lambda>c. fst c = meta) ps" "stands_for old (chunk_bytes ps)"
      using assms(1) old(1,2) by (auto simp: assembled_def)
    have "length (chunk_bytes ps) = offset" using ps(4) old(3) by (simp add: stands_for_def)
    then show ?thesis
      using ps old(4)[OF ps(4)] by (intro exI[of _ "ps @ [?c]"]) (simp add: in_order_append)
  qed
  then show ?thesis using m by (simp add: assembled_def)
qed

lemma receive_assembled: "assembled cs (receive cs None)"
proof (induction cs rule: rev_induct)
  case (snoc c cs)
  obtain meta offset data fin where c: "c = (meta, offset, data, fin)" by (cases c)
  let ?held = "receive cs None"
  have r: "receive (cs @ [c]) None = fst (settle ?held (accept_chunk ?held meta offset data fin))"
    by (simp add: receive_append c)
  have keep: "assembled (cs @ [c]) ?held"
    using snoc unfolding assembled_def by (meson list_emb_append2 subseq_append_iff subseq_rev_drop_many)
  from chunk_step[of ?held meta offset data fin] show ?case
    unfolding r[symmetric] using keep assembled_extend[OF snoc, of meta offset data _ fin]
    by (auto simp: c assembled_def)
qed (simp add: assembled_def)

text \<open>
  (C18) What a transfer assembles. Let any chunks arrive at a node that holds none -- duplicated, reordered, from
  two transfers, damaged, cut short or announced as the last one too early. If the node then holds a cursor, the
  payload behind it is the data of some of those chunks, taken in the order they came, each at exactly the offset
  where the one before ended and the first at 0, all under the cursor's own envelope. That payload begins with a
  valid header that agrees with the envelope, has the length and the running digest the cursor says, and is no
  longer than announced; and the cursor is marked complete only when it is exactly as long as announced and its
  digest is the one the header carries.
\<close>

theorem transfer_integrity:
  assumes "receive cs None = Some cur"
  shows "\<exists>ps. subseq ps cs \<and> in_order 0 ps \<and> list_all (\<lambda>c. fst c = rc_meta cur) ps \<and>
    stands_for cur (chunk_bytes ps) \<and> length (chunk_bytes ps) \<le> sm_total_bytes (rc_meta cur) \<and>
    (rc_complete cur \<longrightarrow> length (chunk_bytes ps) = sm_total_bytes (rc_meta cur) \<and>
       payload_digest (drop HEADER_BYTES (chunk_bytes ps)) = ph_body_digest (rc_header cur))"
  using receive_assembled[of cs] assms unfolding assembled_def stands_for_def by metis

section \<open>A transfer in lockstep\<close>

text \<open>
  The sender cuts the chunk at the offset last answered; the receiver judges it and answers where it
  stands. This is the exchange of \<open>send_snapshot_chunk_to\<close> with the two handlers, no message lost.
\<close>

fun lockstep :: "snapshot \<Rightarrow> nat \<Rightarrow> recv_cursor option \<times> nat \<Rightarrow> recv_cursor option \<times> nat" where
  "lockstep s 0 st = st"
| "lockstep s (Suc k) (held, pos) =
     (case snapshot_chunk s pos of (data, fin) \<Rightarrow>
        lockstep s k (settle held (accept_chunk held (sn_meta s) pos data fin)))"

text \<open>A snapshot that \<open>build\<close> made, by what the receiver checks of it.\<close>

definition consistent :: "snapshot \<Rightarrow> bool" where
  "consistent s \<longleftrightarrow>
     header_decode (sn_bytes s) = Inr (sn_header s) \<and> sm_total_bytes (sn_meta s) = length (sn_bytes s) \<and>
     header_total_bytes (sn_header s) = length (sn_bytes s) \<and>
     ph_last_round (sn_header s) = sm_last_round (sn_meta s) \<and>
     ph_last_term (sn_header s) = sm_last_term (sn_meta s) \<and>
     payload_digest (drop HEADER_BYTES (sn_bytes s)) = ph_body_digest (sn_header s)"

definition part :: "snapshot \<Rightarrow> nat \<Rightarrow> recv_cursor" where
  "part s n = \<lparr>rc_meta = sn_meta s, rc_header = sn_header s, rc_received = n,
     rc_body_digest = payload_digest (drop HEADER_BYTES (take n (sn_bytes s))), rc_complete = False\<rparr>"

lemma absorb_part:
  assumes "n \<le> length (sn_bytes s)" "n = 0 \<or> HEADER_BYTES \<le> n"
  shows "absorb (take k (drop n (sn_bytes s))) (part s n) = part s (min (n + k) (length (sn_bytes s)))"
proof -
  let ?bs = "sn_bytes s" and ?data = "take k (drop n (sn_bytes s))"
  have split: "take (n + k) ?bs = take n ?bs @ ?data" by (rule take_add)
  have "fnv64_update (payload_digest (drop HEADER_BYTES (take n ?bs))) (drop (HEADER_BYTES - n) ?data) =
      payload_digest (drop HEADER_BYTES (take (n + k) ?bs))"
    using assms unfolding split by (auto simp: payload_digest_def fnv64_update_append min_def)
  moreover have "drop (HEADER_BYTES - n) ?data = []" if "length ?data \<le> HEADER_BYTES - n" using that by simp
  moreover have "take (min (n + k) (length ?bs)) ?bs = take (n + k) ?bs" by (simp add: min_def)
  moreover have "n + length ?data = min (n + k) (length ?bs)" using assms(1) by simp
  ultimately show ?thesis
    by (auto simp: absorb_def part_def Let_def not_less)
qed

lemma next_piece:
  assumes s: "consistent s" and n: "n < length (sn_bytes s)"
    and held: "held = None \<and> n = 0 \<or> held = Some (part s n) \<and> HEADER_BYTES \<le> n"
    and k: "HEADER_BYTES \<le> k" and data: "data = take k (drop n (sn_bytes s))"
  defines "m \<equiv> min (n + k) (length (sn_bytes s))"
  assumes fin: "fin \<longleftrightarrow> m = length (sn_bytes s)"
  shows "settle held (accept_chunk held (sn_meta s) n data fin) =
    (Some ((part s m)\<lparr>rc_complete := (m = length (sn_bytes s))\<rparr>), m)"
proof -
  let ?bs = "sn_bytes s"
  have d: "n + length data = m" using n by (simp add: m_def data)
  have "header_decode (take k ?bs) = Inr (sn_header s)"
    using s k by (simp add: consistent_def header_decode_iff HEADER_BYTES_eq min_def)
  then have pick: "pick_cursor held (sn_meta s) n data = Inr (part s n)"
    using s held data by (auto simp: pick_cursor_def consistent_def part_def Let_def HEADER_BYTES_eq
        payload_digest_def)
  have ab: "absorb data (part s n) = part s m"
    unfolding data m_def using n held by (intro absorb_part) auto
  have verdict: "completion_verdict (rc_received (part s m)) (sm_total_bytes (sn_meta s))
      (rc_body_digest (part s m)) (ph_body_digest (rc_header (part s m))) = Inr ()" if "m = length ?bs"
    using s that by (simp add: completion_verdict_def consistent_def part_def)
  have "accept_chunk held (sn_meta s) n data fin = Hold ((part s m)\<lparr>rc_complete := (m = length ?bs)\<rparr>)"
  proof (cases "m = length ?bs")
    case True
    then show ?thesis
      using pick ab d fin verdict[OF True] s
      by (simp add: accept_chunk_def Let_def consistent_def) (simp add: part_def)
  next
    case False
    moreover have "m \<le> length ?bs" by (simp add: m_def)
    ultimately show ?thesis
      using pick ab d fin s by (simp add: accept_chunk_def Let_def consistent_def) (simp add: part_def)
  qed
  then show ?thesis by (simp add: settle_def part_def)
qed

lemma next_part:
  assumes s: "consistent s" and n: "n < length (sn_bytes s)"
    and held: "held = None \<and> n = 0 \<or> held = Some (part s n) \<and> HEADER_BYTES \<le> n"
    and chunk: "snapshot_chunk s n = (data, fin)"
  defines "m \<equiv> min (n + SNAPSHOT_CHUNK_BYTES) (length (sn_bytes s))"
  shows "settle held (accept_chunk held (sn_meta s) n data fin) =
    (Some ((part s m)\<lparr>rc_complete := (m = length (sn_bytes s))\<rparr>), m)"
  unfolding m_def
  using snapshot_chunk_at[OF _ chunk] n
  by (intro next_piece[OF s n held]) (auto simp: HEADER_BYTES_eq SNAPSHOT_CHUNK_BYTES_def)

lemma lockstep_completes:
  assumes s: "consistent s" and n: "n < length (sn_bytes s)"
    and held: "held = None \<and> n = 0 \<or> held = Some (part s n) \<and> HEADER_BYTES \<le> n"
    and k: "length (sn_bytes s) \<le> n + k * SNAPSHOT_CHUNK_BYTES"
      "n + (k - 1) * SNAPSHOT_CHUNK_BYTES < length (sn_bytes s)"
  shows "lockstep s k (held, n) =
    (Some ((part s (length (sn_bytes s)))\<lparr>rc_complete := True\<rparr>), length (sn_bytes s))"
  using n held k
proof (induction k arbitrary: held n)
  case (Suc k)
  let ?len = "length (sn_bytes s)"
  obtain data fin where ch: "snapshot_chunk s n = (data, fin)" by fastforce
  define m where "m = min (n + SNAPSHOT_CHUNK_BYTES) ?len"
  have step: "lockstep s (Suc k) (held, n) = lockstep s k (Some ((part s m)\<lparr>rc_complete := (m = ?len)\<rparr>), m)"
    using next_part[OF s Suc.prems(1,2) ch] ch by (simp add: m_def)
  show ?case
  proof (cases k)
    case 0
    then have "m = ?len" using Suc.prems by (simp add: m_def)
    with step 0 show ?thesis by simp
  next
    case (Suc j)
    then have lt: "m < ?len" "m = n + SNAPSHOT_CHUNK_BYTES" using Suc.prems(4) by (auto simp: m_def)
    have "(part s m)\<lparr>rc_complete := False\<rparr> = part s m" by (simp add: part_def)
    moreover have "HEADER_BYTES \<le> m" using lt(2) by (simp add: HEADER_BYTES_eq SNAPSHOT_CHUNK_BYTES_def)
    moreover have "?len \<le> m + k * SNAPSHOT_CHUNK_BYTES" "m + (k - 1) * SNAPSHOT_CHUNK_BYTES < ?len"
      using Suc.prems(3,4) lt(2) Suc by (simp_all add: algebra_simps)
    ultimately show ?thesis using step Suc.IH[OF lt(1)] lt(1) by simp
  qed
qed simp

text \<open>
  (C17) A transfer arrives. Any snapshot \<open>build\<close> makes (with its fields in the width of their types),
  sent chunk by chunk to a receiver holding nothing, is complete after as many chunks as its length
  needs -- the length over the chunk size, rounded up -- and not before; the receiver then holds every
  byte under the header and the envelope that were built, and the answer to the last chunk is the total.
\<close>

theorem transfer_completes:
  assumes "snapshot_build at root cat label arena branches redo img = Inr s"
    and "sp_last_round at < 2 ^ 64" "sp_last_term at < 2 ^ 64" "root < 2 ^ 32" "cat < 2 ^ 32"
    and "bl_start_lsn label < 2 ^ 64" "bl_end_lsn label < 2 ^ 64" "bl_page_count label < 2 ^ 32"
  defines "len \<equiv> length (sn_bytes s)"
  defines "k \<equiv> (len + SNAPSHOT_CHUNK_BYTES - 1) div SNAPSHOT_CHUNK_BYTES"
  shows "\<exists>cur. lockstep s k (None, 0) = (Some cur, len) \<and> rc_complete cur \<and> rc_received cur = len \<and>
    rc_header cur = sn_header s \<and> rc_meta cur = sn_meta s \<and> stands_for cur (sn_bytes s)"
proof -
  have s: "consistent s" using snapshot_build_facts[OF assms(1-8)] by (simp add: consistent_def)
  have len: "100 \<le> len"
    using s header_decode_length[of "sn_bytes s"] by (simp add: consistent_def len_def HEADER_BYTES_eq)
  have "len \<le> k * SNAPSHOT_CHUNK_BYTES" "(k - 1) * SNAPSHOT_CHUNK_BYTES < len"
    using len unfolding k_def SNAPSHOT_CHUNK_BYTES_def by simp_all
  then have run: "lockstep s k (None, 0) = (Some ((part s len)\<lparr>rc_complete := True\<rparr>), len)"
    using lockstep_completes[OF s, of 0 None k] len by (simp add: len_def[symmetric])
  moreover have "stands_for ((part s len)\<lparr>rc_complete := True\<rparr>) (sn_bytes s)"
    using s by (simp add: stands_for_def consistent_def part_def len_def)
  ultimately show ?thesis by (auto simp: part_def)
qed

lemma small_snapshot:
  "\<exists>s. snapshot_build \<lparr>sp_last_round = 7, sp_last_term = 2, sp_config = config_new [1, 2, 3] 1 1, sp_base_digest = 5\<rparr> 3 4
       \<lparr>bl_start_lsn = 10, bl_end_lsn = 20, bl_page_count = 1\<rparr> [1] [2, 3] [] (replicate 4096 0) = Inr s \<and>
     length (sn_bytes s) = 4199"
  by (simp add: snapshot_build_def fits_u32_def check_internally_consistent_def validate_def Let_def
      MAX_SIDECAR_BYTES_def MAX_ENTRY_BYTES_def MAX_FRAME_BYTES_def PAGE_SIZE_def HEADER_BYTES_eq
      MAX_SNAPSHOT_BYTES_def config_is_empty_def config_new_def)

lemma small_consistent: "\<exists>s. consistent s \<and> length (sn_bytes s) = 4199"
proof -
  obtain s where s: "snapshot_build \<lparr>sp_last_round = 7, sp_last_term = 2, sp_config = config_new [1, 2, 3] 1 1, sp_base_digest = 5\<rparr> 3 4
       \<lparr>bl_start_lsn = 10, bl_end_lsn = 20, bl_page_count = 1\<rparr> [1] [2, 3] [] (replicate 4096 0) = Inr s"
      "length (sn_bytes s) = 4199" using small_snapshot by blast
  have "consistent s" using snapshot_build_facts[OF s(1)] by (simp add: consistent_def)
  with s(2) show ?thesis by blast
qed

text \<open>The second half arrives early, then the first half twice, then the second half again: the transfer is complete.\<close>

theorem transfer_integrity_witness:
  "\<exists>(s :: snapshot) cs cur ps. length cs = 4 \<and> length (sn_bytes s) = 4199 \<and> receive cs None = Some cur \<and> rc_complete cur \<and>
     subseq ps cs \<and> in_order 0 ps \<and> length (chunk_bytes ps) = 4199 \<and> stands_for cur (chunk_bytes ps)"
proof -
  obtain s where s: "consistent s" "length (sn_bytes s) = 4199" using small_consistent by blast
  let ?m = "sn_meta s" and ?b1 = "take 2000 (sn_bytes s)" and ?b2 = "drop 2000 (sn_bytes s)"
  let ?cs = "[(?m, 2000, ?b2, True), (?m, 0, ?b1, False), (?m, 0, ?b1, False), (?m, 2000, ?b2, True)] :: chunk list"
  let ?cur = "(part s 4199)\<lparr>rc_complete := True\<rparr>"
  have h: "header_decode ?b1 = Inr (sn_header s)"
    using s by (simp add: consistent_def header_decode_iff HEADER_BYTES_eq min_def)
  have early: "settle None (accept_chunk None ?m 2000 ?b2 True) = (None, 0)"
    by (simp add: accept_chunk_def pick_cursor_def settle_def)
  have first: "settle None (accept_chunk None ?m 0 ?b1 False) = (Some (part s 2000), 2000)"
    using next_piece[of s 0 None 2000 ?b1 False] s by (simp add: HEADER_BYTES_eq) (simp add: part_def)
  have again: "settle (Some (part s 2000)) (accept_chunk (Some (part s 2000)) ?m 0 ?b1 False) = (Some (part s 2000), 2000)"
    using h s by (simp add: accept_chunk_def pick_cursor_def settle_def consistent_def Let_def part_def)
  have second: "settle (Some (part s 2000)) (accept_chunk (Some (part s 2000)) ?m 2000 ?b2 True) = (Some ?cur, 4199)"
    using next_piece[of s 2000 "Some (part s 2000)" 2199 ?b2 True] s by (simp add: HEADER_BYTES_eq)
  have run: "receive ?cs None = Some ?cur" by (simp add: early first again second)
  have "sm_total_bytes (rc_meta ?cur) = 4199" using s by (simp add: part_def consistent_def)
  with transfer_integrity[OF run] obtain ps where "subseq ps ?cs" "in_order 0 ps" "stands_for ?cur (chunk_bytes ps)"
      "length (chunk_bytes ps) = 4199"
    by (auto simp: part_def)
  moreover have "length ?cs = 4" "rc_complete ?cur" by simp_all
  ultimately show ?thesis using run s(2) by blast
qed

theorem transfer_completes_witness:
  "let at = \<lparr>sp_last_round = 7, sp_last_term = 2, sp_config = config_new [1, 2, 3] 1 1, sp_base_digest = 5\<rparr>;
       label = \<lparr>bl_start_lsn = 10, bl_end_lsn = 20, bl_page_count = 1\<rparr>;
       s = projr (snapshot_build at 3 4 label [1] [2, 3] [] (replicate 4096 0))
   in \<exists>cur n. lockstep s 1 (None, 0) = (Some cur, n) \<and> rc_complete cur"
proof -
  let ?at = "\<lparr>sp_last_round = 7, sp_last_term = 2, sp_config = config_new [1, 2, 3] 1 1, sp_base_digest = 5\<rparr>"
  let ?label = "\<lparr>bl_start_lsn = 10, bl_end_lsn = 20, bl_page_count = 1\<rparr>"
  obtain s where s: "snapshot_build ?at 3 4 ?label [1] [2, 3] [] (replicate 4096 0) = Inr s"
      "length (sn_bytes s) = 4199" using small_snapshot by blast
  show ?thesis using transfer_completes[OF s(1)] s by (auto simp: Let_def SNAPSHOT_CHUNK_BYTES_def)
qed

end
