(* ===== verification/Cluster.thy ===== *)
theory Cluster
  imports Node_Rules
begin

text \<open>
  A cluster of nodes over a network that loses, duplicates and reorders, each node driven as
  \<open>consensus/node.rs\<close> drives it: the actions of a step performed in order, a crash after any of them,
  a restart from what is on disk. For a fixed configuration, at most one node leads in each term.
\<close>

section \<open>What a step may say about office\<close>

text \<open>
  The evidence behind an announcement of leadership in term \<open>t\<close>, given the actions performed before it:
  the vote that completes the tally of a running campaign, or a campaign begun and won in this step.
\<close>

definition polled :: "consensus \<Rightarrow> event \<Rightarrow> nat \<Rightarrow> action list \<Rightarrow> bool" where
  "polled c ev t before \<longleftrightarrow>
     role c = Candidate \<and> t = cur_term c \<and>
       (\<exists>m. ev = Recv m \<and> m_body m = RequestVoteResp True \<and> m_term m = t \<and>
          campaign_counts c (m_from m) \<and> campaign_carried (c\<lparr>votes := insert (m_from m) (votes c)\<rparr>)) \<or>
     (role c = PreCandidate \<or> may_campaign c) \<and> t = Suc (cur_term c) \<and> has_quorum (cfg c) 1 \<and>
       PersistHardState t (Some (self_id c)) \<in> set before"

definition still_candidate :: "consensus \<Rightarrow> event \<Rightarrow> consensus \<Rightarrow> bool" where
  "still_candidate c ev d \<longleftrightarrow> role c = Candidate \<and> cur_term d = cur_term c \<and> campaign d = campaign c \<and>
     (votes d = votes c \<or> (\<exists>m. ev = Recv m \<and> m_body m = RequestVoteResp True \<and>
        m_term m = cur_term c \<and> campaign_counts c (m_from m) \<and> votes d = insert (m_from m) (votes c)))"

definition new_candidate :: "consensus \<Rightarrow> consensus \<Rightarrow> action list \<Rightarrow> bool" where
  "new_candidate c d as \<longleftrightarrow> (role c = PreCandidate \<or> may_campaign c) \<and> campaign d = Some (cfg c) \<and>
     votes d = {self_id c} \<and> PersistHardState (cur_term d) (Some (self_id c)) \<in> set as"

definition office :: "consensus \<Rightarrow> event \<Rightarrow> consensus \<Rightarrow> action list \<Rightarrow> bool" where
  "office c ev d as \<longleftrightarrow>
     (\<forall>k t l. RoleChanged Leader t l \<in> set (take k as) \<longrightarrow> polled c ev t (take k as)) \<and>
     (role d = Leader \<longrightarrow> role c = Leader \<and> cur_term d = cur_term c \<or>
        (\<exists>l. RoleChanged Leader (cur_term d) l \<in> set as)) \<and>
     (role d = Candidate \<longrightarrow> still_candidate c ev d \<or> new_candidate c d as) \<and>
     (role d = PreCandidate \<longrightarrow> role c = PreCandidate \<or> may_campaign c)"

lemma office_calm: "calm c d as \<Longrightarrow> office c ev d as"
  by (auto simp: office_def calm_def still_candidate_def dest: in_set_takeD)

lemma become_leader_out:
  assumes "node_ok c" "become_leader c = Some (d, as)"
  shows "\<exists>as'. as = RoleChanged Leader (cur_term c) (Some (self_id c)) # as' \<and>
    (\<forall>t l. RoleChanged Leader t l \<notin> set as') \<and> (role d = Follower \<or> role d = Leader \<and> hard d = hard c)"
proof -
  let ?c = "c\<lparr>role := Leader, leader := Some (self_id c), campaign := None, votes := {},
    since_quorum := 0, since_heartbeat := 0\<rparr>"
  obtain cs where cs: "as = RoleChanged Leader (cur_term c) (Some (self_id c)) # cs"
      "on_became_leader ?c = Some (d, cs)"
    using assms(2) unfolding become_leader_def by (elim andthen_SomeE) (auto simp: emit_def)
  have "node_ok (?c\<lparr>role := Follower\<rparr>)" using assms(1) by (simp add: node_ok_def)
  from sound_quiet_law[OF sound_on_became_leader[OF this] cs(2)] cs(1)
  show ?thesis by (auto simp: quiet_law_def calm_def)
qed

lemma enter_term_simps:
  assumes "cur_term c < u64_max"
  shows "role (enter_term c) = Candidate" "cur_term (enter_term c) = Suc (cur_term c)"
    "campaign (enter_term c) = Some (cfg c)" "votes (enter_term c) = {self_id c}"
    "self_id (enter_term c) = self_id c" "cfg (enter_term c) = cfg c"
  using sat_add64_Suc[OF assms] by (simp_all add: enter_term_def redraw_eq)

lemma enter_term_ok:
  assumes "node_ok c" "cur_term c < u64_max"
  shows "node_ok (enter_term c)"
  unfolding enter_term_def
  by (rule node_ok_redraw) (use assms sat_add64_Suc[OF assms(2)] in \<open>auto simp: node_ok_def\<close>)

lemma become_candidate_office:
  assumes ok: "node_ok c" "cur_term c < u64_max" and run: "become_candidate c = Some (d, as)"
    and entry: "role c = PreCandidate \<or> may_campaign c"
  shows "office c ev d as"
proof -
  let ?e = "enter_term c" and ?T = "Suc (cur_term c)"
  note e = enter_term_simps[OF ok(2)]
  let ?P = "PersistHardState ?T (Some (self_id c))" and ?R = "RoleChanged Candidate ?T None"
  obtain bs where bs: "as = ?P # ?R # bs"
      "(if campaign_carried ?e then become_leader ?e
        else emit ?e (map (\<lambda>dest. send_to ?e dest (RequestVote (last_term ?e) (last_round ?e)))
          (campaign_voters ?e))) = Some (d, bs)"
    using run unfolding become_candidate_def Let_def by (elim andthen_SomeE) (auto simp: emit_def e)
  show ?thesis
  proof (cases "campaign_carried ?e")
    case True
    then have q: "has_quorum (cfg c) 1" by (simp add: campaign_carried_def e)
    obtain cs where cs: "bs = RoleChanged Leader ?T (Some (self_id c)) # cs"
        "\<forall>t l. RoleChanged Leader t l \<notin> set cs" "role d = Follower \<or> role d = Leader \<and> hard d = hard ?e"
      using become_leader_out[OF enter_term_ok[OF ok], of d bs] bs(2) True by (auto simp: e)
    have "polled c ev t (take k as)" if "RoleChanged Leader t l \<in> set (take k as)" for k t l
      using that q entry cs(1,2) bs(1)
      by (auto simp: polled_def take_Cons' split: if_splits dest: in_set_takeD)
    moreover have "role d = Leader \<Longrightarrow> \<exists>l. RoleChanged Leader (cur_term d) l \<in> set as"
      using cs bs(1) e(2) by auto
    ultimately show ?thesis using cs(3) by (auto simp: office_def)
  next
    case False
    then have d: "d = ?e" "\<forall>t l. RoleChanged Leader t l \<notin> set as"
      using bs by (auto simp: emit_def send_to_def)
    then show ?thesis
      using entry bs(1) e by (auto simp: office_def new_candidate_def dest: in_set_takeD)
  qed
qed

text \<open>The same announcements seen from a state that differs in nothing that counts.\<close>

lemma office_from:
  assumes "office b ev d as" "hard b = hard c" "self_id b = self_id c" "cfg b = cfg c"
    and "role b = PreCandidate \<or> may_campaign b \<Longrightarrow> role c = PreCandidate \<or> may_campaign c"
    and "role b \<noteq> Candidate" "role b = Leader \<Longrightarrow> role c = Leader"
  shows "office c ev d as"
  using assms by (auto simp: office_def polled_def still_candidate_def new_candidate_def)

lemma office_cong:
  assumes "role b = role c" "hard b = hard c" "self_id b = self_id c" "cfg b = cfg c"
    "may_campaign b = may_campaign c" "campaign b = campaign c" "votes b = votes c"
  shows "office b ev d as = office c ev d as"
proof -
  have "campaign_counts b = campaign_counts c" "campaign_carried (b\<lparr>votes := v\<rparr>) = campaign_carried (c\<lparr>votes := v\<rparr>)" for v
    using assms(6) by (simp_all add: campaign_counts_def campaign_carried_def fun_eq_iff split: option.split)
  then show ?thesis
    unfolding office_def polled_def still_candidate_def new_candidate_def assms by simp
qed

lemma start_precampaign_office:
  assumes ok: "node_ok c" "cur_term c < u64_max" and run: "start_precampaign c = Some (d, as)"
    and may: "may_campaign c"
  shows "office c ev d as"
proof -
  define b where "b = redraw (c\<lparr>role := PreCandidate, leader := None, campaign := Some (cfg c),
    votes := {self_id c}, since_heard := 0\<rparr>)"
  have b: "role b = PreCandidate" "hard b = hard c" "self_id b = self_id c" "cfg b = cfg c"
    by (simp_all add: b_def redraw_eq)
  have okb: "node_ok b" unfolding b_def by (rule node_ok_redraw) (use ok in \<open>simp add: node_ok_def\<close>)
  obtain cs where cs: "as = RoleChanged PreCandidate (cur_term b) None # cs"
      "(if campaign_carried b then become_candidate b
        else emit b (map (\<lambda>dest. Send \<lparr>m_from = self_id b, m_to = dest,
          m_term = sat_add64 (cur_term b) 1, m_body = PreVote (last_term b) (last_round b)\<rparr>)
          (campaign_voters b))) = Some (d, cs)"
    using run unfolding start_precampaign_def Let_def b_def[symmetric]
    by (elim andthen_SomeE) (auto simp: emit_def)
  show ?thesis
  proof (cases "campaign_carried b")
    case True
    then have "office b ev d cs"
      using become_candidate_office[OF okb, of d cs] cs(2) ok(2) b by simp
    then have "office c ev d cs" by (rule office_from) (use b may in auto)
    then show ?thesis
      unfolding cs(1) by (auto simp: office_def polled_def new_candidate_def take_Cons' split: if_splits)
  next
    case False
    then have "d = b" "\<forall>t l. RoleChanged Leader t l \<notin> set as" using cs by (auto simp: emit_def)
    with b may show ?thesis by (auto simp: office_def dest: in_set_takeD)
  qed
qed

section \<open>Every step\<close>

lemma voter_tick_office:
  assumes ok: "node_ok c" "cur_term c < u64_max" and nl: "role c \<noteq> Leader"
    and run: "voter_tick c = Some (d, as)"
  shows "office c ev d as"
proof -
  define b where "b = c\<lparr>since_heard := sat_add32 (since_heard c) 1\<rparr>"
  have b: "role b = role c" "hard b = hard c" "self_id b = self_id c" "cfg b = cfg c"
      "may_campaign b = may_campaign c" "campaign b = campaign c" "votes b = votes c"
    by (simp_all add: b_def may_campaign_def)
  have okb: "node_ok b" "cur_term b < u64_max" using ok by (simp_all add: b_def node_ok_def)
  have run': "(if since_heard b < election_timeout b then done_with b
      else if may_campaign b then start_precampaign b
      else andthen (if role b \<noteq> Follower then become_follower (cur_term b) None b else done_with b)
             (\<lambda>c. done_with (redraw (c\<lparr>since_heard := 0\<rparr>)))) = Some (d, as)"
    using run unfolding voter_tick_def Let_def b_def .
  consider "since_heard b < election_timeout b"
    | "\<not> since_heard b < election_timeout b" "may_campaign b"
    | "\<not> since_heard b < election_timeout b" "\<not> may_campaign b" by blast
  then show ?thesis
  proof cases
    case 1
    then have "d = b" "as = []" using run' by (auto simp: done_with_def)
    then show ?thesis using b nl by (auto simp: office_def still_candidate_def)
  next
    case 2
    then have "start_precampaign b = Some (d, as)" using run' by simp
    from start_precampaign_office[OF okb this 2(2), of ev]
    show ?thesis unfolding office_cong[OF b] .
  next
    case 3
    then have "role d = Follower" "\<forall>t l. RoleChanged Leader t l \<notin> set as"
      using run' by (auto simp: andthen_def become_follower_def emit_def done_with_def redraw_eq Let_def
          split: if_splits)
    then show ?thesis by (auto simp: office_def dest: in_set_takeD)
  qed
qed

lemma vote_msg_office:
  assumes ok: "node_ok c" "cur_term c < u64_max" and run: "on_vote_msg m c = Some (d, as)"
  shows "office c (Recv m) d as"
proof (cases "role c \<noteq> PreCandidate \<and> role c \<noteq> Candidate")
  case True
  then show ?thesis
    using vote_msg_idle[of c m d as] run by (auto simp: office_def dest: in_set_takeD)
next
  case False
  have okv: "node_ok (c\<lparr>votes := v\<rparr>)" for v using ok(1) by (simp add: node_ok_def)
  have same: "office c (Recv m) d as"
    if "role d = role c" "cur_term d = cur_term c" "campaign d = campaign c" "votes d = votes c"
      "\<forall>t l. RoleChanged Leader t l \<notin> set as"
    using that False by (auto simp: office_def still_candidate_def dest: in_set_takeD)
  show ?thesis
  proof (cases "m_body m")
    case (PreVote lt lr)
    then show ?thesis using run by (intro same) (auto simp: on_vote_msg_def on_pre_vote_def Let_def emit_def)
  next
    case (RequestVote lt lr)
    then have "role d = role c" "cur_term d = cur_term c" "campaign d = campaign c" "votes d = votes c"
        "\<forall>t l. RoleChanged Leader t l \<notin> set as"
      using run by (auto simp: on_vote_msg_def on_request_vote_def Let_def emit_def send_to_def split: if_splits)
    then show ?thesis by (rule same)
  next
    case (PreVoteResp g)
    let ?v = "c\<lparr>votes := insert (m_from m) (votes c)\<rparr>"
    show ?thesis
    proof (cases "role c = PreCandidate \<and> become_candidate ?v = Some (d, as)")
      case True
      then have "office ?v (Recv m) d as"
        using ok okv by (intro become_candidate_office) auto
      then show ?thesis by (rule office_from) (use True in \<open>auto simp: may_campaign_def\<close>)
    next
      case no: False
      then show ?thesis using run PreVoteResp False
        by (auto simp: on_vote_msg_def on_pre_vote_resp_def Let_def done_with_def office_def
            still_candidate_def split: if_splits)
    qed
  next
    case (RequestVoteResp g)
    let ?v = "c\<lparr>votes := insert (m_from m) (votes c)\<rparr>"
    show ?thesis
    proof (cases "role c = Candidate \<and> m_term m = cur_term c \<and> campaign_counts c (m_from m) \<and> g")
      case True
      then have run': "(if campaign_carried ?v then become_leader ?v else done_with ?v) = Some (d, as)"
        using run RequestVoteResp by (simp add: on_vote_msg_def on_request_vote_resp_def Let_def)
      show ?thesis
      proof (cases "campaign_carried ?v")
        case won: True
        then obtain as' where as': "as = RoleChanged Leader (cur_term c) (Some (self_id c)) # as'"
            "\<forall>t l. RoleChanged Leader t l \<notin> set as'" "role d = Follower \<or> role d = Leader \<and> hard d = hard c"
          using become_leader_out[OF okv, of "insert (m_from m) (votes c)" d as] run' by auto
        have "polled c (Recv m) t (take k as)" if "RoleChanged Leader t l \<in> set (take k as)" for k t l
          using that as' won True RequestVoteResp
          by (auto simp: polled_def take_Cons' split: if_splits dest: in_set_takeD)
        then show ?thesis using as' by (auto simp: office_def)
      next
        case lost: False
        then have "d = ?v" "as = []" using run' by (auto simp: done_with_def)
        then show ?thesis using True RequestVoteResp by (auto simp: office_def still_candidate_def)
      qed
    next
      case no: False
      then have "d = c" "as = []"
        using run RequestVoteResp
        by (auto simp: on_vote_msg_def on_request_vote_resp_def Let_def done_with_def split: if_splits)
      then show ?thesis by (intro same) auto
    qed
  qed (use run in \<open>auto simp: on_vote_msg_def\<close>)
qed

lemma step_office:
  assumes ok: "node_ok c" and ev: "event_ok ev" "cur_term c < u64_max" and st: "step ev c = Some (d, as)"
  shows "office c ev d as"
proof (cases ev)
  case Tick
  show ?thesis
  proof (cases "role c = Leader")
    case True
    then have "leader_tick c = Some (d, as)" using st Tick by (simp add: on_tick_def)
    from sound_quiet_law[OF sound_leader_tick[OF ok] this] show ?thesis
      by (auto simp: quiet_law_def intro: office_calm)
  next
    case False
    then show ?thesis using voter_tick_office[OF ok ev(2) False] st Tick by (simp add: on_tick_def)
  qed
next
  case (Recv m)
  have t: "m_term m \<le> u64_max" "on_message m c = Some (d, as)" using ev(1) st Recv by auto
  from ok t show ?thesis
  proof (cases rule: on_message_cases)
    case stale
    then show ?thesis by (auto simp: office_def still_candidate_def dest: in_set_takeD)
  next
    case (vote b bs cs)
    show ?thesis
    proof (cases "b = c \<and> bs = []")
      case True
      then show ?thesis using vote_msg_office[OF ok ev(2)] vote Recv by simp
    next
      case False
      then have f: "role b = Follower" "\<forall>t l. RoleChanged Leader t l \<notin> set bs" using vote(4) by auto
      with vote_msg_idle[OF _ _ vote(2)] have "role d = Follower" "\<forall>t l. RoleChanged Leader t l \<notin> set as"
        unfolding vote(3) by auto
      then show ?thesis by (auto simp: office_def dest: in_set_takeD)
    qed
  next
    case append
    then show ?thesis by (auto simp: quiet_law_def intro: office_calm)
  qed
next
  case (Persisted t r)
  then show ?thesis
    using sound_quiet_law[OF sound_on_persisted[OF ok, of t r]] st by (auto simp: quiet_law_def intro: office_calm)
next
  case (Propose cmd)
  then show ?thesis
    using sound_quiet_law[OF sound_on_propose[OF ok, of cmd]] st by (auto simp: quiet_law_def intro: office_calm)
qed

section \<open>What is on disk\<close>

text \<open>A vote recorded by a hard state: cast in its term, or in a term already left behind.\<close>

definition kept :: "hard_state \<Rightarrow> nat \<Rightarrow> node_id \<Rightarrow> bool" where
  "kept h t v \<longleftrightarrow> t < hs_term h \<or> t = hs_term h \<and> hs_voted_for h = Some v"

lemma legal_kept: "legal me h as \<Longrightarrow> kept h t v \<Longrightarrow> kept (stored h as) t v"
  using legal_later[of me h as] by (auto simp: kept_def vote_move_def)

lemma legal_cast:
  "legal me h as \<Longrightarrow> PersistHardState t (Some v) \<in> set as \<Longrightarrow>
   kept (stored h as) t v \<and> (hs_term h < t \<or> hs_term h = t \<and> hs_voted_for h \<in> {None, Some v})"
proof (induction me h as rule: legal.induct)
  case (2 me h t' v' as)
  show ?case
  proof (cases "t' = t \<and> v' = Some v")
    case True
    then have "kept \<lparr>hs_term = t, hs_voted_for = Some v\<rparr> t v" "legal me \<lparr>hs_term = t, hs_voted_for = Some v\<rparr> as"
      using 2(2) by (auto simp: kept_def)
    from legal_kept[OF this(2,1)] 2(2) True show ?thesis by (auto simp: vote_move_def)
  next
    case False
    then have "PersistHardState t (Some v) \<in> set as" using 2(3) by auto
    with 2 show ?thesis by (auto simp: vote_move_def)
  qed
qed auto

lemma kept_unique:
  assumes "legal me h as" "PersistHardState t (Some v) \<in> set as" "kept h t w"
  shows "v = w"
  using legal_cast[OF assms(1,2)] assms(3) by (auto simp: kept_def)

lemma cast_unique:
  "legal me h as \<Longrightarrow> PersistHardState t (Some v) \<in> set as \<Longrightarrow> PersistHardState t (Some w) \<in> set as \<Longrightarrow>
   v = w"
proof (induction me h as rule: legal.induct)
  case (2 me h t' v' as)
  have "legal me \<lparr>hs_term = t', hs_voted_for = v'\<rparr> as" using 2(2) by simp
  from kept_unique[OF this] 2 show ?case by (auto simp: kept_def)
qed auto

lemma stored_vote:
  "stored h as = h \<or> (\<forall>u. hs_voted_for (stored h as) = Some u \<longrightarrow>
     PersistHardState (hs_term (stored h as)) (Some u) \<in> set as)"
  by (induction h as rule: stored.induct) auto

lemma legal_sent_vote:
  "legal me h as \<Longrightarrow> Send m \<in> set as \<Longrightarrow> m_body m = RequestVoteResp True \<Longrightarrow>
   m_from m = me \<and>
   (PersistHardState (m_term m) (Some (m_to m)) \<in> set as \<or>
    h = \<lparr>hs_term = m_term m, hs_voted_for = Some (m_to m)\<rparr>)"
proof (induction me h as rule: legal.induct)
  case (3 me h m' as)
  then show ?case by (cases "m' = m") auto
qed auto

section \<open>The cluster\<close>

text \<open>
  The nodes, the hard state each has on disk, every message ever sent (delivery does not consume one),
  and two records of the past: the votes made durable, and the announcements of leadership performed.
\<close>

record world =
  w_node :: "node_id \<Rightarrow> consensus"
  w_disk :: "node_id \<Rightarrow> hard_state"
  w_net :: "message set"
  w_cast :: "(nat \<times> node_id \<times> node_id) set"
  w_led :: "(nat \<times> node_id) set"

text \<open>\<open>Node::perform\<close>, for the actions an election depends on.\<close>

fun perform :: "node_id \<Rightarrow> action \<Rightarrow> world \<Rightarrow> world" where
  "perform n (Send m) w = w\<lparr>w_net := insert m (w_net w)\<rparr>"
| "perform n (PersistHardState t v) w =
     w\<lparr>w_disk := (w_disk w)(n := \<lparr>hs_term = t, hs_voted_for = v\<rparr>),
       w_cast := (case v of None \<Rightarrow> w_cast w | Some x \<Rightarrow> insert (t, n, x) (w_cast w))\<rparr>"
| "perform n (RoleChanged r t l) w =
     (if r = Leader then w\<lparr>w_led := insert (t, n) (w_led w)\<rparr> else w)"
| "perform n _ w = w"

definition addressed :: "world \<Rightarrow> node_id \<Rightarrow> event \<Rightarrow> bool" where
  "addressed w n ev \<longleftrightarrow> (case ev of Recv m \<Rightarrow> m \<in> w_net w \<and> m_to m = n | _ \<Rightarrow> True)"

text \<open>
  A crash happens after any number of a step's actions; the node comes back from its disk: its hard
  state, and whatever log its disk holds.
\<close>

inductive cluster :: "config \<Rightarrow> world \<Rightarrow> bool" for C :: config where
  start: "cluster C \<lparr>w_node = (\<lambda>n. consensus_new n C (seed n)),
      w_disk = (\<lambda>n. \<lparr>hs_term = 0, hs_voted_for = None\<rparr>), w_net = {}, w_cast = {}, w_led = {}\<rparr>"
| run: "cluster C w \<Longrightarrow> addressed w n ev \<Longrightarrow> event_ok ev \<Longrightarrow> cur_term (w_node w n) < u64_max \<Longrightarrow>
    step ev (w_node w n) = Some (d, as) \<Longrightarrow> cfg d = C \<Longrightarrow> v = fold (perform n) as w \<Longrightarrow>
    cluster C (v\<lparr>w_node := (w_node v)(n := d)\<rparr>)"
| crash: "cluster C w \<Longrightarrow> addressed w n ev \<Longrightarrow> event_ok ev \<Longrightarrow> cur_term (w_node w n) < u64_max \<Longrightarrow>
    step ev (w_node w n) = Some (d, as) \<Longrightarrow> v = fold (perform n) (take k as) w \<Longrightarrow>
    restore (w_disk v n) floor ft bd es (consensus_new n C sd) = Some (e, bs) \<Longrightarrow>
    cluster C (v\<lparr>w_node := (w_node v)(n := e)\<rparr>)"
| checkpoint: "cluster C w \<Longrightarrow> fst (compact r (w_node w n)) = Some (d, as) \<Longrightarrow>
    cluster C (w\<lparr>w_node := (w_node w)(n := d)\<rparr>)"
| offer: "cluster C w \<Longrightarrow>
    cluster C (w\<lparr>w_node := (w_node w)(n := fst (offer_snapshot_to p s (w_node w n)))\<rparr>)"

lemma performed [simp]:
  "w_node (fold (perform n) as w) = w_node w"
  "w_disk (fold (perform n) as w) = (w_disk w)(n := stored (w_disk w n) as)"
  "w_net (fold (perform n) as w) = w_net w \<union> {m. Send m \<in> set as}"
  "w_cast (fold (perform n) as w) = w_cast w \<union> {(t, n, x) |t x. PersistHardState t (Some x) \<in> set as}"
  "w_led (fold (perform n) as w) = w_led w \<union> {(t, n) |t. \<exists>l. RoleChanged Leader t l \<in> set as}"
proof -
  have "w_node (perform n a w) = w_node w" for a w by (cases a) auto
  then show "w_node (fold (perform n) as w) = w_node w" by (induction as arbitrary: w) auto
  have "w_disk (perform n a w) = (w_disk w)(n := stored (w_disk w n) [a])" for a w by (cases a) auto
  moreover have "stored (stored h [a]) as = stored h (a # as)" for h a as
    using stored_append[of h "[a]" as] by simp
  ultimately show "w_disk (fold (perform n) as w) = (w_disk w)(n := stored (w_disk w n) as)"
    by (induction as arbitrary: w) auto
  have "w_net (perform n a w) = w_net w \<union> {m. a = Send m}" for a w by (cases a) auto
  then show "w_net (fold (perform n) as w) = w_net w \<union> {m. Send m \<in> set as}"
    by (induction as arbitrary: w) auto
  have "w_cast (perform n a w) = w_cast w \<union> {(t, n, x) |t x. a = PersistHardState t (Some x)}" for a w
    by (cases a) (auto split: option.split)
  then show "w_cast (fold (perform n) as w) = w_cast w \<union> {(t, n, x) |t x. PersistHardState t (Some x) \<in> set as}"
    by (induction as arbitrary: w) auto
  have "w_led (perform n a w) = w_led w \<union> {(t, n) |t. \<exists>l. a = RoleChanged Leader t l}" for a w
    by (cases a) auto
  then show "w_led (fold (perform n) as w) = w_led w \<union> {(t, n) |t. \<exists>l. RoleChanged Leader t l \<in> set as}"
    by (induction as arbitrary: w) auto
qed

section \<open>The invariant\<close>

definition backers :: "config \<Rightarrow> world \<Rightarrow> nat \<Rightarrow> node_id \<Rightarrow> node_id set" where
  "backers C w t n = {v \<in> set (members C). (t, v, n) \<in> w_cast w}"

definition history_ok :: "config \<Rightarrow> world \<Rightarrow> bool" where
  "history_ok C w \<longleftrightarrow>
     (\<forall>t n v. (t, n, v) \<in> w_cast w \<longrightarrow> kept (w_disk w n) t v) \<and>
     (\<forall>t n v u. (t, n, v) \<in> w_cast w \<longrightarrow> (t, n, u) \<in> w_cast w \<longrightarrow> v = u) \<and>
     (\<forall>m \<in> w_net w. m_body m = RequestVoteResp True \<longrightarrow> (m_term m, m_from m, m_to m) \<in> w_cast w) \<and>
     (\<forall>t n. hs_term (w_disk w n) = t \<longrightarrow> (\<forall>v. hs_voted_for (w_disk w n) = Some v \<longrightarrow> (t, n, v) \<in> w_cast w)) \<and>
     (\<forall>t n. (t, n) \<in> w_led w \<longrightarrow> majority C (backers C w t n))"

definition seat_ok :: "config \<Rightarrow> world \<Rightarrow> node_id \<Rightarrow> consensus \<Rightarrow> bool" where
  "seat_ok C w n c \<longleftrightarrow> self_id c = n \<and> node_ok c \<and> hard c = w_disk w n \<and> cfg c = C \<and>
     (role c = PreCandidate \<or> role c = Candidate \<longrightarrow> contains C n) \<and>
     (role c = Candidate \<longrightarrow> campaign c = Some C \<and> votes c \<subseteq> backers C w (cur_term c) n) \<and>
     (role c = Leader \<longrightarrow> (cur_term c, n) \<in> w_led w)"

definition cluster_ok :: "config \<Rightarrow> world \<Rightarrow> bool" where
  "cluster_ok C w \<longleftrightarrow> history_ok C w \<and> (\<forall>n. seat_ok C w n (w_node w n))"

lemma majority_mono: "majority C V \<Longrightarrow> V \<subseteq> W \<Longrightarrow> W \<subseteq> set (members C) \<Longrightarrow> majority C W"
  using card_mono[of W V] finite_subset[of W "set (members C)"]
  by (auto simp: majority_def has_quorum_def)

lemma backers_mono: "w_cast w \<subseteq> w_cast v \<Longrightarrow> backers C w t n \<subseteq> backers C v t n"
  by (auto simp: backers_def)

lemma backers_sub: "backers C w t n \<subseteq> set (members C)"
  by (auto simp: backers_def)

lemma seat_other:
  assumes "seat_ok C w x c" "w_disk v x = w_disk w x" "w_cast w \<subseteq> w_cast v" "w_led w \<subseteq> w_led v"
  shows "seat_ok C v x c"
  using assms(1,2,4) backers_mono[OF assms(3), of C "cur_term c" x] unfolding seat_ok_def by fastforce

text \<open>An announcement of leadership is backed by a majority of durable votes at the moment it is made.\<close>

lemma polled_majority:
  assumes inv: "cluster_ok C w" and add: "addressed w n ev" and p: "polled c ev t p"
    and c: "c = w_node w n" and v: "v = fold (perform n) p w"
  shows "majority C (backers C v t n)"
proof -
  have seat: "seat_ok C w n c" and h: "history_ok C w" using inv c by (auto simp: cluster_ok_def)
  have mono: "backers C w t n \<subseteq> backers C v t n" by (rule backers_mono) (simp add: v)
  have by_majority: ?thesis if "V \<subseteq> backers C v t n" "has_quorum C (card V)" for V
  proof -
    have "majority C V" using that backers_sub[of C v t n] by (auto simp: majority_def)
    then show ?thesis using that(1) backers_sub by (rule majority_mono)
  qed
  show ?thesis
    using p unfolding polled_def
  proof (elim disjE conjE exE)
    fix m
    assume r: "role c = Candidate" "t = cur_term c" and ev: "ev = Recv m"
      and m: "m_body m = RequestVoteResp True" "m_term m = t" "campaign_counts c (m_from m)"
      and q: "campaign_carried (c\<lparr>votes := insert (m_from m) (votes c)\<rparr>)"
    have cp: "campaign c = Some C" "votes c \<subseteq> backers C w t n" using seat r by (auto simp: seat_ok_def)
    have "m \<in> w_net w" "m_to m = n" using add ev by (auto simp: addressed_def)
    then have "(t, m_from m, n) \<in> w_cast w" using h m(1,2) by (auto simp: history_ok_def)
    then have "m_from m \<in> backers C w t n"
      using m(3) cp(1) by (simp add: backers_def campaign_counts_def contains_def)
    then have "insert (m_from m) (votes c) \<subseteq> backers C v t n" using cp(2) mono by blast
    moreover have "has_quorum C (card (insert (m_from m) (votes c)))"
      using q cp(1) by (simp add: campaign_carried_def)
    ultimately show ?thesis by (rule by_majority)
  next
    assume r: "role c = PreCandidate" and q: "has_quorum (cfg c) 1"
      "PersistHardState t (Some (self_id c)) \<in> set p"
    then have "{n} \<subseteq> backers C v t n" "has_quorum C (card {n})"
      using seat by (auto simp: seat_ok_def contains_def backers_def v)
    then show ?thesis by (rule by_majority)
  next
    assume r: "may_campaign c" and q: "has_quorum (cfg c) 1"
      "PersistHardState t (Some (self_id c)) \<in> set p"
    then have "{n} \<subseteq> backers C v t n" "has_quorum C (card {n})"
      using seat by (auto simp: seat_ok_def may_campaign_def contains_def backers_def v)
    then show ?thesis by (rule by_majority)
  qed
qed

lemma history_step:
  assumes inv: "cluster_ok C w" and add: "addressed w n ev"
    and ev: "event_ok ev" "cur_term (w_node w n) < u64_max"
    and st: "step ev (w_node w n) = Some (d, as)" and v: "v = fold (perform n) (take k as) w"
  shows "history_ok C v"
proof -
  let ?c = "w_node w n" and ?p = "take k as" and ?h = "w_disk w n"
  have seat: "seat_ok C w n ?c" and h: "history_ok C w" using inv by (auto simp: cluster_ok_def)
  have ok: "node_ok ?c" "hard ?c = ?h" "self_id ?c = n" using seat by (auto simp: seat_ok_def)
  have "legal n ?h as"
    using sound_step[OF ok(1) ev] st ok(2,3) by (auto simp: lawful.sound_def wp_Some evolves_def)
  then have leg: "legal n ?h ?p" by (rule legal_take)
  have office: "office ?c ev d as" by (rule step_office[OF ok(1) ev st])
  have old: "\<And>t x u. (t, x, u) \<in> w_cast w \<Longrightarrow> kept (w_disk w x) t u"
      "\<And>t x u u'. (t, x, u) \<in> w_cast w \<Longrightarrow> (t, x, u') \<in> w_cast w \<Longrightarrow> u = u'"
      "\<And>m. m \<in> w_net w \<Longrightarrow> m_body m = RequestVoteResp True \<Longrightarrow> (m_term m, m_from m, m_to m) \<in> w_cast w"
      "\<And>x u. hs_voted_for (w_disk w x) = Some u \<Longrightarrow> (hs_term (w_disk w x), x, u) \<in> w_cast w"
      "\<And>t x. (t, x) \<in> w_led w \<Longrightarrow> majority C (backers C w t x)"
    using h unfolding history_ok_def by blast+
  have cast: "(t, x, u) \<in> w_cast v \<longleftrightarrow>
      (t, x, u) \<in> w_cast w \<or> x = n \<and> PersistHardState t (Some u) \<in> set ?p" for t x u
    by (auto simp: v)
  have disk: "w_disk v x = (if x = n then stored ?h ?p else w_disk w x)" for x by (simp add: v)
  have 1: "kept (w_disk v x) t u" if "(t, x, u) \<in> w_cast v" for t x u
    using that old(1)[of t x u] legal_kept[OF leg, of t u] legal_cast[OF leg, of t u]
    unfolding cast disk by auto
  have 2: "u = u'" if "(t, x, u) \<in> w_cast v" "(t, x, u') \<in> w_cast v" for t x u u'
    using that old(2)[of t x u u'] old(1)[of t x] kept_unique[OF leg, of t] cast_unique[OF leg, of t u u']
    unfolding cast by blast
  have 3: "(m_term m, m_from m, m_to m) \<in> w_cast v"
    if "m \<in> w_net v" "m_body m = RequestVoteResp True" for m
  proof (cases "m \<in> w_net w")
    case False
    then have "Send m \<in> set ?p" using that(1) by (simp add: v)
    from legal_sent_vote[OF leg this that(2)] old(4)[of n "m_to m"] show ?thesis
      unfolding cast by auto
  qed (use old(3) that(2) cast in blast)
  have 4: "(hs_term (w_disk v x), x, u) \<in> w_cast v" if "hs_voted_for (w_disk v x) = Some u" for x u
    using that old(4)[of x u] stored_vote[of ?h ?p] unfolding cast disk by (cases "x = n") auto
  have 5: "majority C (backers C v t x)" if "(t, x) \<in> w_led v" for t x
  proof (cases "(t, x) \<in> w_led w")
    case True
    have "w_cast w \<subseteq> w_cast v" by (simp add: v)
    then show ?thesis by (rule majority_mono[OF old(5)[OF True] backers_mono backers_sub])
  next
    case False
    then have "x = n" "\<exists>l. RoleChanged Leader t l \<in> set ?p" using that by (auto simp: v)
    moreover from this(2) have "polled ?c ev t ?p" using office unfolding office_def by blast
    ultimately show ?thesis using polled_majority[OF inv add _ refl v] by simp
  qed
  show ?thesis
    unfolding history_ok_def
    by (intro conjI allI impI ballI) (use 1 2 3 4 5 in \<open>blast+\<close>)
qed

lemma seat_run:
  assumes inv: "cluster_ok C w" and add: "addressed w n ev"
    and ev: "event_ok ev" "cur_term (w_node w n) < u64_max"
    and st: "step ev (w_node w n) = Some (d, as)" "cfg d = C" and v: "v = fold (perform n) as w"
  shows "seat_ok C v n d"
proof -
  define c where "c = w_node w n"
  have seat: "seat_ok C w n c" and h: "history_ok C w" using inv by (auto simp: cluster_ok_def c_def)
  have c: "node_ok c" "hard c = w_disk w n" "self_id c = n" "cfg c = C" using seat by (auto simp: seat_ok_def)
  have "evolves c d as" and okd: "node_ok d"
    using sound_step[OF c(1) ev[folded c_def]] st[folded c_def] by (auto simp: lawful.sound_def wp_Some)
  then have d: "self_id d = n" "hard d = w_disk v n" using c by (auto simp: evolves_def v)
  have off: "office c ev d as" using step_office[OF c(1) ev[folded c_def]] st(1) by (simp add: c_def)
  have casts: "w_cast w \<subseteq> w_cast v" "w_led w \<subseteq> w_led v" by (auto simp: v)
  have camp: "role c = PreCandidate \<or> may_campaign c \<Longrightarrow> contains C n"
    using seat by (auto simp: seat_ok_def may_campaign_def)
  have cand: "contains C n \<and> campaign d = Some C \<and> votes d \<subseteq> backers C v (cur_term d) n"
    if r: "role d = Candidate"
  proof -
    from off r consider "still_candidate c ev d" | "new_candidate c d as" by (auto simp: office_def)
    then show ?thesis
    proof cases
      case 1
      then have rc: "role c = Candidate" "cur_term d = cur_term c" "campaign d = campaign c"
        by (auto simp: still_candidate_def)
      then have old: "contains C n" "campaign c = Some C" "votes c \<subseteq> backers C v (cur_term c) n"
        using seat backers_mono[OF casts(1), of C "cur_term c" n] unfolding seat_ok_def by blast+
      moreover have "votes d \<subseteq> insert (m_from m) (votes c) \<and> m_from m \<in> backers C v (cur_term c) n"
        if m: "ev = Recv m" "m_body m = RequestVoteResp True" "m_term m = cur_term c"
          "campaign_counts c (m_from m)" "votes d = insert (m_from m) (votes c)" for m
      proof -
        have "m \<in> w_net w" "m_to m = n" using add m(1) by (auto simp: addressed_def)
        then have "(cur_term c, m_from m, n) \<in> w_cast v" using h m(2,3) casts(1) by (auto simp: history_ok_def)
        with m(4,5) old(2) show ?thesis by (auto simp: backers_def campaign_counts_def contains_def)
      qed
      ultimately show ?thesis using 1 rc by (auto simp: still_candidate_def)
    next
      case 2
      then show ?thesis
        using camp c by (auto simp: new_candidate_def backers_def contains_def v)
    qed
  qed
  have lead: "(cur_term d, n) \<in> w_led v" if "role d = Leader"
    using off that seat casts(2) by (auto simp: office_def seat_ok_def v)
  have pre: "contains C n" if "role d = PreCandidate" using off that camp by (auto simp: office_def)
  show ?thesis using d okd st(2) cand lead pre by (auto simp: seat_ok_def)
qed

lemma seats_after:
  assumes "cluster_ok C w" "history_ok C v" "seat_ok C v n d"
    and "\<And>x. x \<noteq> n \<Longrightarrow> w_disk v x = w_disk w x" "w_cast w \<subseteq> w_cast v" "w_led w \<subseteq> w_led v" "w_node v = w_node w"
  shows "cluster_ok C (v\<lparr>w_node := (w_node v)(n := d)\<rparr>)"
proof -
  let ?u = "v\<lparr>w_node := (w_node v)(n := d)\<rparr>"
  have b: "backers C ?u t x = backers C v t x" for t x by (simp add: backers_def)
  have "history_ok C ?u" using assms(2) by (simp add: history_ok_def b)
  moreover have seat: "seat_ok C ?u x c = seat_ok C v x c" for x c by (simp add: seat_ok_def b)
  moreover have "seat_ok C v x (w_node v x)" if "x \<noteq> n" for x
    using seat_other[of C w x "w_node w x" v] assms that by (auto simp: cluster_ok_def)
  ultimately show ?thesis using assms(3) by (simp add: cluster_ok_def)
qed

lemma seat_same:
  assumes "seat_ok C w n c" "node_ok d" "hard d = hard c" "self_id d = self_id c" "role d = role c"
    "campaign d = campaign c" "votes d = votes c" "cfg d = cfg c"
  shows "seat_ok C w n d"
  using assms(1,2) unfolding seat_ok_def assms(3-8) by blast

lemma cluster_invariant: "cluster C w \<Longrightarrow> cluster_ok C w"
proof (induction rule: cluster.induct)
  case (start seed)
  show ?case by (simp add: cluster_ok_def history_ok_def seat_ok_def new_simps node_ok_new)
next
  case (run w n ev d as v)
  note inv = run.IH and h = run.hyps(2-5)
  show ?case
    using history_step[OF inv h, of v "length as"] seat_run[OF inv h run.hyps(6,7)] run.hyps(7)
    by (intro seats_after[OF inv]) auto
next
  case (crash w n ev d as v k floor ft bd es sd e bs)
  note inv = crash.IH and h = crash.hyps(2-5) and v = crash.hyps(6)
  have hist: "history_ok C v" by (rule history_step[OF inv h v])
  have seat: "seat_ok C w n (w_node w n)" using inv by (simp add: cluster_ok_def)
  have ok: "node_ok (w_node w n)" "hard (w_node w n) = w_disk w n" "self_id (w_node w n) = n"
    using seat by (auto simp: seat_ok_def)
  have ev: "evolves (w_node w n) d as" "node_ok d"
    using sound_step[OF ok(1) h(2,3)] h(4) by (auto simp: lawful.sound_def wp_Some)
  have "hs_term (w_disk v n) \<le> hs_term (stored (w_disk v n) (drop k as))"
  proof (rule legal_term)
    have "legal n (w_disk w n) (take k as @ drop k as)" using ev(1) ok by (simp add: evolves_def)
    then show "legal n (w_disk v n) (drop k as)" unfolding legal_append by (simp add: v)
  qed
  also have "stored (w_disk v n) (drop k as) = hard d"
  proof -
    have "stored (w_disk w n) (take k as @ drop k as) = hard d" using ev(1) ok by (simp add: evolves_def)
    then show ?thesis unfolding stored_append by (simp add: v)
  qed
  also have "hs_term (hard d) \<le> u64_max" using ev(2) by (simp add: node_ok_def)
  finally have "seat_ok C v n e"
    using restore_ok[OF crash.hyps(7)] by (simp add: seat_ok_def)
  with hist show ?case by (intro seats_after[OF inv]) (auto simp: v)
next
  case (checkpoint w r n d as)
  have "seat_ok C w n (w_node w n)" using checkpoint.IH by (simp add: cluster_ok_def)
  then have "seat_ok C w n d"
    using compact_ok[of "w_node w n" r] checkpoint.hyps(2) by (auto simp: seat_ok_def)
  then show ?case
    using checkpoint.IH by (intro seats_after[OF checkpoint.IH]) (auto simp: cluster_ok_def)
next
  case (offer w n p s)
  have seat: "seat_ok C w n (w_node w n)" using offer.IH by (simp add: cluster_ok_def)
  then have "node_ok (w_node w n)" by (simp add: seat_ok_def)
  from offer_ok[OF this refl, of p s] have "seat_ok C w n (fst (offer_snapshot_to p s (w_node w n)))"
    by (intro seat_same[OF seat]) auto
  then show ?case
    using offer.IH by (intro seats_after[OF offer.IH]) (auto simp: cluster_ok_def)
qed

text \<open>
  (C1) Election safety. In a cluster whose configuration does not change, over any schedule of events,
  message loss, duplication and reordering, and crashes at any point between two actions followed by a
  restart from disk, no two nodes ever announce leadership of the same term, and at no moment do two
  nodes hold the role of leader in the same term.
\<close>

theorem election_safety:
  assumes "cluster C w"
  shows "(\<forall>t a b. (t, a) \<in> w_led w \<and> (t, b) \<in> w_led w \<longrightarrow> a = b) \<and>
    (\<forall>a b. role (w_node w a) = Leader \<and> role (w_node w b) = Leader \<and>
       cur_term (w_node w a) = cur_term (w_node w b) \<longrightarrow> a = b)"
proof -
  have h: "history_ok C w" and seats: "\<And>n. seat_ok C w n (w_node w n)"
    using cluster_invariant[OF assms] by (auto simp: cluster_ok_def)
  have one: "a = b" if "(t, a) \<in> w_led w" "(t, b) \<in> w_led w" for t a b
  proof (rule voters.unique_by_quorum[of C, where choice = "\<lambda>v. THE n. (t, v, n) \<in> w_cast w"])
    show "majority C (backers C w t a)" "majority C (backers C w t b)"
      using h that unfolding history_ok_def by blast+
    have "(THE n. (t, v, n) \<in> w_cast w) = n" if "(t, v, n) \<in> w_cast w" for v n
      using h that unfolding history_ok_def by (intro the_equality) blast+
    then show "(THE n. (t, v, n) \<in> w_cast w) = a" if "v \<in> backers C w t a" for v
      using that by (simp add: backers_def)
    show "(THE n. (t, v, n) \<in> w_cast w) = b" if "v \<in> backers C w t b" for v
      using that \<open>\<And>n v. (t, v, n) \<in> w_cast w \<Longrightarrow> (THE n. (t, v, n) \<in> w_cast w) = n\<close> by (simp add: backers_def)
  qed
  moreover have "a = b" if "role (w_node w a) = Leader" "role (w_node w b) = Leader"
      "cur_term (w_node w a) = cur_term (w_node w b)" for a b
    using one[of "cur_term (w_node w a)" a b] seats[of a] seats[of b] that unfolding seat_ok_def by metis
  ultimately show ?thesis by blast
qed

lemma cluster_ticks:
  assumes w: "cluster C w" and c: "w_node w n = c" "cfg c = C" "role c \<noteq> Leader" "cur_term c < u64_max"
    and to: "election_timeout c \<le> u32_max" and j: "since_heard c + j < election_timeout c"
  shows "cluster C (w\<lparr>w_node := (w_node w)(n := c\<lparr>since_heard := since_heard c + j\<rparr>)\<rparr>)"
  using j
proof (induction j)
  case 0
  have "(w_node w)(n := c) = w_node w" using c(1) by auto
  then show ?case using w by (simp add: fun_upd_def)
next
  case (Suc j)
  let ?b = "c\<lparr>since_heard := since_heard c + j\<rparr>" and ?e = "c\<lparr>since_heard := since_heard c + Suc j\<rparr>"
  let ?w = "w\<lparr>w_node := (w_node w)(n := ?b)\<rparr>"
  have "step Tick ?b = done_with ?e"
    using quiet_ticks[OF c(3) to, of "Suc j"] quiet_ticks[OF c(3) to, of j] Suc.prems by simp
  then have st: "step Tick (w_node ?w n) = Some (?e, [])" by (simp add: done_with_def)
  have "cluster C (?w\<lparr>w_node := (w_node ?w)(n := ?e)\<rparr>)"
    by (rule cluster.run[OF Suc.IH _ _ _ st]) (use Suc.prems c in \<open>auto simp: addressed_def\<close>)
  moreover have "?w\<lparr>w_node := (w_node ?w)(n := ?e)\<rparr> = w\<lparr>w_node := (w_node w)(n := ?e)\<rparr>"
    by (cases w) simp
  ultimately show ?case by (simp only:)
qed

theorem election_safety_witness:
  "\<exists>w. cluster (config_new [1] 1 1) w \<and> {b. (1, b) \<in> w_led w} = {1}"
proof -
  define C where "C = config_new [1] 1 1"
  have "contains (config_new [1] 1 1) 1" "has_quorum (config_new [1] 1 1) 1" by code_simp+
  then have C: "contains C 1" "has_quorum C 1" by (simp_all add: C_def)
  define c where "c = consensus_new 1 C 0"
  have c: "cfg c = C" "role c \<noteq> Leader" "cur_term c = 0" "self_id c = 1" "node_ok c" "may_campaign c"
      "election_timeout c \<le> u32_max" "since_heard c = 0" "0 < election_timeout c"
    using C by (simp_all add: c_def new_simps new_clock node_ok_new)
  define w where "w = \<lparr>w_node = (\<lambda>n. consensus_new n C 0), w_disk = (\<lambda>n. \<lparr>hs_term = 0, hs_voted_for = None\<rparr>),
    w_net = {}, w_cast = {}, w_led = {}\<rparr>"
  have w: "cluster C w" unfolding w_def by (rule cluster.start[where seed = "\<lambda>_. 0"])
  obtain j where j: "election_timeout c = Suc j" using c(9) by (cases "election_timeout c") auto
  let ?b = "c\<lparr>since_heard := j\<rparr>" and ?e = "c\<lparr>since_heard := Suc j\<rparr>"
  let ?w = "w\<lparr>w_node := (w_node w)(1 := ?b)\<rparr>"
  have wj: "cluster C ?w"
    using cluster_ticks[OF w, of 1 c j] c j by (simp add: w_def c_def)
  have ok: "node_ok ?e" "cur_term ?e < u64_max" using c by (simp_all add: node_ok_def)
  obtain d as where d: "start_precampaign ?e = Some (d, as)"
    using sound_start_precampaign[OF ok] by (auto simp: lawful.sound_def wp_Some)
  have st: "step Tick (w_node ?w 1) = Some (d, as)"
    using last_tick[of ?b] c j d by (simp add: may_campaign_def)
  have led: "RoleChanged Leader 1 (Some 1) \<in> set as"
    using precampaign_out[OF ok d] c C by simp
  define v where "v = fold (perform 1) (take (length as) as) ?w"
  have "\<exists>e. restore (w_disk v 1) 0 0 0 [] (consensus_new 1 C 0) = Some (e, [])"
    by (simp add: restore_def Let_def new_simps done_with_def andthen_def)
  then obtain e where e: "restore (w_disk v 1) 0 0 0 [] (consensus_new 1 C 0) = Some (e, [])" ..
  have "cluster C (v\<lparr>w_node := (w_node v)(1 := e)\<rparr>)"
    by (rule cluster.crash[OF wj _ _ _ st v_def e]) (use c in \<open>auto simp: addressed_def\<close>)
  moreover have "(1, 1) \<in> w_led (v\<lparr>w_node := (w_node v)(1 := e)\<rparr>)"
    using led by (auto simp: v_def)
  ultimately show ?thesis using election_safety unfolding C_def[symmetric] by blast
qed

end
