(* ===== verification/Linked_Hash_Set.thy ===== *)
theory Linked_Hash_Set
  imports Wire_Bytes "HOL-Library.AList" "HOL-Library.Monad_Syntax"
begin

text \<open>
  \<open>buffer/linked_hash_set.rs\<close>: a set of page ids kept in recency order. The nodes live in a vector and
  name each other by index, the two ends are indices, a hash map finds a key's node, and the indices of
  removed nodes are kept for reuse. The model keeps that representation; what it stands for is the list
  of its keys, most recently used first, and every operation is shown to be one operation on that list.

  A method is a function into \<open>option\<close>: \<open>None\<close> is a call that does not return, because an index is out
  of range (the source panics) or because the walk of \<open>check_unpinned\<close> goes round for ever.
\<close>

section \<open>The representation\<close>

record node =
  n_key :: nat
  n_next :: "nat option"
  n_prev :: "nat option"

record linked_hash_set =
  s_map :: "(nat \<times> nat) list"
  s_nodes :: "node list"
  s_tail :: "nat option"
  s_head :: "nat option"
  s_free :: "nat list"

definition node_new :: "nat \<Rightarrow> nat option \<Rightarrow> nat option \<Rightarrow> node" where
  "node_new k nx pv = \<lparr>n_key = k, n_next = nx, n_prev = pv\<rparr>"

definition lhs_new :: linked_hash_set where
  "lhs_new = \<lparr>s_map = [], s_nodes = [], s_tail = None, s_head = None, s_free = []\<rparr>"

definition node_at :: "linked_hash_set \<Rightarrow> nat \<Rightarrow> node option" where
  "node_at s i = (if i < length (s_nodes s) then Some (s_nodes s ! i) else None)"

definition put_next :: "nat \<Rightarrow> nat option \<Rightarrow> linked_hash_set \<Rightarrow> linked_hash_set option" where
  "put_next i x s =
     (if i < length (s_nodes s)
      then Some (s\<lparr>s_nodes := (s_nodes s)[i := (s_nodes s ! i)\<lparr>n_next := x\<rparr>]\<rparr>) else None)"

definition put_prev :: "nat \<Rightarrow> nat option \<Rightarrow> linked_hash_set \<Rightarrow> linked_hash_set option" where
  "put_prev i x s =
     (if i < length (s_nodes s)
      then Some (s\<lparr>s_nodes := (s_nodes s)[i := (s_nodes s ! i)\<lparr>n_prev := x\<rparr>]\<rparr>) else None)"

section \<open>The operations\<close>

definition lhs_contains :: "linked_hash_set \<Rightarrow> nat \<Rightarrow> bool" where
  "lhs_contains s k \<longleftrightarrow> map_of (s_map s) k \<noteq> None"

definition lhs_len :: "linked_hash_set \<Rightarrow> nat" where
  "lhs_len s = length (s_map s)"

text \<open>
  Closing the gap around node \<open>i\<close>: its neighbours, or the ends of the list, come to name each other.
  The same two \<open>match\<close>es stand in \<open>remove\<close> and in \<open>move_to_front\<close>.
\<close>

definition unlink :: "nat \<Rightarrow> linked_hash_set \<Rightarrow> linked_hash_set option" where
  "unlink i s = do {
     n \<leftarrow> node_at s i;
     s \<leftarrow> (case n_prev n of
             Some p \<Rightarrow> put_next p (n_next n) s
           | None \<Rightarrow> Some (s\<lparr>s_head := n_next n\<rparr>));
     (case n_next n of
        Some m \<Rightarrow> put_prev m (n_prev n) s
      | None \<Rightarrow> Some (s\<lparr>s_tail := n_prev n\<rparr>))
   }"

definition lhs_remove :: "nat \<Rightarrow> linked_hash_set \<Rightarrow> (linked_hash_set \<times> unit result) option" where
  "lhs_remove k s =
     (case map_of (s_map s) k of
        None \<Rightarrow> Some (s, Inl KeyNotFound)
      | Some i \<Rightarrow> do {
          s \<leftarrow> unlink i (s\<lparr>s_map := AList.delete k (s_map s)\<rparr>);
          Some (s\<lparr>s_free := s_free s @ [i]\<rparr>, Inr ())
        })"

text \<open>Making node \<open>i\<close> the head: the old head, or the tail of an empty list, comes to name it.\<close>

definition link_front :: "nat \<Rightarrow> linked_hash_set \<Rightarrow> linked_hash_set option" where
  "link_front i s = do {
     s \<leftarrow> (case s_head s of
             Some old \<Rightarrow> put_prev old (Some i) s
           | None \<Rightarrow> Some (s\<lparr>s_tail := Some i\<rparr>));
     Some (s\<lparr>s_head := Some i\<rparr>)
   }"

definition move_to_front :: "nat \<Rightarrow> linked_hash_set \<Rightarrow> (linked_hash_set \<times> unit result) option" where
  "move_to_front k s =
     (case map_of (s_map s) k of
        None \<Rightarrow> Some (s, Inl KeyNotFound)
      | Some i \<Rightarrow> do {
          s \<leftarrow> unlink i s;
          s \<leftarrow> put_prev i None s;
          s \<leftarrow> put_next i (s_head s) s;
          s \<leftarrow> link_front i s;
          Some (s, Inr ())
        })"

definition lhs_insert :: "nat \<Rightarrow> linked_hash_set \<Rightarrow> (linked_hash_set \<times> unit result) option" where
  "lhs_insert k s =
     (if lhs_contains s k then move_to_front k s
      else
        let n = node_new k (s_head s) None in
        do {
          (i, s) \<leftarrow>
            (if s_free s = [] then
               Some (length (s_nodes s), s\<lparr>s_nodes := s_nodes s @ [n]\<rparr>)
             else
               let slot = last (s_free s) in
               if slot < length (s_nodes s)
               then Some (slot, s\<lparr>s_free := butlast (s_free s), s_nodes := (s_nodes s)[slot := n]\<rparr>)
               else None);
          s \<leftarrow> link_front i s;
          Some (s\<lparr>s_map := AList.update k i (s_map s)\<rparr>, Inr ())
        })"

definition pop_back :: "linked_hash_set \<Rightarrow> (linked_hash_set \<times> nat result) option" where
  "pop_back s =
     (case s_tail s of
        None \<Rightarrow> Some (s, Inl EmptyList)
      | Some i \<Rightarrow> do {
          n \<leftarrow> node_at s i;
          s \<leftarrow> (case n_prev n of
                  Some p \<Rightarrow> put_next p None s
                | None \<Rightarrow> Some (s\<lparr>s_head := None\<rparr>));
          n' \<leftarrow> node_at s i;
          Some (s\<lparr>s_tail := n_prev n, s_map := AList.delete (n_key n') (s_map s),
                  s_free := s_free s @ [i]\<rparr>, Inr (n_key n'))
        })"

text \<open>
  The walk of \<open>check_unpinned\<close> from the tail towards the head. Nothing in the type bounds it; that it
  ends is a property of the sets the operations build.
\<close>

partial_function (option) walk_unpinned ::
    "(nat \<Rightarrow> bool) \<Rightarrow> linked_hash_set \<Rightarrow> nat option \<Rightarrow> (linked_hash_set \<times> nat option) option" where
  "walk_unpinned is_pinned s cur =
     (case cur of
        None \<Rightarrow> Some (s, None)
      | Some i \<Rightarrow>
          (case node_at s i of
             None \<Rightarrow> None
           | Some n \<Rightarrow>
               if is_pinned (n_key n) then walk_unpinned is_pinned s (n_prev n)
               else
                 (case lhs_remove (n_key n) s of
                    Some (s', Inr _) \<Rightarrow> Some (s', Some (n_key n))
                  | _ \<Rightarrow> None)))"

definition check_unpinned ::
    "(nat \<Rightarrow> bool) \<Rightarrow> linked_hash_set \<Rightarrow> (linked_hash_set \<times> nat option) option" where
  "check_unpinned is_pinned s = walk_unpinned is_pinned s (s_tail s)"

section \<open>What a representation stands for\<close>

text \<open>The node indices from the head on, and the keys they hold.\<close>

fun follow :: "node list \<Rightarrow> nat option \<Rightarrow> nat \<Rightarrow> nat list" where
  "follow ns None k = []"
| "follow ns (Some i) 0 = []"
| "follow ns (Some i) (Suc k) = i # follow ns (n_next (ns ! i)) k"

definition ids_of :: "linked_hash_set \<Rightarrow> nat list" where
  "ids_of s = follow (s_nodes s) (s_head s) (length (s_nodes s))"

definition keys_of :: "linked_hash_set \<Rightarrow> nat list" where
  "keys_of s = map (\<lambda>i. n_key (s_nodes s ! i)) (ids_of s)"

text \<open>
  \<open>links ns p xs q\<close>: the nodes \<open>xs\<close> name each other in both directions, the first one names \<open>p\<close> as its
  predecessor and the last one \<open>q\<close> as its successor.
\<close>

definition first_of :: "nat list \<Rightarrow> nat option \<Rightarrow> nat option" where
  "first_of xs q = (case xs of [] \<Rightarrow> q | x # _ \<Rightarrow> Some x)"

definition last_of :: "nat option \<Rightarrow> nat list \<Rightarrow> nat option" where
  "last_of p xs = (if xs = [] then p else Some (last xs))"

fun links :: "node list \<Rightarrow> nat option \<Rightarrow> nat list \<Rightarrow> nat option \<Rightarrow> bool" where
  "links ns p [] q = True"
| "links ns p (x # xs) q \<longleftrightarrow>
     x < length ns \<and> n_prev (ns ! x) = p \<and> n_next (ns ! x) = first_of xs q \<and> links ns (Some x) xs q"

text \<open>
  The type invariant, for the index list \<open>xs\<close>: the chain is doubly linked between the two ends, the hash
  map holds exactly its keys, and every other slot is free, once.
\<close>

definition lhs_at :: "linked_hash_set \<Rightarrow> nat list \<Rightarrow> bool" where
  "lhs_at s xs \<longleftrightarrow>
     links (s_nodes s) None xs None \<and>
     s_head s = first_of xs None \<and> s_tail s = last_of None xs \<and>
     distinct (xs @ s_free s) \<and> set (xs @ s_free s) = {..<length (s_nodes s)} \<and>
     distinct (map fst (s_map s)) \<and>
     set (s_map s) = (\<lambda>i. (n_key (s_nodes s ! i), i)) ` set xs"

definition lhs_ok :: "linked_hash_set \<Rightarrow> bool" where
  "lhs_ok s \<longleftrightarrow> lhs_at s (ids_of s)"

section \<open>Chains\<close>

lemma first_of_simps [simp]:
  "first_of [] q = q" "first_of (x # xs) q = Some x"
  "first_of (xs @ ys) q = first_of xs (first_of ys q)"
  by (auto simp: first_of_def split: list.split)

lemma last_of_simps [simp]:
  "last_of p [] = p" "last_of p (xs @ [x]) = Some x"
  "last_of p (xs @ ys) = last_of (last_of p xs) ys"
  "last_of p (x # xs) = last_of (Some x) xs"
  by (auto simp: last_of_def)

lemma links_append [simp]:
  "links ns p (xs @ ys) q \<longleftrightarrow> links ns p xs (first_of ys q) \<and> links ns (last_of p xs) ys q"
  by (induction xs arbitrary: p) (auto simp: last_of_def)

lemma links_upd [simp]: "i \<notin> set xs \<Longrightarrow> links (ns[i := n]) p xs q = links ns p xs q"
  by (induction xs arbitrary: p) auto

lemma links_in: "links ns p xs q \<Longrightarrow> x \<in> set xs \<Longrightarrow> x < length ns"
  by (induction xs arbitrary: p) auto

lemma links_more: "links ns p xs q \<Longrightarrow> links (ns @ [n]) p xs q"
  by (induction xs arbitrary: p) (auto simp: nth_append)

lemma follow_links:
  "links ns p xs None \<Longrightarrow> length xs \<le> k \<Longrightarrow> follow ns (first_of xs None) k = xs"
proof (induction xs arbitrary: p k)
  case (Cons x xs)
  then obtain k' where "k = Suc k'" by (cases k) auto
  with Cons show ?case by auto
qed simp

definition same_keys :: "node list \<Rightarrow> node list \<Rightarrow> bool" where
  "same_keys ns ms \<longleftrightarrow> length ns = length ms \<and> (\<forall>j. n_key (ns ! j) = n_key (ms ! j))"

lemma same_keys_upd:
  "n_key n = n_key (ns ! i) \<Longrightarrow> same_keys (ns[i := n]) ns"
proof -
  assume n: "n_key n = n_key (ns ! i)"
  have "n_key (ns[i := n] ! j) = n_key (ns ! j)" for j
    using n by (cases "i < length ns") (auto simp: nth_list_update list_update_beyond)
  then show ?thesis by (simp add: same_keys_def)
qed

lemma same_keys_refl: "same_keys ns ns"
  by (simp add: same_keys_def)

lemma same_keys_trans: "same_keys ns ms \<Longrightarrow> same_keys ms ls \<Longrightarrow> same_keys ns ls"
  by (simp add: same_keys_def)

lemma unlink_chain:
  assumes l: "links (s_nodes s) None (xs @ i # ys) None" and d: "distinct (xs @ i # ys)"
    and ends: "s_head s = first_of (xs @ i # ys) None" "s_tail s = last_of None (xs @ i # ys)"
  obtains ns where
    "unlink i s = Some (s\<lparr>s_nodes := ns, s_head := first_of (xs @ ys) None,
       s_tail := last_of None (xs @ ys)\<rparr>)"
    "same_keys ns (s_nodes s)" "links ns None (xs @ ys) None" "ns ! i = s_nodes s ! i"
proof -
  let ?ns = "s_nodes s"
  have n: "node_at s i = Some (?ns ! i)" "n_prev (?ns ! i) = last_of None xs"
      "n_next (?ns ! i) = first_of ys None"
    using l by (auto simp: node_at_def)
  define s1 where "s1 = (case last_of None xs of None \<Rightarrow> s\<lparr>s_head := first_of ys None\<rparr>
     | Some p \<Rightarrow> s\<lparr>s_nodes := ?ns[p := (?ns ! p)\<lparr>n_next := first_of ys None\<rparr>]\<rparr>)"
  define s2 where "s2 = (case first_of ys None of None \<Rightarrow> s1\<lparr>s_tail := last_of None xs\<rparr>
     | Some m \<Rightarrow> s1\<lparr>s_nodes := (s_nodes s1)[m := (s_nodes s1 ! m)\<lparr>n_prev := last_of None xs\<rparr>]\<rparr>)"
  have xs: "xs = [] \<or> (\<exists>as p. xs = as @ [p])" by (metis rev_exhaust)
  have ys: "ys = [] \<or> (\<exists>m bs. ys = m # bs)" by (metis list.exhaust)
  have u: "unlink i s = Some s2"
    using xs ys l unfolding unlink_def n(1) s2_def s1_def
    by (auto simp: n(2,3) put_next_def put_prev_def)
  have e: "s2 = s\<lparr>s_nodes := s_nodes s2, s_head := first_of (xs @ ys) None,
       s_tail := last_of None (xs @ ys)\<rparr>"
    using xs ys ends unfolding s2_def s1_def by (cases s) auto
  have k: "same_keys (s_nodes s1) ?ns" "same_keys (s_nodes s2) (s_nodes s1)"
    using xs ys unfolding s2_def s1_def by (auto intro!: same_keys_upd same_keys_refl)
  have c: "links (s_nodes s2) None (xs @ ys) None"
    using xs ys l d unfolding s2_def s1_def by (auto simp: nth_list_update)
  have "s_nodes s2 ! i = ?ns ! i"
    using xs ys d unfolding s2_def s1_def by auto
  then show ?thesis
    by (intro that[OF trans[OF u arg_cong[where f = Some, OF e]] same_keys_trans[OF k(2,1)] c])
qed

lemma link_front_chain:
  assumes l: "links (s_nodes s) None xs None" and d: "distinct (i # xs)"
    and ends: "s_head s = first_of xs None" "s_tail s = last_of None xs"
    and i: "i < length (s_nodes s)" "n_prev (s_nodes s ! i) = None" "n_next (s_nodes s ! i) = s_head s"
  obtains ns where
    "link_front i s = Some (s\<lparr>s_nodes := ns, s_head := Some i, s_tail := last_of None (i # xs)\<rparr>)"
    "same_keys ns (s_nodes s)" "links ns None (i # xs) None"
proof (cases xs)
  case Nil
  have "link_front i s = Some (s\<lparr>s_nodes := s_nodes s, s_head := Some i, s_tail := last_of None (i # xs)\<rparr>)"
    using ends Nil by (cases s) (simp add: link_front_def)
  moreover have "links (s_nodes s) None (i # xs) None" using i ends Nil by simp
  ultimately show ?thesis using that same_keys_refl by blast
next
  case (Cons h t)
  let ?ns = "(s_nodes s)[h := (s_nodes s ! h)\<lparr>n_prev := Some i\<rparr>]"
  have "link_front i s = Some (s\<lparr>s_nodes := ?ns, s_head := Some i, s_tail := last_of None (i # xs)\<rparr>)"
    using ends Cons l by (cases s) (auto simp: link_front_def put_prev_def)
  moreover have "same_keys ?ns (s_nodes s)" by (rule same_keys_upd) simp
  moreover have "links ?ns None (i # xs) None"
    using l i d ends Cons by (auto simp: nth_list_update)
  ultimately show ?thesis using that by blast
qed

section \<open>The invariant\<close>

lemma lhs_at_ids:
  assumes "lhs_at s xs"
  shows "ids_of s = xs"
proof -
  have "length xs = card (set xs)" using assms by (simp add: lhs_at_def distinct_card)
  also have "\<dots> \<le> card {..<length (s_nodes s)}"
    by (rule card_mono) (use assms in \<open>auto simp: lhs_at_def\<close>)
  finally show ?thesis
    using assms by (auto simp: lhs_at_def ids_of_def intro: follow_links)
qed

lemma lhs_at_ok: "lhs_at s xs \<Longrightarrow> lhs_ok s"
  using lhs_at_ids by (simp add: lhs_ok_def)

lemma lhs_at_keys: "lhs_at s xs \<Longrightarrow> keys_of s = map (\<lambda>i. n_key (s_nodes s ! i)) xs"
  using lhs_at_ids by (simp add: keys_of_def)

lemma lhs_at_inj:
  assumes "lhs_at s xs" "i \<in> set xs" "j \<in> set xs" "n_key (s_nodes s ! i) = n_key (s_nodes s ! j)"
  shows "i = j"
proof -
  have "(n_key (s_nodes s ! x), x) \<in> set (s_map s)" if "x \<in> set xs" for x
    using assms(1) that by (auto simp: lhs_at_def)
  then have "(n_key (s_nodes s ! i), i) \<in> set (s_map s)" "(n_key (s_nodes s ! i), j) \<in> set (s_map s)"
    using assms by metis+
  moreover have "distinct (map fst (s_map s))" using assms by (simp add: lhs_at_def)
  ultimately show ?thesis by (metis map_of_is_SomeI option.inject)
qed

lemma keys_distinct:
  assumes "lhs_at s xs"
  shows "distinct (map (\<lambda>i. n_key (s_nodes s ! i)) xs)"
  using assms lhs_at_inj[OF assms] by (auto simp: distinct_map inj_on_def lhs_at_def)

lemma map_of_key:
  assumes "lhs_at s xs"
  shows "map_of (s_map s) k = Some i \<longleftrightarrow> i \<in> set xs \<and> n_key (s_nodes s ! i) = k"
proof -
  have "map_of (s_map s) k = Some i \<longleftrightarrow> (k, i) \<in> set (s_map s)"
    using assms map_of_is_SomeI map_of_SomeD by (metis lhs_at_def)
  also have "\<dots> \<longleftrightarrow> i \<in> set xs \<and> n_key (s_nodes s ! i) = k"
    using assms by (auto simp: lhs_at_def)
  finally show ?thesis .
qed

lemma map_of_no_key:
  assumes "lhs_at s xs"
  shows "map_of (s_map s) k = None \<longleftrightarrow> k \<notin> set (keys_of s)"
proof (cases "map_of (s_map s) k")
  case None
  with map_of_key[OF assms, of k] show ?thesis by (auto simp: lhs_at_keys[OF assms])
next
  case (Some i)
  then have "i \<in> set xs" "n_key (s_nodes s ! i) = k" using map_of_key[OF assms] by auto
  with Some show ?thesis by (auto simp: lhs_at_keys[OF assms])
qed

lemma map_length:
  assumes "lhs_at s xs"
  shows "length (s_map s) = length xs"
proof -
  have "inj_on (\<lambda>i. (n_key (s_nodes s ! i), i)) (set xs)" by (auto simp: inj_on_def)
  then have "card (set (s_map s)) = card (set xs)"
    using assms by (simp add: lhs_at_def card_image)
  moreover have "distinct (s_map s)" "distinct xs" using assms by (auto simp: lhs_at_def distinct_map)
  ultimately show ?thesis by (simp add: distinct_card)
qed

lemma split_at_key:
  assumes "lhs_at s xs" "k \<in> set (keys_of s)"
  obtains as i bs where "xs = as @ i # bs" "n_key (s_nodes s ! i) = k" "map_of (s_map s) k = Some i"
proof -
  obtain i where i: "i \<in> set xs" "n_key (s_nodes s ! i) = k"
    using assms by (auto simp: lhs_at_keys)
  then obtain as bs where "xs = as @ i # bs" by (meson split_list)
  with i that map_of_key[OF assms(1)] show ?thesis by blast
qed

lemma remove1_middle:
  "distinct (map f (as @ i # bs)) \<Longrightarrow> remove1 (f i) (map f (as @ i # bs)) = map f (as @ bs)"
  by (auto simp: remove1_append)

lemma same_keys_map: "same_keys ns ms \<Longrightarrow> map (\<lambda>i. n_key (ns ! i)) xs = map (\<lambda>i. n_key (ms ! i)) xs"
  by (simp add: same_keys_def)

section \<open>The operations keep it\<close>

lemma lhs_new_ok: "lhs_ok lhs_new" "keys_of lhs_new = []"
proof -
  have "lhs_at lhs_new []" by (simp add: lhs_at_def lhs_new_def)
  then show "lhs_ok lhs_new" "keys_of lhs_new = []" using lhs_at_ok lhs_at_keys by auto
qed

lemma set_delete_key:
  assumes "lhs_at s (as @ i # bs)" "n_key (s_nodes s ! i) = k"
  shows "set (AList.delete k (s_map s)) = (\<lambda>j. (n_key (s_nodes s ! j), j)) ` set (as @ bs)"
proof -
  have "n_key (s_nodes s ! j) \<noteq> k" if "j \<in> set (as @ bs)" for j
  proof
    assume "n_key (s_nodes s ! j) = k"
    then have "i = j" using lhs_at_inj[OF assms(1), of i j] that assms(2) by simp
    with that assms(1) show False by (auto simp: lhs_at_def)
  qed
  moreover have "set (AList.delete k (s_map s)) = {p \<in> set (s_map s). fst p \<noteq> k}"
    by (auto simp: AList.delete_eq)
  moreover have "set (s_map s) = (\<lambda>j. (n_key (s_nodes s ! j), j)) ` set (as @ i # bs)"
    using assms(1) by (simp only: lhs_at_def)
  ultimately show ?thesis using assms(2) by auto
qed

text \<open>Taking node \<open>i\<close> out of the chain, out of the map and onto the free list.\<close>

lemma lhs_at_drop:
  assumes at: "lhs_at s (as @ i # bs)" and k: "n_key (s_nodes s ! i) = k"
    and ns: "same_keys ns (s_nodes s)" "links ns None (as @ bs) None"
    and s': "s' = s\<lparr>s_map := AList.delete k (s_map s), s_nodes := ns, s_head := first_of (as @ bs) None,
       s_tail := last_of None (as @ bs), s_free := s_free s @ [i]\<rparr>"
  shows "lhs_ok s'" "keys_of s' = remove1 k (keys_of s)"
proof -
  have m: "set (AList.delete k (s_map s)) = (\<lambda>j. (n_key (ns ! j), j)) ` set (as @ bs)"
    using set_delete_key[OF at k] ns(1) by (simp add: same_keys_def)
  have at': "lhs_at s' (as @ bs)"
    using at ns m unfolding s' lhs_at_def
    by (auto simp: same_keys_def distinct_delete)
  then show "lhs_ok s'" by (rule lhs_at_ok)
  have "keys_of s' = map (\<lambda>j. n_key (s_nodes s ! j)) (as @ bs)"
    using lhs_at_keys[OF at'] same_keys_map[OF ns(1)] s' by simp
  also have "\<dots> = remove1 k (keys_of s)"
    using remove1_middle[OF keys_distinct[OF at]] lhs_at_keys[OF at] k by simp
  finally show "keys_of s' = remove1 k (keys_of s)" .
qed

lemma remove_present:
  assumes "lhs_ok s" "k \<in> set (keys_of s)"
  shows "\<exists>s'. lhs_remove k s = Some (s', Inr ()) \<and> lhs_ok s' \<and> keys_of s' = remove1 k (keys_of s)"
proof -
  obtain as i bs where i: "lhs_at s (as @ i # bs)" "n_key (s_nodes s ! i) = k" "map_of (s_map s) k = Some i"
    using split_at_key assms lhs_ok_def by metis
  let ?s = "s\<lparr>s_map := AList.delete k (s_map s)\<rparr>"
  obtain ns where ns: "unlink i ?s = Some (?s\<lparr>s_nodes := ns, s_head := first_of (as @ bs) None,
       s_tail := last_of None (as @ bs)\<rparr>)" "same_keys ns (s_nodes s)" "links ns None (as @ bs) None"
    by (rule unlink_chain[of ?s as i bs]) (use i(1) in \<open>auto simp: lhs_at_def\<close>)
  show ?thesis
    using ns(1) i(3) lhs_at_drop[OF i(1,2) ns(2,3) refl] by (simp add: lhs_remove_def)
qed

lemma remove_absent: "lhs_ok s \<Longrightarrow> k \<notin> set (keys_of s) \<Longrightarrow> lhs_remove k s = Some (s, Inl KeyNotFound)"
  using map_of_no_key[of s "ids_of s" k] by (simp add: lhs_ok_def lhs_remove_def)

lemma pop_back_nonempty:
  assumes "lhs_ok s" "keys_of s \<noteq> []"
  shows "\<exists>s'. pop_back s = Some (s', Inr (last (keys_of s))) \<and> lhs_ok s' \<and> keys_of s' = butlast (keys_of s)"
proof -
  have "ids_of s \<noteq> []" using assms by (simp add: keys_of_def)
  then obtain as i where at: "lhs_at s (as @ i # [])"
    using assms by (metis append_butlast_last_id lhs_ok_def)
  let ?k = "n_key (s_nodes s ! i)"
  have keys: "keys_of s = map (\<lambda>j. n_key (s_nodes s ! j)) as @ [?k]" using lhs_at_keys[OF at] by simp
  have d: "distinct (keys_of s)" using keys_distinct[OF at] lhs_at_keys[OF at] by simp
  then have r: "remove1 ?k (keys_of s) = butlast (keys_of s)" by (auto simp: keys remove1_append)
  define ns where "ns = (case last_of None as of None \<Rightarrow> s_nodes s
     | Some p \<Rightarrow> (s_nodes s)[p := (s_nodes s ! p)\<lparr>n_next := None\<rparr>])"
  have as: "as = [] \<or> (\<exists>bs p. as = bs @ [p])" by (metis rev_exhaust)
  have n: "node_at s i = Some (s_nodes s ! i)" "n_prev (s_nodes s ! i) = last_of None as"
      "s_tail s = Some i" "s_head s = first_of as (Some i)"
    using at by (auto simp: lhs_at_def node_at_def)
  have sk: "same_keys ns (s_nodes s)"
    using as unfolding ns_def by (auto intro!: same_keys_upd same_keys_refl)
  have li: "links ns None (as @ []) None"
    using as at unfolding ns_def lhs_at_def by (auto simp: nth_list_update)
  let ?s = "s\<lparr>s_map := AList.delete ?k (s_map s), s_nodes := ns, s_head := first_of (as @ []) None,
       s_tail := last_of None (as @ []), s_free := s_free s @ [i]\<rparr>"
  have "pop_back s = Some (?s, Inr ?k)"
    using as at n unfolding ns_def
    by (auto simp: pop_back_def put_next_def node_at_def lhs_at_def)
  with lhs_at_drop[OF at refl sk li refl] r keys show ?thesis by auto
qed

lemma pop_back_empty: "lhs_ok s \<Longrightarrow> keys_of s = [] \<Longrightarrow> pop_back s = Some (s, Inl EmptyList)"
  by (simp add: keys_of_def lhs_ok_def lhs_at_def pop_back_def)

lemma move_present:
  assumes "lhs_ok s" "k \<in> set (keys_of s)"
  shows "\<exists>s'. move_to_front k s = Some (s', Inr ()) \<and> lhs_ok s' \<and> keys_of s' = k # remove1 k (keys_of s)"
proof -
  obtain as i bs where i: "lhs_at s (as @ i # bs)" "n_key (s_nodes s ! i) = k" "map_of (s_map s) k = Some i"
    using split_at_key assms lhs_ok_def by metis
  have d: "distinct (i # as @ bs)" "i < length (s_nodes s)" using i(1) by (auto simp: lhs_at_def)
  obtain ns where ns: "unlink i s = Some (s\<lparr>s_nodes := ns, s_head := first_of (as @ bs) None,
       s_tail := last_of None (as @ bs)\<rparr>)" "same_keys ns (s_nodes s)" "links ns None (as @ bs) None"
    by (rule unlink_chain[of s as i bs]) (use i(1) in \<open>auto simp: lhs_at_def\<close>)
  have len: "length ns = length (s_nodes s)" using ns(2) by (simp add: same_keys_def)
  let ?n = "(ns ! i)\<lparr>n_prev := None, n_next := first_of (as @ bs) None\<rparr>"
  let ?t = "s\<lparr>s_nodes := ns[i := ?n], s_head := first_of (as @ bs) None, s_tail := last_of None (as @ bs)\<rparr>"
  have kt: "same_keys (s_nodes ?t) ns" by (simp add: same_keys_upd)
  obtain ms where ms: "link_front i ?t = Some (?t\<lparr>s_nodes := ms, s_head := Some i,
       s_tail := last_of None (i # as @ bs)\<rparr>)" "same_keys ms (s_nodes ?t)" "links ms None (i # as @ bs) None"
    by (rule link_front_chain[of ?t "as @ bs" i]) (use ns d len in auto)
  let ?u = "s\<lparr>s_nodes := ms, s_head := Some i, s_tail := last_of None (i # as @ bs)\<rparr>"
  have run: "move_to_front k s = Some (?u, Inr ())"
    using ns(1) ms(1) d len i(3) by (cases s) (simp add: move_to_front_def put_prev_def put_next_def)
  have sk: "same_keys ms (s_nodes s)" using same_keys_trans ms(2) kt ns(2) by blast
  have at': "lhs_at ?u (i # as @ bs)"
    using i(1) ms(3) sk unfolding lhs_at_def by (auto simp: same_keys_def)
  have "keys_of ?u = k # map (\<lambda>j. n_key (s_nodes s ! j)) (as @ bs)"
    using lhs_at_keys[OF at'] same_keys_map[OF sk, of "as @ bs"] sk i(2) by (simp add: same_keys_def)
  also have "\<dots> = k # remove1 k (keys_of s)"
    using remove1_middle[OF keys_distinct[OF i(1)]] lhs_at_keys[OF i(1)] i(2) by simp
  finally show ?thesis using run lhs_at_ok[OF at'] by blast
qed

lemma move_absent: "lhs_ok s \<Longrightarrow> k \<notin> set (keys_of s) \<Longrightarrow> move_to_front k s = Some (s, Inl KeyNotFound)"
  using map_of_no_key[of s "ids_of s" k] by (simp add: lhs_ok_def move_to_front_def)

lemma contains_iff: "lhs_ok s \<Longrightarrow> lhs_contains s k \<longleftrightarrow> k \<in> set (keys_of s)"
  using map_of_no_key[of s "ids_of s" k] by (simp add: lhs_ok_def lhs_contains_def)

lemma len_eq: "lhs_ok s \<Longrightarrow> lhs_len s = length (keys_of s)"
  using map_length[of s "ids_of s"] by (simp add: lhs_ok_def lhs_len_def keys_of_def)

lemma update_absent: "k \<notin> fst ` set m \<Longrightarrow> AList.update k v m = m @ [(k, v)]"
  by (induction m) auto

text \<open>Linking the fresh node \<open>i\<close> of a state \<open>t\<close> in front of the chain \<open>xs\<close>.\<close>

lemma insert_fresh:
  assumes t: "links (s_nodes t) None xs None" "s_head t = first_of xs None" "s_tail t = last_of None xs"
    and i: "distinct (i # xs @ s_free t)" "set (i # xs @ s_free t) = {..<length (s_nodes t)}"
      "s_nodes t ! i = node_new k (s_head t) None"
    and m: "distinct (map fst (s_map t))" "set (s_map t) = (\<lambda>j. (n_key (s_nodes t ! j), j)) ` set xs"
      "k \<notin> fst ` set (s_map t)"
  shows "\<exists>u. link_front i t = Some u \<and> lhs_ok (u\<lparr>s_map := AList.update k i (s_map u)\<rparr>) \<and>
    keys_of (u\<lparr>s_map := AList.update k i (s_map u)\<rparr>) = k # map (\<lambda>j. n_key (s_nodes t ! j)) xs"
proof -
  have "i < length (s_nodes t)" using i(2) by auto
  then obtain ms where ms: "link_front i t = Some (t\<lparr>s_nodes := ms, s_head := Some i,
       s_tail := last_of None (i # xs)\<rparr>)" "same_keys ms (s_nodes t)" "links ms None (i # xs) None"
    by (rule link_front_chain[of t xs i, rotated 4]) (use t i in \<open>auto simp: node_new_def\<close>)
  let ?u = "t\<lparr>s_nodes := ms, s_head := Some i, s_tail := last_of None (i # xs)\<rparr>"
  let ?v = "?u\<lparr>s_map := AList.update k i (s_map ?u)\<rparr>"
  have len: "length ms = length (s_nodes t)" and key: "n_key (ms ! j) = n_key (s_nodes t ! j)" for j
    using ms(2) by (auto simp: same_keys_def)
  have ki: "n_key (ms ! i) = k" using key i(3) by (simp add: node_new_def)
  have "set (s_map ?v) = (\<lambda>j. (n_key (s_nodes ?v ! j), j)) ` set (i # xs)"
    using m ki by (simp add: update_absent key)
  moreover have "distinct (map fst (s_map ?v))" using m by (simp add: update_absent)
  moreover have "links (s_nodes ?v) None (i # xs) None" "s_head ?v = first_of (i # xs) None"
      "s_tail ?v = last_of None (i # xs)" using ms(3) by simp_all
  moreover have "distinct ((i # xs) @ s_free ?v)" using i(1) by simp
  moreover have "set ((i # xs) @ s_free ?v) = {..<length (s_nodes ?v)}" using i(2) len by simp
  ultimately have at: "lhs_at ?v (i # xs)" unfolding lhs_at_def by blast
  have "keys_of ?v = k # map (\<lambda>j. n_key (s_nodes t ! j)) xs"
    using lhs_at_keys[OF at] ki by (simp add: key)
  then show ?thesis using ms(1) lhs_at_ok[OF at] by blast
qed

lemma insert_absent:
  assumes "lhs_ok s" "k \<notin> set (keys_of s)"
  shows "\<exists>s'. lhs_insert k s = Some (s', Inr ()) \<and> lhs_ok s' \<and> keys_of s' = k # keys_of s"
proof -
  let ?xs = "ids_of s" and ?n = "node_new k (s_head s) None"
  have at: "lhs_at s ?xs" using assms by (simp add: lhs_ok_def)
  have nc: "\<not> lhs_contains s k" using contains_iff assms by blast
  then have nk: "k \<notin> fst ` set (s_map s)" by (auto simp: lhs_contains_def map_of_eq_None_iff)
  have bound: "j < length (s_nodes s)" if "j \<in> set ?xs" for j
    using that at links_in unfolding lhs_at_def by blast
  have fits: "\<exists>s'. do { u \<leftarrow> link_front i t; Some (u\<lparr>s_map := AList.update k i (s_map u)\<rparr>, Inr ()) }
        = Some (s', Inr ()) \<and> lhs_ok s' \<and> keys_of s' = k # keys_of s"
    if i: "distinct (i # ?xs @ fs)" "set (i # ?xs @ fs) = {..<length ns}" "ns ! i = ?n"
      and ns: "links ns None ?xs None" "\<And>j. j \<in> set ?xs \<Longrightarrow> ns ! j = s_nodes s ! j"
      and t: "t = s\<lparr>s_free := fs, s_nodes := ns\<rparr>" for i fs ns t
  proof -
    have m: "set (s_map s) = (\<lambda>j. (n_key (ns ! j), j)) ` set ?xs"
      using at ns(2) by (simp add: lhs_at_def cong: image_cong_simp)
    have "\<exists>u. link_front i t = Some u \<and> lhs_ok (u\<lparr>s_map := AList.update k i (s_map u)\<rparr>) \<and>
      keys_of (u\<lparr>s_map := AList.update k i (s_map u)\<rparr>) = k # map (\<lambda>j. n_key (s_nodes t ! j)) ?xs"
      by (rule insert_fresh) (use at i ns(1) m nk t in \<open>simp_all add: lhs_at_def\<close>)
    moreover have "map (\<lambda>j. n_key (s_nodes t ! j)) ?xs = keys_of s"
      using ns(2) t by (simp add: keys_of_def)
    ultimately show ?thesis by auto
  qed
  show ?thesis
  proof (cases "s_free s" rule: rev_cases)
    case Nil
    have "lhs_insert k s = do { u \<leftarrow> link_front (length (s_nodes s)) (s\<lparr>s_free := [], s_nodes := s_nodes s @ [?n]\<rparr>);
        Some (u\<lparr>s_map := AList.update k (length (s_nodes s)) (s_map u)\<rparr>, Inr ()) }"
      using nc Nil by (cases s) (simp add: lhs_insert_def)
    also have "\<exists>s'. \<dots> = Some (s', Inr ()) \<and> lhs_ok s' \<and> keys_of s' = k # keys_of s"
      by (rule fits[OF _ _ _ _ _ refl])
        (use at bound Nil in \<open>auto simp: lhs_at_def links_more nth_append\<close>)
    finally show ?thesis .
  next
    case (snoc fs i)
    have i: "i < length (s_nodes s)" "i \<notin> set ?xs" using at snoc by (auto simp: lhs_at_def)
    have "lhs_insert k s = do { u \<leftarrow> link_front i (s\<lparr>s_free := fs, s_nodes := (s_nodes s)[i := ?n]\<rparr>);
        Some (u\<lparr>s_map := AList.update k i (s_map u)\<rparr>, Inr ()) }"
      using nc snoc i by (simp add: lhs_insert_def)
    also have "\<exists>s'. \<dots> = Some (s', Inr ()) \<and> lhs_ok s' \<and> keys_of s' = k # keys_of s"
    proof (rule fits[OF _ _ _ _ _ refl])
      show "(s_nodes s)[i := ?n] ! j = s_nodes s ! j" if "j \<in> set ?xs" for j
        using that i by (metis nth_list_update_neq)
    qed (use at snoc i in \<open>auto simp: lhs_at_def\<close>)
    finally show ?thesis .
  qed
qed

lemma insert_any:
  assumes "lhs_ok s"
  shows "\<exists>s'. lhs_insert k s = Some (s', Inr ()) \<and> lhs_ok s' \<and> keys_of s' = k # remove1 k (keys_of s)"
proof (cases "k \<in> set (keys_of s)")
  case True
  then have "lhs_insert k s = move_to_front k s" using assms by (simp add: lhs_insert_def contains_iff)
  with move_present[OF assms True] show ?thesis by simp
next
  case False
  with insert_absent[OF assms] show ?thesis by (simp add: remove1_idem)
qed

section \<open>The walk for an unpinned page\<close>

lemma walk_unpinned_eq:
  assumes "lhs_at s (as @ bs)"
  shows "walk_unpinned is_pinned s (last_of None as) =
    (case find (\<lambda>k. \<not> is_pinned k) (rev (map (\<lambda>i. n_key (s_nodes s ! i)) as)) of
       None \<Rightarrow> Some (s, None)
     | Some k \<Rightarrow> (case lhs_remove k s of Some (s', Inr _) \<Rightarrow> Some (s', Some k) | _ \<Rightarrow> None))"
  using assms
proof (induction as arbitrary: bs rule: rev_induct)
  case Nil
  then show ?case by (simp add: walk_unpinned.simps)
next
  case (snoc i as)
  have "node_at s i = Some (s_nodes s ! i)" "n_prev (s_nodes s ! i) = last_of None as"
    using snoc.prems by (auto simp: lhs_at_def node_at_def)
  moreover have "lhs_at s (as @ (i # bs))" using snoc.prems by simp
  ultimately show ?case using snoc.IH by (simp add: walk_unpinned.simps[of _ _ "Some i"])
qed

lemma check_unpinned_eq:
  assumes "lhs_ok s"
  shows "\<exists>s'. check_unpinned is_pinned s = Some (s', find (\<lambda>k. \<not> is_pinned k) (rev (keys_of s))) \<and>
    lhs_ok s' \<and>
    keys_of s' = (case find (\<lambda>k. \<not> is_pinned k) (rev (keys_of s)) of
      None \<Rightarrow> keys_of s | Some k \<Rightarrow> remove1 k (keys_of s))"
proof -
  have at: "lhs_at s (ids_of s @ [])" using assms by (simp add: lhs_ok_def)
  then have tail: "s_tail s = last_of None (ids_of s)" by (simp add: lhs_at_def)
  note w = walk_unpinned_eq[OF at, of is_pinned, folded tail keys_of_def]
  show ?thesis
  proof (cases "find (\<lambda>k. \<not> is_pinned k) (rev (keys_of s))")
    case None
    with w assms show ?thesis by (simp add: check_unpinned_def)
  next
    case (Some k)
    then have "k \<in> set (keys_of s)" by (metis find_Some_iff length_rev nth_mem set_rev)
    then obtain s' where "lhs_remove k s = Some (s', Inr ())" "lhs_ok s'" "keys_of s' = remove1 k (keys_of s)"
      using remove_present[OF assms] by blast
    with w Some show ?thesis by (simp add: check_unpinned_def)
  qed
qed

section \<open>The contract of a recency list\<close>

text \<open>
  What a user of the set relies on: a list of distinct keys, most recently used first, and what each
  call makes of it.
\<close>

locale recency_list =
  fixes ok :: "'s \<Rightarrow> bool" and keys :: "'s \<Rightarrow> nat list"
    and has :: "'s \<Rightarrow> nat \<Rightarrow> bool" and count :: "'s \<Rightarrow> nat"
    and ins :: "nat \<Rightarrow> 's \<Rightarrow> ('s \<times> unit result) option"
    and del :: "nat \<Rightarrow> 's \<Rightarrow> ('s \<times> unit result) option"
    and front :: "nat \<Rightarrow> 's \<Rightarrow> ('s \<times> unit result) option"
    and pop :: "'s \<Rightarrow> ('s \<times> nat result) option"
    and oldest :: "(nat \<Rightarrow> bool) \<Rightarrow> 's \<Rightarrow> ('s \<times> nat option) option"
  assumes distinct_keys: "ok s \<Longrightarrow> distinct (keys s)"
    and has_iff: "ok s \<Longrightarrow> has s k \<longleftrightarrow> k \<in> set (keys s)"
    and count_eq: "ok s \<Longrightarrow> count s = length (keys s)"
    and ins_law: "ok s \<Longrightarrow> \<exists>s'. ins k s = Some (s', Inr ()) \<and> ok s' \<and> keys s' = k # remove1 k (keys s)"
    and del_law: "ok s \<Longrightarrow> k \<in> set (keys s) \<Longrightarrow>
      \<exists>s'. del k s = Some (s', Inr ()) \<and> ok s' \<and> keys s' = remove1 k (keys s)"
    and del_absent: "ok s \<Longrightarrow> k \<notin> set (keys s) \<Longrightarrow> del k s = Some (s, Inl KeyNotFound)"
    and front_law: "ok s \<Longrightarrow> k \<in> set (keys s) \<Longrightarrow>
      \<exists>s'. front k s = Some (s', Inr ()) \<and> ok s' \<and> keys s' = k # remove1 k (keys s)"
    and front_absent: "ok s \<Longrightarrow> k \<notin> set (keys s) \<Longrightarrow> front k s = Some (s, Inl KeyNotFound)"
    and pop_law: "ok s \<Longrightarrow> keys s \<noteq> [] \<Longrightarrow>
      \<exists>s'. pop s = Some (s', Inr (last (keys s))) \<and> ok s' \<and> keys s' = butlast (keys s)"
    and pop_empty: "ok s \<Longrightarrow> keys s = [] \<Longrightarrow> pop s = Some (s, Inl EmptyList)"
    and oldest_law: "ok s \<Longrightarrow>
      \<exists>s'. oldest p s = Some (s', find (\<lambda>k. \<not> p k) (rev (keys s))) \<and> ok s' \<and>
        keys s' = (case find (\<lambda>k. \<not> p k) (rev (keys s)) of
          None \<Rightarrow> keys s | Some k \<Rightarrow> remove1 k (keys s))"
begin

lemma oldest_none:
  assumes "ok s" "\<And>k. k \<in> set (keys s) \<Longrightarrow> p k"
  obtains s' where "oldest p s = Some (s', None)" "ok s'" "keys s' = keys s"
proof -
  have "find (\<lambda>k. \<not> p k) (rev (keys s)) = None" using assms(2) by (auto simp: find_None_iff)
  with oldest_law[OF assms(1), of p] that show ?thesis by auto
qed

text \<open>The victim is the least recently used key that is not pinned.\<close>

lemma oldest_some:
  assumes "ok s" "k \<in> set (keys s)" "\<not> p k"
  obtains s' as v bs where "oldest p s = Some (s', Some v)" "ok s'" "keys s = as @ v # bs"
    "keys s' = as @ bs" "\<not> p v" "\<And>b. b \<in> set bs \<Longrightarrow> p b"
proof -
  have "find (\<lambda>k. \<not> p k) (rev (keys s)) \<noteq> None"
    using assms by (auto simp: find_None_iff)
  then obtain v where v: "find (\<lambda>k. \<not> p k) (rev (keys s)) = Some v" by blast
  then obtain i where i: "i < length (rev (keys s))" "\<not> p v" "v = rev (keys s) ! i"
      "\<And>j. j < i \<Longrightarrow> p (rev (keys s) ! j)"
    by (auto simp: find_Some_iff)
  let ?bs = "rev (take i (rev (keys s)))" and ?as = "rev (drop (Suc i) (rev (keys s)))"
  have "rev (keys s) = take i (rev (keys s)) @ v # drop (Suc i) (rev (keys s))"
    using i(1,3) by (simp add: id_take_nth_drop[symmetric])
  then have "rev (rev (keys s)) = rev (take i (rev (keys s)) @ v # drop (Suc i) (rev (keys s)))" by (rule arg_cong)
  then have k: "keys s = ?as @ v # ?bs" by simp
  have "v \<notin> set ?as" using distinct_keys[OF assms(1)] k by (metis distinct_append disjoint_iff list.set_intros(1))
  then have r: "remove1 v (keys s) = ?as @ ?bs" by (subst k) (simp add: remove1_append)
  have "p b" if "b \<in> set ?bs" for b
    using that i(1,4) by (auto simp: in_set_conv_nth)
  moreover obtain s' where "oldest p s = Some (s', Some v)" "ok s'" "keys s' = ?as @ ?bs"
    using oldest_law[OF assms(1), of p] v r by auto
  ultimately show ?thesis using that k i(2) by blast
qed

end

interpretation lhs: recency_list lhs_ok keys_of lhs_contains lhs_len lhs_insert lhs_remove
    move_to_front pop_back check_unpinned
proof unfold_locales
  show "distinct (keys_of s)" if "lhs_ok s" for s
    using that keys_distinct lhs_at_keys by (simp add: lhs_ok_def)
qed (fact contains_iff len_eq insert_any remove_present remove_absent move_present move_absent
  pop_back_nonempty pop_back_empty check_unpinned_eq)+

section \<open>Sequences of calls\<close>

text \<open>
  A call on the set, its answer, and the same call on a plain list of keys.
\<close>

datatype lhs_call = CInsert nat | CRemove nat | CFront nat | CPop | COldest "nat list"

datatype lhs_answer = Plain "unit result" | Popped "nat result" | Victim "nat option"

fun call_set :: "lhs_call \<Rightarrow> linked_hash_set \<Rightarrow> (linked_hash_set \<times> lhs_answer) option" where
  "call_set (CInsert k) s = map_option (apsnd Plain) (lhs_insert k s)"
| "call_set (CRemove k) s = map_option (apsnd Plain) (lhs_remove k s)"
| "call_set (CFront k) s = map_option (apsnd Plain) (move_to_front k s)"
| "call_set CPop s = map_option (apsnd Popped) (pop_back s)"
| "call_set (COldest pinned) s = map_option (apsnd Victim) (check_unpinned (\<lambda>k. k \<in> set pinned) s)"

fun call_list :: "lhs_call \<Rightarrow> nat list \<Rightarrow> nat list \<times> lhs_answer" where
  "call_list (CInsert k) xs = (k # remove1 k xs, Plain (Inr ()))"
| "call_list (CRemove k) xs =
     (if k \<in> set xs then (remove1 k xs, Plain (Inr ())) else (xs, Plain (Inl KeyNotFound)))"
| "call_list (CFront k) xs =
     (if k \<in> set xs then (k # remove1 k xs, Plain (Inr ())) else (xs, Plain (Inl KeyNotFound)))"
| "call_list CPop xs =
     (if xs = [] then (xs, Popped (Inl EmptyList)) else (butlast xs, Popped (Inr (last xs))))"
| "call_list (COldest pinned) xs =
     (case find (\<lambda>k. k \<notin> set pinned) (rev xs) of
        None \<Rightarrow> (xs, Victim None) | Some v \<Rightarrow> (remove1 v xs, Victim (Some v)))"

fun calls_set :: "lhs_call list \<Rightarrow> linked_hash_set \<Rightarrow> (linked_hash_set \<times> lhs_answer list) option" where
  "calls_set [] s = Some (s, [])"
| "calls_set (c # cs) s = do { (s, a) \<leftarrow> call_set c s; (s, as) \<leftarrow> calls_set cs s; Some (s, a # as) }"

fun calls_list :: "lhs_call list \<Rightarrow> nat list \<Rightarrow> nat list \<times> lhs_answer list" where
  "calls_list [] xs = (xs, [])"
| "calls_list (c # cs) xs =
     (let (xs, a) = call_list c xs; (xs, as) = calls_list cs xs in (xs, a # as))"

lemma call_set_refines:
  assumes "lhs_ok s"
  shows "\<exists>s'. call_set c s = Some (s', snd (call_list c (keys_of s))) \<and> lhs_ok s' \<and>
    keys_of s' = fst (call_list c (keys_of s))"
proof (cases c)
  case (CInsert k)
  then show ?thesis using lhs.ins_law[OF assms, of k] by auto
next
  case (CRemove k)
  then show ?thesis
    using assms lhs.del_law[OF assms, of k] lhs.del_absent[OF assms, of k]
    by (cases "k \<in> set (keys_of s)") auto
next
  case (CFront k)
  then show ?thesis
    using assms lhs.front_law[OF assms, of k] lhs.front_absent[OF assms, of k]
    by (cases "k \<in> set (keys_of s)") auto
next
  case CPop
  then show ?thesis
    using assms lhs.pop_law[OF assms] lhs.pop_empty[OF assms] by (cases "keys_of s = []") auto
next
  case (COldest pinned)
  then show ?thesis
    using lhs.oldest_law[OF assms, of "\<lambda>k. k \<in> set pinned"]
    by (cases "find (\<lambda>k. k \<notin> set pinned) (rev (keys_of s))") auto
qed

lemma calls_set_refines:
  "lhs_ok s \<Longrightarrow> \<exists>s'. calls_set cs s = Some (s', snd (calls_list cs (keys_of s))) \<and> lhs_ok s' \<and>
     keys_of s' = fst (calls_list cs (keys_of s))"
proof (induction cs arbitrary: s)
  case (Cons c cs)
  obtain t where t: "call_set c s = Some (t, snd (call_list c (keys_of s)))" "lhs_ok t"
      "keys_of t = fst (call_list c (keys_of s))"
    using call_set_refines[OF Cons.prems] by blast
  with Cons.IH[OF t(2)] show ?case by (auto simp: Let_def split: prod.split)
qed simp

text \<open>
  (C10) The arena-linked set is a recency list. Every sequence of calls on a new \<open>LinkedHashSet\<close> returns
  (no index is out of range and no walk goes round for ever), every call answers what the same call
  answers on the plain list of keys, errors included, and the set left behind holds that list: \<open>len\<close> is its
  length, \<open>contains\<close> its membership.
\<close>

theorem recency_list_refinement:
  "\<exists>s. calls_set cs lhs_new = Some (s, snd (calls_list cs [])) \<and>
       keys_of s = fst (calls_list cs []) \<and>
       lhs_len s = length (keys_of s) \<and>
       {k. lhs_contains s k} = set (keys_of s)"
  using calls_set_refines[OF lhs_new_ok(1), of cs] lhs_new_ok(2) lhs.count_eq lhs.has_iff by auto

text \<open>
  (C22) The search for a page to evict ends, and finds the right page. On every set the operations can
  have built, \<open>check_unpinned\<close> returns; it answers \<open>None\<close>, leaving the set as it was, exactly when every page of the
  set is pinned, and otherwise it takes out the one unpinned page behind which, towards the least recently
  used end, every page is pinned.
\<close>

theorem check_unpinned_terminates:
  assumes "lhs_ok s"
  shows "\<exists>s' r. check_unpinned is_pinned s = Some (s', r) \<and> lhs_ok s' \<and>
    (r = None \<longleftrightarrow> filter (\<lambda>k. \<not> is_pinned k) (keys_of s) = []) \<and>
    (r = None \<longrightarrow> keys_of s' = keys_of s) \<and>
    (\<forall>v. r = Some v \<longrightarrow> (\<exists>as bs. keys_of s = as @ v # bs \<and> keys_of s' = as @ bs \<and>
       \<not> is_pinned v \<and> filter (\<lambda>k. \<not> is_pinned k) bs = []))"
proof (cases "\<exists>k \<in> set (keys_of s). \<not> is_pinned k")
  case False
  then obtain s' where "check_unpinned is_pinned s = Some (s', None)" "lhs_ok s'" "keys_of s' = keys_of s"
    using lhs.oldest_none[OF assms, of is_pinned] by blast
  with False show ?thesis by (auto simp: filter_empty_conv)
next
  case True
  then obtain k where "k \<in> set (keys_of s)" "\<not> is_pinned k" by blast
  then obtain s' as v bs where "check_unpinned is_pinned s = Some (s', Some v)" "lhs_ok s'"
      "keys_of s = as @ v # bs" "keys_of s' = as @ bs" "\<not> is_pinned v" "\<And>b. b \<in> set bs \<Longrightarrow> is_pinned b"
    by (rule lhs.oldest_some[OF assms]) blast
  then show ?thesis by (intro exI[of _ s'] exI[of _ "Some v"]) (auto simp: filter_empty_conv)
qed

definition three_pages :: linked_hash_set where
  "three_pages = \<lparr>s_map = [(7, 0), (9, 2), (5, 1)],
     s_nodes = [\<lparr>n_key = 7, n_next = None, n_prev = Some 2\<rparr>, \<lparr>n_key = 5, n_next = Some 2, n_prev = None\<rparr>,
       \<lparr>n_key = 9, n_next = Some 0, n_prev = Some 1\<rparr>, \<lparr>n_key = 4, n_next = None, n_prev = None\<rparr>],
     s_tail = Some 0, s_head = Some 1, s_free = [3]\<rparr>"

lemma three_pages_ok: "lhs_ok three_pages" "keys_of three_pages = [5, 9, 7]"
  by (auto simp: three_pages_def lhs_ok_def lhs_at_def ids_of_def keys_of_def first_of_def last_of_def
      eval_nat_numeral lessThan_Suc)

theorem check_unpinned_terminates_witness:
  "\<exists>s' as bs. check_unpinned (\<lambda>k. k = 7) three_pages = Some (s', Some 9) \<and>
     keys_of three_pages = as @ 9 # bs \<and> keys_of s' = as @ bs \<and> bs = [7]"
proof -
  obtain s' r where r: "check_unpinned (\<lambda>k. k = 7) three_pages = Some (s', r)"
      "r = None \<longleftrightarrow> filter (\<lambda>k. k \<noteq> 7) (keys_of three_pages) = []"
      "\<And>v. r = Some v \<Longrightarrow> \<exists>as bs. keys_of three_pages = as @ v # bs \<and> keys_of s' = as @ bs \<and>
         v \<noteq> 7 \<and> filter (\<lambda>k. k \<noteq> 7) bs = []"
    using check_unpinned_terminates[OF three_pages_ok(1), of "\<lambda>k. k = 7"] by blast
  then obtain v where v: "r = Some v" by (auto simp: three_pages_ok(2))
  then obtain as bs where ab: "[5, 9, 7] = as @ v # bs" "keys_of s' = as @ bs" "v \<noteq> 7"
      "filter (\<lambda>k. k \<noteq> 7) bs = []"
    using r(3) three_pages_ok(2) by metis
  then have "as = [5] \<and> v = 9 \<and> bs = [7]"
    by (auto simp: Cons_eq_append_conv split: if_splits)
  with r(1) v ab show ?thesis by (auto simp: three_pages_ok(2))
qed

end
