(* ===== verification/Arc_Cache.thy ===== *)
theory Arc_Cache
  imports Linked_Hash_Set
begin

text \<open>
  \<open>buffer/arc.rs\<close>: the adaptive replacement cache that decides which page a full buffer pool gives up. Two
  recency lists hold resident pages (\<open>t1\<close> seen once, \<open>t2\<close> seen again), two more the ghosts of evicted ones
  (\<open>b1\<close>, \<open>b2\<close>), and \<open>p\<close> is the share of the pool \<open>t1\<close> is meant to have. The lists are the linked sets of
  \<open>buffer/linked_hash_set.rs\<close>. \<open>give_back\<close> is what the buffer pool's \<open>fault_in\<close> does when it declines a
  victim. A method that would panic is \<open>None\<close>.
\<close>

section \<open>The cache\<close>

record arc_cache =
  a_capacity :: nat
  a_p :: nat
  a_t1 :: linked_hash_set
  a_t2 :: linked_hash_set
  a_b1 :: linked_hash_set
  a_b2 :: linked_hash_set

datatype arc_result = Hit | MissEvict nat | MissNoEvict | PoolFull

definition arc_new :: "nat \<Rightarrow> arc_cache" where
  "arc_new n = \<lparr>a_capacity = n, a_p = 0, a_t1 = lhs_new, a_t2 = lhs_new, a_b1 = lhs_new, a_b2 = lhs_new\<rparr>"

text \<open>\<open>Result::unwrap\<close>, and \<open>Result::ok\<close> with its answer dropped.\<close>

definition unwrap :: "('s \<times> 'a result) option \<Rightarrow> ('s \<times> 'a) option" where
  "unwrap m = (case m of Some (s, Inr x) \<Rightarrow> Some (s, x) | _ \<Rightarrow> None)"

definition ok_drop :: "('s \<times> 'a result) option \<Rightarrow> 's option" where
  "ok_drop m = map_option fst m"

definition reinstate :: "nat \<Rightarrow> arc_cache \<Rightarrow> arc_cache option" where
  "reinstate page c =
     (if lhs_contains (a_b2 c) page then do {
        b2 \<leftarrow> ok_drop (lhs_remove page (a_b2 c));
        t2 \<leftarrow> ok_drop (lhs_insert page (a_t2 c));
        Some (c\<lparr>a_b2 := b2, a_t2 := t2\<rparr>)
      } else do {
        b1 \<leftarrow> ok_drop (lhs_remove page (a_b1 c));
        t1 \<leftarrow> ok_drop (lhs_insert page (a_t1 c));
        Some (c\<lparr>a_b1 := b1, a_t1 := t1\<rparr>)
      })"

definition touch :: "nat \<Rightarrow> arc_cache \<Rightarrow> (arc_cache \<times> bool) option" where
  "touch page c =
     (if lhs_contains (a_t1 c) page then do {
        t1 \<leftarrow> ok_drop (lhs_remove page (a_t1 c));
        t2 \<leftarrow> ok_drop (lhs_insert page (a_t2 c));
        Some (c\<lparr>a_t1 := t1, a_t2 := t2\<rparr>, True)
      } else if lhs_contains (a_t2 c) page then do {
        t2 \<leftarrow> ok_drop (move_to_front page (a_t2 c));
        Some (c\<lparr>a_t2 := t2\<rparr>, True)
      } else Some (c, False))"

text \<open>The two ways \<open>replace\<close> looks for a victim: the oldest unpinned page of one list goes to its ghosts.\<close>

definition evict_t1 :: "(nat \<Rightarrow> bool) \<Rightarrow> arc_cache \<Rightarrow> (arc_cache \<times> nat option) option" where
  "evict_t1 is_pinned c = do {
     (t1, v) \<leftarrow> check_unpinned is_pinned (a_t1 c);
     (case v of
        None \<Rightarrow> Some (c\<lparr>a_t1 := t1\<rparr>, None)
      | Some victim \<Rightarrow> do {
          (b1, _) \<leftarrow> unwrap (lhs_insert victim (a_b1 c));
          Some (c\<lparr>a_t1 := t1, a_b1 := b1\<rparr>, Some victim)
        })
   }"

definition evict_t2 :: "(nat \<Rightarrow> bool) \<Rightarrow> arc_cache \<Rightarrow> (arc_cache \<times> nat option) option" where
  "evict_t2 is_pinned c = do {
     (t2, v) \<leftarrow> check_unpinned is_pinned (a_t2 c);
     (case v of
        None \<Rightarrow> Some (c\<lparr>a_t2 := t2\<rparr>, None)
      | Some victim \<Rightarrow> do {
          (b2, _) \<leftarrow> unwrap (lhs_insert victim (a_b2 c));
          Some (c\<lparr>a_t2 := t2, a_b2 := b2\<rparr>, Some victim)
        })
   }"

definition or_else ::
    "(arc_cache \<times> nat option) option \<Rightarrow> (arc_cache \<Rightarrow> (arc_cache \<times> nat option) option) \<Rightarrow>
     (arc_cache \<times> nat option) option" where
  "or_else m f = do { (c, v) \<leftarrow> m; (case v of Some _ \<Rightarrow> Some (c, v) | None \<Rightarrow> f c) }"

definition replace :: "nat \<Rightarrow> (nat \<Rightarrow> bool) \<Rightarrow> arc_cache \<Rightarrow> (arc_cache \<times> nat option) option" where
  "replace incoming is_pinned c =
     (if lhs_len (a_t1 c) + lhs_len (a_t2 c) = 0 then Some (c, None)
      else if 0 < lhs_len (a_t1 c) \<and>
              (a_p c < lhs_len (a_t1 c) \<or>
               (lhs_contains (a_b2 c) incoming \<and> lhs_len (a_t1 c) = a_p c))
      then or_else (evict_t1 is_pinned c) (evict_t2 is_pinned)
      else or_else (evict_t2 is_pinned c) (evict_t1 is_pinned))"

definition evicted_result :: "nat option \<Rightarrow> arc_result" where
  "evicted_result v = (case v of Some victim \<Rightarrow> MissEvict victim | None \<Rightarrow> MissNoEvict)"

definition request_ghost1 :: "nat \<Rightarrow> (nat \<Rightarrow> bool) \<Rightarrow> arc_cache \<Rightarrow> (arc_cache \<times> arc_result) option" where
  "request_ghost1 page is_pinned c =
     (let delta = max 1 (lhs_len (a_b2 c) div max (lhs_len (a_b1 c)) 1) in do {
        (c, v) \<leftarrow> replace page is_pinned (c\<lparr>a_p := min (a_p c + delta) (a_capacity c)\<rparr>);
        if lhs_len (a_t1 c) + lhs_len (a_t2 c) = a_capacity c \<and> v = None then Some (c, PoolFull)
        else do {
          (b1, _) \<leftarrow> unwrap (lhs_remove page (a_b1 c));
          (t2, _) \<leftarrow> unwrap (lhs_insert page (a_t2 c));
          Some (c\<lparr>a_b1 := b1, a_t2 := t2\<rparr>, evicted_result v)
        }
      })"

definition request_ghost2 :: "nat \<Rightarrow> (nat \<Rightarrow> bool) \<Rightarrow> arc_cache \<Rightarrow> (arc_cache \<times> arc_result) option" where
  "request_ghost2 page is_pinned c =
     (let delta = max 1 (lhs_len (a_b1 c) div max 1 (lhs_len (a_b2 c))) in do {
        (c, v) \<leftarrow> replace page is_pinned (c\<lparr>a_p := a_p c - delta\<rparr>);
        if lhs_len (a_t1 c) + lhs_len (a_t2 c) = a_capacity c \<and> v = None then Some (c, PoolFull)
        else do {
          (b2, _) \<leftarrow> unwrap (lhs_remove page (a_b2 c));
          (t2, _) \<leftarrow> unwrap (lhs_insert page (a_t2 c));
          Some (c\<lparr>a_b2 := b2, a_t2 := t2\<rparr>, evicted_result v)
        }
      })"

text \<open>The victim, if any, of a request that no list knows the page of.\<close>

definition make_room :: "nat \<Rightarrow> (nat \<Rightarrow> bool) \<Rightarrow> arc_cache \<Rightarrow> (arc_cache \<times> nat option) option" where
  "make_room page is_pinned c =
     (if lhs_len (a_b1 c) + lhs_len (a_t1 c) = a_capacity c then
        if lhs_len (a_t1 c) < a_capacity c then do {
          b1 \<leftarrow> ok_drop (pop_back (a_b1 c));
          replace page is_pinned (c\<lparr>a_b1 := b1\<rparr>)
        } else do {
          (t1, v) \<leftarrow> check_unpinned is_pinned (a_t1 c);
          Some (c\<lparr>a_t1 := t1\<rparr>, v)
        }
      else if a_capacity c \<le> lhs_len (a_t1 c) + lhs_len (a_t2 c) + lhs_len (a_b1 c) + lhs_len (a_b2 c) then do {
        c \<leftarrow> (if lhs_len (a_t1 c) + lhs_len (a_t2 c) + lhs_len (a_b1 c) + lhs_len (a_b2 c) = 2 * a_capacity c
              then do { b2 \<leftarrow> ok_drop (pop_back (a_b2 c)); Some (c\<lparr>a_b2 := b2\<rparr>) }
              else Some c);
        replace page is_pinned c
      } else Some (c, None))"

text \<open>The end of a request no list knew the page of: refuse, or put the page at the front of \<open>t1\<close>.\<close>

definition admit :: "nat \<Rightarrow> arc_cache \<times> nat option \<Rightarrow> (arc_cache \<times> arc_result) option" where
  "admit page = (\<lambda>(c, v).
     if v = None \<and> lhs_len (a_t1 c) + lhs_len (a_t2 c) = a_capacity c then Some (c, PoolFull)
     else do {
       (t1, _) \<leftarrow> unwrap (lhs_insert page (a_t1 c));
       Some (c\<lparr>a_t1 := t1\<rparr>, evicted_result v)
     })"

definition request :: "nat \<Rightarrow> (nat \<Rightarrow> bool) \<Rightarrow> arc_cache \<Rightarrow> (arc_cache \<times> arc_result) option" where
  "request page is_pinned c =
     (if lhs_contains (a_t1 c) page then do {
        (t1, _) \<leftarrow> unwrap (lhs_remove page (a_t1 c));
        (t2, _) \<leftarrow> unwrap (lhs_insert page (a_t2 c));
        Some (c\<lparr>a_t1 := t1, a_t2 := t2\<rparr>, Hit)
      } else if lhs_contains (a_t2 c) page then do {
        (t2, _) \<leftarrow> unwrap (move_to_front page (a_t2 c));
        Some (c\<lparr>a_t2 := t2\<rparr>, Hit)
      } else if lhs_contains (a_b1 c) page then request_ghost1 page is_pinned c
      else if lhs_contains (a_b2 c) page then request_ghost2 page is_pinned c
      else do { x \<leftarrow> make_room page is_pinned c; admit page x })"

definition arc_remove :: "nat \<Rightarrow> arc_cache \<Rightarrow> (arc_cache \<times> unit result) option" where
  "arc_remove page c =
     (if lhs_contains (a_t1 c) page then
        map_option (\<lambda>(t1, r). (c\<lparr>a_t1 := t1\<rparr>, r)) (lhs_remove page (a_t1 c))
      else if lhs_contains (a_t2 c) page then
        map_option (\<lambda>(t2, r). (c\<lparr>a_t2 := t2\<rparr>, r)) (lhs_remove page (a_t2 c))
      else if lhs_contains (a_b1 c) page then
        map_option (\<lambda>(b1, r). (c\<lparr>a_b1 := b1\<rparr>, r)) (lhs_remove page (a_b1 c))
      else if lhs_contains (a_b2 c) page then
        map_option (\<lambda>(b2, r). (c\<lparr>a_b2 := b2\<rparr>, r)) (lhs_remove page (a_b2 c))
      else Some (c, Inr ()))"

text \<open>
  \<open>give_back\<close> of the buffer pool: a victim the pool declined goes back among the resident pages, and the
  incoming page, which is not going to arrive, comes off.
\<close>

definition give_back :: "bool \<Rightarrow> nat \<Rightarrow> nat \<Rightarrow> arc_cache \<Rightarrow> arc_cache option" where
  "give_back declined victim page c = do {
     c \<leftarrow> (if declined then reinstate victim c else Some c);
     ok_drop (arc_remove page c)
   }"

text \<open>
  What became of the frame a fault asked for (the enum \<open>Evicted\<close> of the buffer pool), and the calls \<open>fault_in\<close>
  makes on the cache in each case, here with no other thread in between (\<open>Arc_Sections\<close> has the lock sections one
  by one). For a verdict of \<open>MissNoEvict\<close> the pool claims an unused frame: it got one
  (\<open>Took\<close>) or every frame had filled.
\<close>

datatype evicted = Took | Declined | Gone

definition fault_in :: "nat \<Rightarrow> (nat \<Rightarrow> bool) \<Rightarrow> evicted \<Rightarrow> arc_cache \<Rightarrow> arc_cache option" where
  "fault_in page is_pinned got c = do {
     (c, verdict) \<leftarrow> request page is_pinned c;
     (case verdict of
        Hit \<Rightarrow> ok_drop (arc_remove page c)
      | PoolFull \<Rightarrow> Some c
      | MissNoEvict \<Rightarrow> if got = Took then Some c else ok_drop (arc_remove page c)
      | MissEvict victim \<Rightarrow> if got = Took then Some c else give_back (got = Declined) victim page c)
   }"

datatype arc_call = AFault nat "nat list" evicted | ATouch nat | ARemove nat

fun do_arc_call :: "arc_call \<Rightarrow> arc_cache \<Rightarrow> arc_cache option" where
  "do_arc_call (AFault page pinned got) c = fault_in page (\<lambda>k. k \<in> set pinned) got c"
| "do_arc_call (ATouch page) c = map_option fst (touch page c)"
| "do_arc_call (ARemove page) c = ok_drop (arc_remove page c)"

fun arc_calls :: "arc_call list \<Rightarrow> arc_cache \<Rightarrow> arc_cache option" where
  "arc_calls [] c = Some c"
| "arc_calls (x # xs) c = do { c \<leftarrow> do_arc_call x c; arc_calls xs c }"

section \<open>The invariant\<close>

abbreviation t1_keys :: "arc_cache \<Rightarrow> nat list" where "t1_keys c \<equiv> keys_of (a_t1 c)"
abbreviation t2_keys :: "arc_cache \<Rightarrow> nat list" where "t2_keys c \<equiv> keys_of (a_t2 c)"
abbreviation b1_keys :: "arc_cache \<Rightarrow> nat list" where "b1_keys c \<equiv> keys_of (a_b1 c)"
abbreviation b2_keys :: "arc_cache \<Rightarrow> nat list" where "b2_keys c \<equiv> keys_of (a_b2 c)"

definition all_keys :: "arc_cache \<Rightarrow> nat list" where
  "all_keys c = t1_keys c @ t2_keys c @ b1_keys c @ b2_keys c"

definition resident :: "arc_cache \<Rightarrow> nat set" where
  "resident c = set (t1_keys c) \<union> set (t2_keys c)"

text \<open>Four well-formed lists, no page in two of them.\<close>

definition arc_lists :: "arc_cache \<Rightarrow> bool" where
  "arc_lists c \<longleftrightarrow>
     lhs_ok (a_t1 c) \<and> lhs_ok (a_t2 c) \<and> lhs_ok (a_b1 c) \<and> lhs_ok (a_b2 c) \<and> distinct (all_keys c)"

text \<open>
  With \<open>r\<close> pages over: no more residents than frames, no more of \<open>t1\<close> and its ghosts than frames, twice as
  many pages known as frames.
\<close>

definition arc_sizes :: "nat \<Rightarrow> arc_cache \<Rightarrow> bool" where
  "arc_sizes r c \<longleftrightarrow>
     length (t1_keys c) + length (t2_keys c) \<le> a_capacity c + r \<and>
     length (t1_keys c) + length (b1_keys c) \<le> a_capacity c + r \<and>
     length (all_keys c) \<le> 2 * a_capacity c + r \<and>
     a_p c \<le> a_capacity c"

definition arc_ok :: "arc_cache \<Rightarrow> bool" where
  "arc_ok c \<longleftrightarrow> arc_lists c \<and> arc_sizes 0 c"

section \<open>Finding a victim\<close>

text \<open>What the lists hold, as one value.\<close>

definition view :: "arc_cache \<Rightarrow> nat \<times> nat \<times> nat list \<times> nat list \<times> nat list \<times> nat list" where
  "view c = (a_capacity c, a_p c, t1_keys c, t2_keys c, b1_keys c, b2_keys c)"

lemma unwrap_simps [simp]: "unwrap (Some (s, Inr x)) = Some (s, x)"
  by (simp add: unwrap_def)

lemma ok_drop_simps [simp]: "ok_drop (Some (s, r)) = Some s"
  by (simp add: ok_drop_def)

lemma arc_lists_lookup:
  assumes "arc_lists c"
  shows "lhs_contains (a_t1 c) k \<longleftrightarrow> k \<in> set (t1_keys c)" "lhs_contains (a_t2 c) k \<longleftrightarrow> k \<in> set (t2_keys c)"
    "lhs_contains (a_b1 c) k \<longleftrightarrow> k \<in> set (b1_keys c)" "lhs_contains (a_b2 c) k \<longleftrightarrow> k \<in> set (b2_keys c)"
    "lhs_len (a_t1 c) = length (t1_keys c)" "lhs_len (a_t2 c) = length (t2_keys c)"
    "lhs_len (a_b1 c) = length (b1_keys c)" "lhs_len (a_b2 c) = length (b2_keys c)"
  using assms by (auto simp: arc_lists_def lhs.has_iff lhs.count_eq)

lemma in_oldest: "find P (rev xs) = Some v \<Longrightarrow> v \<in> set xs \<and> P v"
  by (metis find_Some_iff length_rev nth_mem set_rev)

lemma no_oldest: "find P (rev xs) = None \<Longrightarrow> k \<in> set xs \<Longrightarrow> \<not> P k"
  by (simp add: find_None_iff)

definition evicted1 :: "(nat \<Rightarrow> bool) \<Rightarrow> arc_cache \<Rightarrow> nat option \<Rightarrow> arc_cache \<Rightarrow> bool" where
  "evicted1 is_pinned c v c' \<longleftrightarrow>
     (case v of
        None \<Rightarrow> view c' = view c \<and> (\<forall>k \<in> set (t1_keys c). is_pinned k)
      | Some x \<Rightarrow> x \<in> set (t1_keys c) \<and> \<not> is_pinned x \<and>
          view c' = (a_capacity c, a_p c, remove1 x (t1_keys c), t2_keys c, x # b1_keys c, b2_keys c))"

definition evicted2 :: "(nat \<Rightarrow> bool) \<Rightarrow> arc_cache \<Rightarrow> nat option \<Rightarrow> arc_cache \<Rightarrow> bool" where
  "evicted2 is_pinned c v c' \<longleftrightarrow>
     (case v of
        None \<Rightarrow> view c' = view c \<and> (\<forall>k \<in> set (t2_keys c). is_pinned k)
      | Some x \<Rightarrow> x \<in> set (t2_keys c) \<and> \<not> is_pinned x \<and>
          view c' = (a_capacity c, a_p c, t1_keys c, remove1 x (t2_keys c), b1_keys c, x # b2_keys c))"

lemma evict_t1_law:
  assumes "arc_lists c"
  shows "\<exists>c' v. evict_t1 is_pinned c = Some (c', v) \<and> arc_lists c' \<and> evicted1 is_pinned c v c'"
proof -
  have ok: "lhs_ok (a_t1 c)" "lhs_ok (a_b1 c)" using assms by (auto simp: arc_lists_def)
  let ?v = "find (\<lambda>k. \<not> is_pinned k) (rev (t1_keys c))"
  obtain t where t: "check_unpinned is_pinned (a_t1 c) = Some (t, ?v)" "lhs_ok t"
      "keys_of t = (case ?v of None \<Rightarrow> t1_keys c | Some k \<Rightarrow> remove1 k (t1_keys c))"
    using lhs.oldest_law[OF ok(1)] by blast
  show ?thesis
  proof (cases ?v)
    case None
    with t assms no_oldest[OF None] show ?thesis
      by (auto simp: evict_t1_def evicted1_def view_def arc_lists_def all_keys_def)
  next
    case (Some x)
    have x: "x \<in> set (t1_keys c)" "\<not> is_pinned x" using in_oldest[OF Some] by auto
    obtain b where b: "lhs_insert x (a_b1 c) = Some (b, Inr ())" "lhs_ok b" "keys_of b = x # remove1 x (b1_keys c)"
      using lhs.ins_law[OF ok(2)] by blast
    have "x \<notin> set (b1_keys c)" using x assms by (auto simp: arc_lists_def all_keys_def)
    with b t Some x assms show ?thesis
      by (auto simp: evict_t1_def evicted1_def view_def arc_lists_def all_keys_def remove1_idem set_remove1_eq)
  qed
qed

lemma evict_t2_law:
  assumes "arc_lists c"
  shows "\<exists>c' v. evict_t2 is_pinned c = Some (c', v) \<and> arc_lists c' \<and> evicted2 is_pinned c v c'"
proof -
  have ok: "lhs_ok (a_t2 c)" "lhs_ok (a_b2 c)" using assms by (auto simp: arc_lists_def)
  let ?v = "find (\<lambda>k. \<not> is_pinned k) (rev (t2_keys c))"
  obtain t where t: "check_unpinned is_pinned (a_t2 c) = Some (t, ?v)" "lhs_ok t"
      "keys_of t = (case ?v of None \<Rightarrow> t2_keys c | Some k \<Rightarrow> remove1 k (t2_keys c))"
    using lhs.oldest_law[OF ok(1)] by blast
  show ?thesis
  proof (cases ?v)
    case None
    with t assms no_oldest[OF None] show ?thesis
      by (auto simp: evict_t2_def evicted2_def view_def arc_lists_def all_keys_def)
  next
    case (Some x)
    have x: "x \<in> set (t2_keys c)" "\<not> is_pinned x" using in_oldest[OF Some] by auto
    obtain b where b: "lhs_insert x (a_b2 c) = Some (b, Inr ())" "lhs_ok b" "keys_of b = x # remove1 x (b2_keys c)"
      using lhs.ins_law[OF ok(2)] by blast
    have "x \<notin> set (b2_keys c)" using x assms by (auto simp: arc_lists_def all_keys_def)
    with b t Some x assms show ?thesis
      by (auto simp: evict_t2_def evicted2_def view_def arc_lists_def all_keys_def remove1_idem set_remove1_eq)
  qed
qed

text \<open>
  \<open>replace\<close> either finds every resident page pinned and changes nothing, or moves one unpinned page to the
  ghosts of its list.
\<close>

definition replaced :: "(nat \<Rightarrow> bool) \<Rightarrow> arc_cache \<Rightarrow> nat option \<Rightarrow> arc_cache \<Rightarrow> bool" where
  "replaced is_pinned c v c' \<longleftrightarrow>
     (if v = None then view c' = view c \<and> (\<forall>k \<in> resident c. is_pinned k)
      else evicted1 is_pinned c v c' \<or> evicted2 is_pinned c v c')"

lemma evicted_None:
  "evicted1 p c None c' \<longleftrightarrow> view c' = view c \<and> (\<forall>k \<in> set (t1_keys c). p k)"
  "evicted2 p c None c' \<longleftrightarrow> view c' = view c \<and> (\<forall>k \<in> set (t2_keys c). p k)"
  by (simp_all add: evicted1_def evicted2_def)

lemma view_keys:
  "view c' = view c \<Longrightarrow>
   t1_keys c' = t1_keys c \<and> t2_keys c' = t2_keys c \<and> b1_keys c' = b1_keys c \<and> b2_keys c' = b2_keys c \<and>
   a_capacity c' = a_capacity c \<and> a_p c' = a_p c \<and> resident c' = resident c"
  by (simp add: view_def resident_def)

lemma evicted_view:
  "view c1 = view c \<Longrightarrow> evicted1 p c1 v c' = evicted1 p c v c'"
  "view c1 = view c \<Longrightarrow> evicted2 p c1 v c' = evicted2 p c v c'"
  using view_keys[of c1 c] by (cases v; simp add: evicted1_def evicted2_def)+

lemma or_else_law:
  assumes "arc_lists c"
    and first: "\<exists>c' v. m = Some (c', v) \<and> arc_lists c' \<and> A c v c'"
    and second: "\<And>c. arc_lists c \<Longrightarrow> \<exists>c' v. f c = Some (c', v) \<and> arc_lists c' \<and> B c v c'"
    and none: "\<And>c'. A c None c' \<Longrightarrow> view c' = view c"
    and same: "\<And>c1 v c'. view c1 = view c \<Longrightarrow> B c1 v c' = B c v c'"
  shows "\<exists>c' v. or_else m f = Some (c', v) \<and> arc_lists c' \<and>
    (v \<noteq> None \<and> (A c v c' \<or> B c v c') \<or> v = None \<and> B c None c' \<and> (\<exists>c1. A c None c1))"
proof -
  obtain c1 v where 1: "m = Some (c1, v)" "arc_lists c1" "A c v c1" using first by blast
  show ?thesis
  proof (cases v)
    case (Some x)
    with 1 show ?thesis by (auto simp: or_else_def)
  next
    case None
    obtain c2 w where 2: "f c1 = Some (c2, w)" "arc_lists c2" "B c1 w c2" using second[OF 1(2)] by blast
    have "B c w c2" using same none 1 2 None by blast
    with 1 2 None show ?thesis by (cases w) (auto simp: or_else_def)
  qed
qed

lemma replace_law:
  assumes "arc_lists c"
  shows "\<exists>c' v. replace page is_pinned c = Some (c', v) \<and> arc_lists c' \<and> replaced is_pinned c v c'"
proof -
  have 12: "\<exists>c' v. or_else (evict_t1 is_pinned c) (evict_t2 is_pinned) = Some (c', v) \<and> arc_lists c' \<and>
      replaced is_pinned c v c'"
    using or_else_law[where A = "evicted1 is_pinned" and B = "evicted2 is_pinned", OF assms
        evict_t1_law[OF assms] evict_t2_law _ evicted_view(2)]
    by (fastforce simp: evicted_None replaced_def resident_def)
  have 21: "\<exists>c' v. or_else (evict_t2 is_pinned c) (evict_t1 is_pinned) = Some (c', v) \<and> arc_lists c' \<and>
      replaced is_pinned c v c'"
    using or_else_law[where A = "evicted2 is_pinned" and B = "evicted1 is_pinned", OF assms
        evict_t2_law[OF assms] evict_t1_law _ evicted_view(1)]
    by (fastforce simp: evicted_None replaced_def resident_def)
  have empty: "replaced is_pinned c None c" if "length (t1_keys c) + length (t2_keys c) = 0"
    using that by (simp add: replaced_def resident_def)
  show ?thesis
    unfolding replace_def arc_lists_lookup(5,6)[OF assms] using 12 21 empty assms by simp
qed

section \<open>Admitting a page\<close>

lemma admit_ghost1:
  assumes "arc_lists c" "page \<in> set (b1_keys c)"
  shows "\<exists>c'. do { (b1, _) \<leftarrow> unwrap (lhs_remove page (a_b1 c)); (t2, _) \<leftarrow> unwrap (lhs_insert page (a_t2 c));
      Some (c\<lparr>a_b1 := b1, a_t2 := t2\<rparr>, r) } = Some (c', r) \<and> arc_lists c' \<and>
    view c' = (a_capacity c, a_p c, t1_keys c, page # t2_keys c, remove1 page (b1_keys c), b2_keys c)"
proof -
  have ok: "lhs_ok (a_t2 c)" "lhs_ok (a_b1 c)" using assms by (auto simp: arc_lists_def)
  obtain b where b: "lhs_remove page (a_b1 c) = Some (b, Inr ())" "lhs_ok b" "keys_of b = remove1 page (b1_keys c)"
    using lhs.del_law[OF ok(2) assms(2)] by blast
  obtain t where t: "lhs_insert page (a_t2 c) = Some (t, Inr ())" "lhs_ok t" "keys_of t = page # remove1 page (t2_keys c)"
    using lhs.ins_law[OF ok(1)] by blast
  have "page \<notin> set (t2_keys c)" using assms by (auto simp: arc_lists_def all_keys_def)
  with assms b t show ?thesis
    by (auto simp: view_def arc_lists_def all_keys_def remove1_idem set_remove1_eq)
qed

lemma admit_ghost2:
  assumes "arc_lists c" "page \<in> set (b2_keys c)"
  shows "\<exists>c'. do { (b2, _) \<leftarrow> unwrap (lhs_remove page (a_b2 c)); (t2, _) \<leftarrow> unwrap (lhs_insert page (a_t2 c));
      Some (c\<lparr>a_b2 := b2, a_t2 := t2\<rparr>, r) } = Some (c', r) \<and> arc_lists c' \<and>
    view c' = (a_capacity c, a_p c, t1_keys c, page # t2_keys c, b1_keys c, remove1 page (b2_keys c))"
proof -
  have ok: "lhs_ok (a_t2 c)" "lhs_ok (a_b2 c)" using assms by (auto simp: arc_lists_def)
  obtain b where b: "lhs_remove page (a_b2 c) = Some (b, Inr ())" "lhs_ok b" "keys_of b = remove1 page (b2_keys c)"
    using lhs.del_law[OF ok(2) assms(2)] by blast
  obtain t where t: "lhs_insert page (a_t2 c) = Some (t, Inr ())" "lhs_ok t" "keys_of t = page # remove1 page (t2_keys c)"
    using lhs.ins_law[OF ok(1)] by blast
  have "page \<notin> set (t2_keys c)" using assms by (auto simp: arc_lists_def all_keys_def)
  with assms b t show ?thesis
    by (auto simp: view_def arc_lists_def all_keys_def remove1_idem set_remove1_eq)
qed

lemma admit_new:
  assumes "arc_lists c" "page \<notin> set (all_keys c)"
  shows "\<exists>c'. do { (t1, _) \<leftarrow> unwrap (lhs_insert page (a_t1 c)); Some (c\<lparr>a_t1 := t1\<rparr>, r) } = Some (c', r) \<and>
    arc_lists c' \<and>
    view c' = (a_capacity c, a_p c, page # t1_keys c, t2_keys c, b1_keys c, b2_keys c)"
proof -
  have ok: "lhs_ok (a_t1 c)" using assms by (auto simp: arc_lists_def)
  obtain t where t: "lhs_insert page (a_t1 c) = Some (t, Inr ())" "lhs_ok t" "keys_of t = page # remove1 page (t1_keys c)"
    using lhs.ins_law[OF ok] by blast
  with assms show ?thesis by (auto simp: view_def arc_lists_def all_keys_def remove1_idem)
qed

lemma drop_ghost:
  assumes "lhs_ok b"
  shows "\<exists>b'. ok_drop (pop_back b) = Some b' \<and> lhs_ok b' \<and> keys_of b' = butlast (keys_of b)"
  using lhs.pop_law[OF assms] lhs.pop_empty[OF assms] assms by (cases "keys_of b = []") auto

lemma viewD:
  assumes "view c = (n, q, x1, x2, y1, y2)"
  shows "a_capacity c = n" "a_p c = q" "t1_keys c = x1" "t2_keys c = x2" "b1_keys c = y1" "b2_keys c = y2"
  using assms by (auto simp: view_def)

text \<open>What a request made of the resident pages, and where its victim is afterwards.\<close>

definition requested :: "nat \<Rightarrow> (nat \<Rightarrow> bool) \<Rightarrow> arc_cache \<Rightarrow> arc_result \<Rightarrow> arc_cache \<Rightarrow> bool" where
  "requested page is_pinned c r c' \<longleftrightarrow>
     a_capacity c' = a_capacity c \<and>
     (case r of
        Hit \<Rightarrow> page \<in> resident c \<and> resident c' = resident c
      | MissEvict v \<Rightarrow> page \<notin> resident c \<and> v \<in> resident c \<and> \<not> is_pinned v \<and>
          resident c' = insert page (resident c - {v}) \<and>
          (v \<in> set (b1_keys c') \<union> set (b2_keys c') \<or> page \<in> set (t1_keys c'))
      | MissNoEvict \<Rightarrow> page \<notin> resident c \<and> card (resident c) < a_capacity c \<and>
          resident c' = insert page (resident c)
      | PoolFull \<Rightarrow> page \<notin> resident c \<and> card (resident c) = a_capacity c \<and>
          (\<forall>k \<in> resident c. is_pinned k) \<and> resident c' = resident c)"

lemma card_resident:
  assumes "arc_lists c"
  shows "card (resident c) = length (t1_keys c) + length (t2_keys c)"
  using assms distinct_card[of "t1_keys c @ t2_keys c"]
  by (auto simp: arc_lists_def all_keys_def resident_def)

lemma remove1_facts:
  "distinct xs \<Longrightarrow> x \<in> set xs \<Longrightarrow> set (remove1 x xs) = set xs - {x} \<and> Suc (length (remove1 x xs)) = length xs"
  by (auto simp: length_remove1 set_remove1_eq dest: length_pos_if_in_set)

text \<open>What \<open>replace\<close> does to the sizes and to the resident pages.\<close>

lemma replaced_effect:
  assumes "arc_lists c" "replaced is_pinned c v c'"
  obtains (none) "v = None" "view c' = view c" "\<And>k. k \<in> resident c \<Longrightarrow> is_pinned k"
  | (victim) x where "v = Some x" "x \<in> resident c" "\<not> is_pinned x" "resident c' = resident c - {x}"
      "x \<in> set (b1_keys c') \<union> set (b2_keys c')"
      "Suc (length (t1_keys c') + length (t2_keys c')) = length (t1_keys c) + length (t2_keys c)"
      "length (t1_keys c') + length (b1_keys c') = length (t1_keys c) + length (b1_keys c)"
      "length (all_keys c') = length (all_keys c)" "set (all_keys c') = set (all_keys c)"
      "set (b1_keys c) \<subseteq> set (b1_keys c')" "set (b2_keys c) \<subseteq> set (b2_keys c')"
      "a_capacity c' = a_capacity c" "a_p c' = a_p c"
proof (cases v)
  case None
  with assms none show ?thesis by (auto simp: replaced_def)
next
  case (Some x)
  have d: "distinct (t1_keys c)" "distinct (t2_keys c)" "set (t1_keys c) \<inter> set (t2_keys c) = {}"
    using assms(1) by (auto simp: arc_lists_def all_keys_def)
  from assms(2) Some consider (1) "evicted1 is_pinned c v c'" | (2) "evicted2 is_pinned c v c'"
    by (auto simp: replaced_def)
  then show ?thesis
  proof cases
    case 1
    then have x: "x \<in> set (t1_keys c)" "\<not> is_pinned x"
        "view c' = (a_capacity c, a_p c, remove1 x (t1_keys c), t2_keys c, x # b1_keys c, b2_keys c)"
      using Some by (auto simp: evicted1_def)
    show ?thesis
      by (rule victim[OF Some])
        (use x d viewD[OF x(3)] remove1_facts[OF d(1) x(1)] in \<open>auto simp: resident_def all_keys_def\<close>)
  next
    case 2
    then have x: "x \<in> set (t2_keys c)" "\<not> is_pinned x"
        "view c' = (a_capacity c, a_p c, t1_keys c, remove1 x (t2_keys c), b1_keys c, x # b2_keys c)"
      using Some by (auto simp: evicted2_def)
    show ?thesis
      by (rule victim[OF Some])
        (use x d viewD[OF x(3)] remove1_facts[OF d(2) x(1)] in \<open>auto simp: resident_def all_keys_def\<close>)
  qed
qed

section \<open>A request\<close>

lemma arc_lists_p [simp]: "arc_lists (c\<lparr>a_p := q\<rparr>) = arc_lists c"
  by (simp add: arc_lists_def all_keys_def)

lemma arc_okI:
  assumes "arc_lists c" "length (t1_keys c) + length (t2_keys c) \<le> a_capacity c"
    "length (t1_keys c) + length (b1_keys c) \<le> a_capacity c"
    "length (all_keys c) \<le> 2 * a_capacity c" "a_p c \<le> a_capacity c"
  shows "arc_ok c"
  using assms by (simp add: arc_ok_def arc_sizes_def)

lemma arc_okD:
  assumes "arc_ok c"
  shows "arc_lists c" "length (t1_keys c) + length (t2_keys c) \<le> a_capacity c"
    "length (t1_keys c) + length (b1_keys c) \<le> a_capacity c"
    "length (all_keys c) \<le> 2 * a_capacity c" "a_p c \<le> a_capacity c"
  using assms by (simp_all add: arc_ok_def arc_sizes_def)

text \<open>
  The two invariants of the cache in one: lists in order, no more resident pages than frames and the target in
  range, and if \<open>B\<close> also the bounds on the ghosts. What \<open>request\<close> keeps of the first it keeps whether or not the
  ghosts are within theirs.
\<close>

definition arc_within :: "bool \<Rightarrow> arc_cache \<Rightarrow> bool" where
  "arc_within B c \<longleftrightarrow> arc_lists c \<and> length (t1_keys c) + length (t2_keys c) \<le> a_capacity c \<and> a_p c \<le> a_capacity c \<and>
     (B \<longrightarrow> length (t1_keys c) + length (b1_keys c) \<le> a_capacity c \<and> length (all_keys c) \<le> 2 * a_capacity c)"

lemma arc_ok_within: "arc_ok c \<longleftrightarrow> arc_within True c"
  by (auto simp: arc_ok_def arc_sizes_def arc_within_def)

lemma arc_withinI:
  assumes "arc_lists c" "length (t1_keys c) + length (t2_keys c) \<le> a_capacity c"
    "B \<Longrightarrow> length (t1_keys c) + length (b1_keys c) \<le> a_capacity c"
    "B \<Longrightarrow> length (all_keys c) \<le> 2 * a_capacity c" "a_p c \<le> a_capacity c"
  shows "arc_within B c"
  using assms by (simp add: arc_within_def)

lemma arc_withinD:
  assumes "arc_within B c"
  shows "arc_lists c" "length (t1_keys c) + length (t2_keys c) \<le> a_capacity c"
    "B \<Longrightarrow> length (t1_keys c) + length (b1_keys c) \<le> a_capacity c"
    "B \<Longrightarrow> length (all_keys c) \<le> 2 * a_capacity c" "a_p c \<le> a_capacity c"
  using assms by (simp_all add: arc_within_def)

text \<open>
  A page admitted after \<open>replace\<close> ran on \<open>c\<close>: \<open>c1\<close> is the cache it left, \<open>c2\<close> the cache with the page in,
  which takes one slot more of the resident lists and none of the whole directory.
\<close>

lemma admitted_after_replace:
  assumes ok: "arc_lists c" "length (t1_keys c) + length (t2_keys c) \<le> a_capacity c"
      "B \<Longrightarrow> length (t1_keys c) + length (b1_keys c) + e \<le> a_capacity c"
      "B \<Longrightarrow> length (all_keys c) + e \<le> 2 * a_capacity c" "a_p c \<le> a_capacity c"
    and np: "page \<notin> resident c"
    and r: "replaced is_pinned c v c1"
    and room: "v = None \<Longrightarrow> length (t1_keys c) + length (t2_keys c) \<noteq> a_capacity c"
    and c2: "arc_lists c2" "a_capacity c2 = a_capacity c1" "a_p c2 = a_p c1"
      "length (t1_keys c2) + length (t2_keys c2) = Suc (length (t1_keys c1) + length (t2_keys c1))"
      "length (t1_keys c2) + length (b1_keys c2) \<le> length (t1_keys c1) + length (b1_keys c1) + e"
      "length (all_keys c2) \<le> length (all_keys c1) + e" "resident c2 = insert page (resident c1)"
      "set (b1_keys c1) \<union> set (b2_keys c1) \<subseteq> insert page (set (b1_keys c2) \<union> set (b2_keys c2))"
  shows "arc_within B c2 \<and> requested page is_pinned c (evicted_result v) c2"
  using ok(1) r
proof (cases rule: replaced_effect)
  case none
  note k = view_keys[OF none(2)]
  have kl: "length (t1_keys c1) = length (t1_keys c)" "length (t2_keys c1) = length (t2_keys c)"
      "length (b1_keys c1) = length (b1_keys c)" "length (all_keys c1) = length (all_keys c)"
      "a_capacity c1 = a_capacity c" "a_p c1 = a_p c"
    using k by (simp_all add: all_keys_def)
  have "arc_within B c2"
  proof (rule arc_withinI[OF c2(1)])
    show "length (t1_keys c2) + length (t2_keys c2) \<le> a_capacity c2" using kl ok(2) room[OF none(1)] c2(2,4) by linarith
    show "length (t1_keys c2) + length (b1_keys c2) \<le> a_capacity c2" if B using kl ok(3)[OF that] c2(2,5) by linarith
    show "length (all_keys c2) \<le> 2 * a_capacity c2" if B using kl ok(4)[OF that] c2(2,6) by linarith
  qed (use kl ok(5) c2(2,3) in linarith)
  moreover have "requested page is_pinned c MissNoEvict c2"
    using k ok(2) room[OF none(1)] c2(2,7) np card_resident[OF ok(1)] by (simp add: requested_def)
  ultimately show ?thesis by (simp add: none(1) evicted_result_def)
next
  case (victim x)
  have "arc_within B c2"
  proof (rule arc_withinI[OF c2(1)])
    show "length (t1_keys c2) + length (t2_keys c2) \<le> a_capacity c2" using victim(6,12) ok(2) c2(2,4) by linarith
    show "length (t1_keys c2) + length (b1_keys c2) \<le> a_capacity c2" if B
      using victim(7,12) ok(3)[OF that] c2(2,5) by linarith
    show "length (all_keys c2) \<le> 2 * a_capacity c2" if B using victim(8,12) ok(4)[OF that] c2(2,6) by linarith
  qed (use victim(12,13) ok(5) c2(2,3) in linarith)
  moreover have "x \<noteq> page" using victim(2) np by blast
  then have "requested page is_pinned c (MissEvict x) c2"
    using victim(2-5,12) c2(2,7,8) np by (auto simp: requested_def)
  ultimately show ?thesis by (simp add: victim(1) evicted_result_def)
qed

lemma full_after_replace:
  assumes ok: "arc_within B c" and np: "page \<notin> resident c" and r: "arc_lists c1" "replaced is_pinned c None c1"
    and full: "length (t1_keys c1) + length (t2_keys c1) = a_capacity c1"
  shows "arc_within B c1 \<and> requested page is_pinned c PoolFull c1"
proof -
  have v: "view c1 = view c" "\<forall>k \<in> resident c. is_pinned k" using r(2) by (auto simp: replaced_def)
  note k = view_keys[OF v(1)]
  have "length (all_keys c1) = length (all_keys c)" using k by (simp add: all_keys_def)
  then have "arc_within B c1" using r(1) k arc_withinD[OF ok] by (intro arc_withinI) auto
  with v(2) k full np card_resident[OF arc_withinD(1)[OF ok]] show ?thesis by (simp add: requested_def)
qed

lemma arc_p_simps [simp]:
  "resident (c\<lparr>a_p := q\<rparr>) = resident c" "all_keys (c\<lparr>a_p := q\<rparr>) = all_keys c"
  "requested page is_pinned (c\<lparr>a_p := q\<rparr>) r c' = requested page is_pinned c r c'"
  by (simp_all add: resident_def all_keys_def requested_def cong: arc_result.case_cong)

lemma request_ghost1_law:
  assumes ok: "arc_within B c" and page: "page \<in> set (b1_keys c)"
  shows "\<exists>c' r. request_ghost1 page is_pinned c = Some (c', r) \<and> arc_within B c' \<and> requested page is_pinned c r c'"
proof -
  define q where "q = min (a_p c + max 1 (lhs_len (a_b2 c) div max (lhs_len (a_b1 c)) 1)) (a_capacity c)"
  let ?c = "c\<lparr>a_p := q\<rparr>"
  have q: "q \<le> a_capacity c" by (simp add: q_def)
  have ok': "arc_within B ?c" using ok q by (auto simp: arc_within_def)
  note z = arc_withinD[OF ok']
  have np: "page \<notin> resident ?c"
    using page z(1) by (auto simp: arc_lists_def resident_def all_keys_def)
  obtain c1 v where r: "replace page is_pinned ?c = Some (c1, v)" "arc_lists c1" "replaced is_pinned ?c v c1"
    using replace_law[OF z(1)] by blast
  let ?full = "length (t1_keys c1) + length (t2_keys c1) = a_capacity c1 \<and> v = None"
  have run: "request_ghost1 page is_pinned c = (if ?full then Some (c1, PoolFull) else do {
      (b1, _) \<leftarrow> unwrap (lhs_remove page (a_b1 c1)); (t2, _) \<leftarrow> unwrap (lhs_insert page (a_t2 c1));
      Some (c1\<lparr>a_b1 := b1, a_t2 := t2\<rparr>, evicted_result v) })"
    unfolding request_ghost1_def Let_def q_def[symmetric] r(1)
    by (simp only: Option.bind.bind_lunit prod.case arc_lists_lookup[OF r(2)])
  show ?thesis
  proof (cases ?full)
    case True
    then show ?thesis
      using full_after_replace[OF ok' np r(2)] r(3) unfolding run if_P[OF True] by auto
  next
    case False
    have in_b1: "page \<in> set (b1_keys c1)"
      by (rule replaced_effect[OF z(1) r(3)]) (use page view_keys[of c1 ?c] in auto)
    obtain c2 where c2: "do { (b1, _) \<leftarrow> unwrap (lhs_remove page (a_b1 c1));
          (t2, _) \<leftarrow> unwrap (lhs_insert page (a_t2 c1)); Some (c1\<lparr>a_b1 := b1, a_t2 := t2\<rparr>, evicted_result v) }
        = Some (c2, evicted_result v)" "arc_lists c2"
        "view c2 = (a_capacity c1, a_p c1, t1_keys c1, page # t2_keys c1, remove1 page (b1_keys c1), b2_keys c1)"
      using admit_ghost1[OF r(2) in_b1, of "evicted_result v"] by metis
    note w = viewD[OF c2(3)]
    have f: "set (b1_keys c2) = set (b1_keys c1) - {page}" "Suc (length (b1_keys c2)) = length (b1_keys c1)"
      using remove1_facts[OF _ in_b1] r(2) w(5) by (auto simp: arc_lists_def all_keys_def)
    have room: "v = None \<Longrightarrow> length (t1_keys ?c) + length (t2_keys ?c) \<noteq> a_capacity ?c"
      using False r(3) view_keys[of c1 ?c] by (auto simp: replaced_def)
    have "arc_within B c2 \<and> requested page is_pinned ?c (evicted_result v) c2"
      by (rule admitted_after_replace[where e = 0, OF z(1,2) _ _ z(5) np r(3) room c2(2)])
        (use z w f in \<open>auto simp: all_keys_def resident_def\<close>)
    then show ?thesis unfolding run if_not_P[OF False] c2(1) by auto
  qed
qed

lemma request_ghost2_law:
  assumes ok: "arc_within B c" and page: "page \<in> set (b2_keys c)"
  shows "\<exists>c' r. request_ghost2 page is_pinned c = Some (c', r) \<and> arc_within B c' \<and> requested page is_pinned c r c'"
proof -
  define q where "q = a_p c - max 1 (lhs_len (a_b1 c) div max 1 (lhs_len (a_b2 c)))"
  let ?c = "c\<lparr>a_p := q\<rparr>"
  have q: "q \<le> a_p c" by (simp add: q_def)
  have ok': "arc_within B ?c" using ok q by (auto simp: arc_within_def)
  note z = arc_withinD[OF ok']
  have np: "page \<notin> resident ?c"
    using page z(1) by (auto simp: arc_lists_def resident_def all_keys_def)
  obtain c1 v where r: "replace page is_pinned ?c = Some (c1, v)" "arc_lists c1" "replaced is_pinned ?c v c1"
    using replace_law[OF z(1)] by blast
  let ?full = "length (t1_keys c1) + length (t2_keys c1) = a_capacity c1 \<and> v = None"
  have run: "request_ghost2 page is_pinned c = (if ?full then Some (c1, PoolFull) else do {
      (b2, _) \<leftarrow> unwrap (lhs_remove page (a_b2 c1)); (t2, _) \<leftarrow> unwrap (lhs_insert page (a_t2 c1));
      Some (c1\<lparr>a_b2 := b2, a_t2 := t2\<rparr>, evicted_result v) })"
    unfolding request_ghost2_def Let_def q_def[symmetric] r(1)
    by (simp only: Option.bind.bind_lunit prod.case arc_lists_lookup[OF r(2)])
  show ?thesis
  proof (cases ?full)
    case True
    then show ?thesis
      using full_after_replace[OF ok' np r(2)] r(3) unfolding run if_P[OF True] by auto
  next
    case False
    have in_b2: "page \<in> set (b2_keys c1)"
      by (rule replaced_effect[OF z(1) r(3)]) (use page view_keys[of c1 ?c] in auto)
    obtain c2 where c2: "do { (b2, _) \<leftarrow> unwrap (lhs_remove page (a_b2 c1));
          (t2, _) \<leftarrow> unwrap (lhs_insert page (a_t2 c1)); Some (c1\<lparr>a_b2 := b2, a_t2 := t2\<rparr>, evicted_result v) }
        = Some (c2, evicted_result v)" "arc_lists c2"
        "view c2 = (a_capacity c1, a_p c1, t1_keys c1, page # t2_keys c1, b1_keys c1, remove1 page (b2_keys c1))"
      using admit_ghost2[OF r(2) in_b2, of "evicted_result v"] by metis
    note w = viewD[OF c2(3)]
    have f: "set (b2_keys c2) = set (b2_keys c1) - {page}" "Suc (length (b2_keys c2)) = length (b2_keys c1)"
      using remove1_facts[OF _ in_b2] r(2) w(6) by (auto simp: arc_lists_def all_keys_def)
    have room: "v = None \<Longrightarrow> length (t1_keys ?c) + length (t2_keys ?c) \<noteq> a_capacity ?c"
      using False r(3) view_keys[of c1 ?c] by (auto simp: replaced_def)
    have "arc_within B c2 \<and> requested page is_pinned ?c (evicted_result v) c2"
      by (rule admitted_after_replace[where e = 0, OF z(1,2) _ _ z(5) np r(3) room c2(2)])
        (use z w f in \<open>auto simp: all_keys_def resident_def\<close>)
    then show ?thesis unfolding run if_not_P[OF False] c2(1) by auto
  qed
qed

lemma admit_eq:
  assumes "arc_lists c"
  shows "admit page (c, v) =
    (if v = None \<and> length (t1_keys c) + length (t2_keys c) = a_capacity c then Some (c, PoolFull)
     else do { (t1, _) \<leftarrow> unwrap (lhs_insert page (a_t1 c)); Some (c\<lparr>a_t1 := t1\<rparr>, evicted_result v) })"
  by (simp only: admit_def prod.case arc_lists_lookup[OF assms])

lemma miss_after_replace:
  assumes ok: "arc_lists c" "length (t1_keys c) + length (t2_keys c) \<le> a_capacity c"
      "B \<Longrightarrow> length (t1_keys c) + length (b1_keys c) < a_capacity c" "B \<Longrightarrow> length (all_keys c) < 2 * a_capacity c"
      "a_p c \<le> a_capacity c"
    and page: "page \<notin> set (all_keys c)" and r: "arc_lists c1" "replaced is_pinned c v c1"
  shows "\<exists>c' res. admit page (c1, v) = Some (c', res) \<and> arc_within B c' \<and> requested page is_pinned c res c'"
proof (cases "v = None \<and> length (t1_keys c1) + length (t2_keys c1) = a_capacity c1")
  case True
  have "arc_within B c" using ok by (auto intro: arc_withinI)
  moreover have "page \<notin> resident c" using page by (auto simp: resident_def all_keys_def)
  ultimately show ?thesis
    using full_after_replace[of B c page c1 is_pinned] r True by (simp add: admit_eq[OF r(1)])
next
  case False
  have np: "page \<notin> resident c" using page by (auto simp: resident_def all_keys_def)
  have "page \<notin> set (all_keys c1)"
    by (rule replaced_effect[OF ok(1) r(2)]) (use page view_keys[of c1 c] in \<open>auto simp: all_keys_def\<close>)
  then obtain c2 where c2: "do { (t1, _) \<leftarrow> unwrap (lhs_insert page (a_t1 c1)); Some (c1\<lparr>a_t1 := t1\<rparr>, evicted_result v) }
        = Some (c2, evicted_result v)" "arc_lists c2"
      "view c2 = (a_capacity c1, a_p c1, page # t1_keys c1, t2_keys c1, b1_keys c1, b2_keys c1)"
    using admit_new[OF r(1), of page "evicted_result v"] by metis
  note w = viewD[OF c2(3)]
  have room: "v = None \<Longrightarrow> length (t1_keys c) + length (t2_keys c) \<noteq> a_capacity c"
    using False r(2) view_keys[of c1 c] by (auto simp: replaced_def)
  have "arc_within B c2 \<and> requested page is_pinned c (evicted_result v) c2"
    by (rule admitted_after_replace[where e = 1, OF ok(1,2) _ _ ok(5) np r(2) room c2(2)])
      (use ok w in \<open>auto simp: all_keys_def resident_def\<close>)
  then show ?thesis unfolding admit_eq[OF r(1)] if_not_P[OF False] c2(1) by auto
qed

lemma requested_cong:
  assumes "a_capacity c0 = a_capacity c" "resident c0 = resident c"
  shows "requested page is_pinned c0 r c' = requested page is_pinned c r c'"
  using assms by (simp add: requested_def cong: arc_result.case_cong)

lemma pop_ghost1:
  assumes "arc_within B c" "length (t1_keys c) < a_capacity c" "length (b1_keys c) + length (t1_keys c) = a_capacity c"
    and "page \<notin> set (all_keys c)"
  shows "\<exists>c' r. do { b1 \<leftarrow> ok_drop (pop_back (a_b1 c)); x \<leftarrow> replace page is_pinned (c\<lparr>a_b1 := b1\<rparr>); admit page x } = Some (c', r) \<and>
    arc_within B c' \<and> requested page is_pinned c r c'"
proof -
  note z = arc_withinD[OF assms(1)]
  have "lhs_ok (a_b1 c)" using z(1) by (simp add: arc_lists_def)
  then obtain b where b: "ok_drop (pop_back (a_b1 c)) = Some b" "lhs_ok b" "keys_of b = butlast (b1_keys c)"
    using drop_ghost by blast
  let ?c = "c\<lparr>a_b1 := b\<rparr>"
  have ne: "b1_keys c \<noteq> []" using assms(2,3) by auto
  then have len: "Suc (length (b1_keys ?c)) = length (b1_keys c)" using b(3) by simp
  have l: "arc_lists ?c" using z(1) b by (auto simp: arc_lists_def all_keys_def distinct_butlast dest: in_set_butlastD)
  obtain c1 v where r: "replace page is_pinned ?c = Some (c1, v)" "arc_lists c1" "replaced is_pinned ?c v c1"
    using replace_law[OF l] by blast
  have "page \<notin> set (all_keys ?c)" using assms(4) b(3) by (auto simp: all_keys_def dest: in_set_butlastD)
  moreover have "length (t1_keys ?c) + length (b1_keys ?c) < a_capacity ?c" using len assms(3) by simp
  moreover have "length (all_keys ?c) < 2 * a_capacity ?c" if B
    using z(4)[OF that] len by (simp add: all_keys_def)
  ultimately obtain c' res where "admit page (c1, v) = Some (c', res)" "arc_within B c'" "requested page is_pinned ?c res c'"
    using miss_after_replace[OF l _ _ _ _ _ r(2,3), where B = B and page = page] z by auto
  then show ?thesis using b(1) r(1) requested_cong[of ?c c] by (auto simp: resident_def)
qed

lemma pop_ghost2:
  assumes "arc_within B c" "B \<Longrightarrow> length (b1_keys c) + length (t1_keys c) < a_capacity c"
    and "page \<notin> set (all_keys c)"
  shows "\<exists>c' r. do { c \<leftarrow> (if length (all_keys c) = 2 * a_capacity c
        then do { b2 \<leftarrow> ok_drop (pop_back (a_b2 c)); Some (c\<lparr>a_b2 := b2\<rparr>) } else Some c);
      x \<leftarrow> replace page is_pinned c; admit page x } = Some (c', r) \<and>
    arc_within B c' \<and> requested page is_pinned c r c'"
proof -
  note z = arc_withinD[OF assms(1)]
  have "lhs_ok (a_b2 c)" using z(1) by (simp add: arc_lists_def)
  then obtain b where b: "ok_drop (pop_back (a_b2 c)) = Some b" "lhs_ok b" "keys_of b = butlast (b2_keys c)"
    using drop_ghost by blast
  define c0 where "c0 = (if length (all_keys c) = 2 * a_capacity c then c\<lparr>a_b2 := b\<rparr> else c)"
  have start: "(if length (all_keys c) = 2 * a_capacity c
        then do { b2 \<leftarrow> ok_drop (pop_back (a_b2 c)); Some (c\<lparr>a_b2 := b2\<rparr>) } else Some c) = Some c0"
    by (simp add: c0_def b(1))
  have same: "a_capacity c0 = a_capacity c" "resident c0 = resident c" "a_p c0 = a_p c"
      "t1_keys c0 = t1_keys c" "t2_keys c0 = t2_keys c" "b1_keys c0 = b1_keys c"
    by (simp_all add: c0_def resident_def)
  have l: "arc_lists c0"
    using z(1) b by (auto simp: c0_def arc_lists_def all_keys_def distinct_butlast dest: in_set_butlastD)
  have small: "length (all_keys c0) < 2 * a_capacity c0" if B: B
  proof (cases "length (all_keys c) = 2 * a_capacity c")
    case True
    have "length (t1_keys c) + length (t2_keys c) + length (b1_keys c) + length (b2_keys c) = 2 * a_capacity c"
      using True by (simp add: all_keys_def)
    then have ne: "0 < length (b2_keys c)" using z(2) assms(2)[OF B] by linarith
    have "length (b2_keys c0) = length (b2_keys c) - 1" using True b(3) by (simp add: c0_def)
    then have "length (all_keys c0) < length (all_keys c)" using ne same by (simp add: all_keys_def)
    with True same(1) show ?thesis by simp
  qed (use z(4)[OF B] in \<open>simp add: c0_def\<close>)
  obtain c1 v where r: "replace page is_pinned c0 = Some (c1, v)" "arc_lists c1" "replaced is_pinned c0 v c1"
    using replace_law[OF l] by blast
  have "page \<notin> set (all_keys c0)"
    using assms(3) b(3) by (auto simp: c0_def all_keys_def dest: in_set_butlastD)
  then obtain c' res where "admit page (c1, v) = Some (c', res)" "arc_within B c'" "requested page is_pinned c0 res c'"
    using miss_after_replace[OF l _ _ small _ _ r(2,3), where B = B and page = page] z(2,5) assms(2) same by (auto simp: add.commute)
  then show ?thesis unfolding start using r(1) requested_cong[OF same(1,2)] by auto
qed

text \<open>\<open>t1\<close> fills the whole pool: the victim comes out of it and leaves no ghost.\<close>

lemma evict_full_t1:
  assumes ok: "arc_within B c" and full: "length (t1_keys c) = a_capacity c"
      "length (b1_keys c) + length (t1_keys c) = a_capacity c" and page: "page \<notin> set (all_keys c)"
  shows "\<exists>c' r. do { (t1, v) \<leftarrow> check_unpinned is_pinned (a_t1 c); admit page (c\<lparr>a_t1 := t1\<rparr>, v) } = Some (c', r) \<and>
    arc_within B c' \<and> requested page is_pinned c r c'"
proof -
  note z = arc_withinD[OF ok]
  have t1: "lhs_ok (a_t1 c)" using z(1) by (simp add: arc_lists_def)
  have t2: "t2_keys c = []" and b1: "b1_keys c = []" using z(2) full by auto
  have np: "page \<notin> resident c" using page by (auto simp: resident_def all_keys_def)
  let ?v = "find (\<lambda>k. \<not> is_pinned k) (rev (t1_keys c))"
  obtain t where t: "check_unpinned is_pinned (a_t1 c) = Some (t, ?v)" "lhs_ok t"
      "keys_of t = (case ?v of None \<Rightarrow> t1_keys c | Some k \<Rightarrow> remove1 k (t1_keys c))"
    using lhs.oldest_law[OF t1] by blast
  let ?c = "c\<lparr>a_t1 := t\<rparr>"
  show ?thesis
  proof (cases ?v)
    case None
    have l: "arc_lists ?c" using z(1) t None by (simp add: arc_lists_def all_keys_def)
    have "admit page (?c, None) = Some (?c, PoolFull)"
      unfolding admit_eq[OF l] using t None full t2 by simp
    moreover have "arc_within B ?c" using z t None by (intro arc_withinI l) (auto simp: all_keys_def)
    moreover have "requested page is_pinned c PoolFull ?c"
      using np card_resident[OF z(1)] full t2 no_oldest[OF None] t None by (auto simp: requested_def resident_def)
    ultimately show ?thesis using t(1) None by auto
  next
    case (Some x)
    have x: "x \<in> set (t1_keys c)" "\<not> is_pinned x" using in_oldest[OF Some] by auto
    have f: "set (keys_of t) = set (t1_keys c) - {x}" "Suc (length (keys_of t)) = length (t1_keys c)"
      using remove1_facts[OF _ x(1)] z(1) t(3) Some by (auto simp: arc_lists_def all_keys_def)
    have l: "arc_lists ?c" using z(1) t f(1) Some by (auto simp: arc_lists_def all_keys_def)
    have "page \<notin> set (all_keys ?c)" using page f(1) by (auto simp: all_keys_def)
    then obtain c2 where c2: "do { (t1, _) \<leftarrow> unwrap (lhs_insert page (a_t1 ?c)); Some (?c\<lparr>a_t1 := t1\<rparr>, evicted_result (Some x)) }
          = Some (c2, evicted_result (Some x))" "arc_lists c2"
        "view c2 = (a_capacity ?c, a_p ?c, page # t1_keys ?c, t2_keys ?c, b1_keys ?c, b2_keys ?c)"
      using admit_new[OF l, of page "evicted_result (Some x)"] by metis
    note w = viewD[OF c2(3)]
    have "arc_within B c2"
      by (intro arc_withinI c2(2)) (use w f(2) z in \<open>auto simp: all_keys_def\<close>)
    moreover have "requested page is_pinned c (MissEvict x) c2"
      using w f(1) x np by (auto simp: requested_def resident_def t2)
    moreover have "admit page (?c, Some x) = Some (c2, evicted_result (Some x))"
      unfolding admit_eq[OF l] using c2(1) by simp
    ultimately show ?thesis using t(1) Some by (auto simp: evicted_result_def)
  qed
qed

lemma request_miss_law:
  assumes ok: "arc_within B c" and page: "page \<notin> set (all_keys c)"
  shows "\<exists>c' r. do { x \<leftarrow> make_room page is_pinned c; admit page x } = Some (c', r) \<and>
    arc_within B c' \<and> requested page is_pinned c r c'"
proof -
  note z = arc_withinD[OF ok] and look = arc_lists_lookup[OF arc_withinD(1)[OF ok]]
  have all: "length (t1_keys c) + length (t2_keys c) + length (b1_keys c) + length (b2_keys c) = length (all_keys c)"
    by (simp add: all_keys_def)
  consider (a) "length (b1_keys c) + length (t1_keys c) = a_capacity c" "length (t1_keys c) < a_capacity c"
    | (b) "length (b1_keys c) + length (t1_keys c) = a_capacity c" "length (t1_keys c) = a_capacity c"
    | (c) "length (b1_keys c) + length (t1_keys c) \<noteq> a_capacity c" "a_capacity c \<le> length (all_keys c)"
    | (d) "length (b1_keys c) + length (t1_keys c) \<noteq> a_capacity c" "length (all_keys c) < a_capacity c"
    by linarith
  then show ?thesis
  proof cases
    case a
    then show ?thesis
      using pop_ghost1[OF ok _ _ page, of is_pinned] by (simp add: make_room_def look)
  next
    case b
    then show ?thesis
      using evict_full_t1[OF ok _ _ page, of is_pinned] by (simp add: make_room_def look case_prod_unfold)
  next
    case c
    have "length (b1_keys c) + length (t1_keys c) < a_capacity c" if B using z(3)[OF that] c(1) by linarith
    with c show ?thesis
      using pop_ghost2[OF ok _ page, of is_pinned] unfolding make_room_def look all
      by (simp cong: if_cong)
  next
    case d
    then have "make_room page is_pinned c = Some (c, None)" by (simp add: make_room_def look all)
    moreover obtain c2 where c2: "do { (t1, _) \<leftarrow> unwrap (lhs_insert page (a_t1 c)); Some (c\<lparr>a_t1 := t1\<rparr>, MissNoEvict) }
          = Some (c2, MissNoEvict)" "arc_lists c2"
        "view c2 = (a_capacity c, a_p c, page # t1_keys c, t2_keys c, b1_keys c, b2_keys c)"
      using admit_new[OF z(1) page, of MissNoEvict] by metis
    note w = viewD[OF c2(3)]
    have "length (t1_keys c) + length (t2_keys c) < a_capacity c" using d all by linarith
    then have "admit page (c, None) = Some (c2, MissNoEvict)"
      using c2(1) by (simp add: admit_eq[OF z(1)] evicted_result_def)
    moreover have "arc_within B c2"
      by (intro arc_withinI c2(2)) (use w d z all in \<open>auto simp: all_keys_def\<close>)
    moreover have "requested page is_pinned c MissNoEvict c2"
      using w page \<open>length (t1_keys c) + length (t2_keys c) < a_capacity c\<close> card_resident[OF z(1)]
      by (auto simp: requested_def resident_def all_keys_def)
    ultimately show ?thesis by auto
  qed
qed

lemma promote:
  assumes "arc_lists c" "page \<in> set (t1_keys c)"
  obtains t t' where "lhs_remove page (a_t1 c) = Some (t, Inr ())" "lhs_insert page (a_t2 c) = Some (t', Inr ())"
    "arc_lists (c\<lparr>a_t1 := t, a_t2 := t'\<rparr>)" "keys_of t = remove1 page (t1_keys c)" "keys_of t' = page # t2_keys c"
proof -
  have ok: "lhs_ok (a_t1 c)" "lhs_ok (a_t2 c)" using assms by (auto simp: arc_lists_def)
  obtain t where t: "lhs_remove page (a_t1 c) = Some (t, Inr ())" "lhs_ok t" "keys_of t = remove1 page (t1_keys c)"
    using lhs.del_law[OF ok(1) assms(2)] by blast
  obtain t' where t': "lhs_insert page (a_t2 c) = Some (t', Inr ())" "lhs_ok t'" "keys_of t' = page # remove1 page (t2_keys c)"
    using lhs.ins_law[OF ok(2)] by blast
  have "page \<notin> set (t2_keys c)" using assms by (auto simp: arc_lists_def all_keys_def)
  then show ?thesis
    by (intro that[OF t(1) t'(1)]) (use assms t t' in \<open>auto simp: arc_lists_def all_keys_def remove1_idem set_remove1_eq\<close>)
qed

lemma refresh:
  assumes "arc_lists c" "page \<in> set (t2_keys c)"
  obtains t where "move_to_front page (a_t2 c) = Some (t, Inr ())" "arc_lists (c\<lparr>a_t2 := t\<rparr>)"
    "keys_of t = page # remove1 page (t2_keys c)"
proof -
  have ok: "lhs_ok (a_t2 c)" using assms by (auto simp: arc_lists_def)
  obtain t where t: "move_to_front page (a_t2 c) = Some (t, Inr ())" "lhs_ok t" "keys_of t = page # remove1 page (t2_keys c)"
    using lhs.front_law[OF ok assms(2)] by blast
  then show ?thesis
    by (intro that[OF t(1)]) (use assms in \<open>auto simp: arc_lists_def all_keys_def set_remove1_eq\<close>)
qed

lemma hit_within:
  assumes ok: "arc_within B c" and page: "page \<in> resident c"
  shows "\<exists>c'. request page is_pinned c = Some (c', Hit) \<and> touch page c = Some (c', True) \<and> arc_within B c' \<and>
    resident c' = resident c \<and> a_capacity c' = a_capacity c"
proof (cases "page \<in> set (t1_keys c)")
  case True
  note z = arc_withinD[OF ok]
  have f: "set (remove1 page (t1_keys c)) = set (t1_keys c) - {page}"
      "Suc (length (remove1 page (t1_keys c))) = length (t1_keys c)"
    using remove1_facts[OF _ True] z(1) by (auto simp: arc_lists_def all_keys_def)
  obtain t t' where t: "lhs_remove page (a_t1 c) = Some (t, Inr ())" "lhs_insert page (a_t2 c) = Some (t', Inr ())"
      "arc_lists (c\<lparr>a_t1 := t, a_t2 := t'\<rparr>)" "keys_of t = remove1 page (t1_keys c)" "keys_of t' = page # t2_keys c"
    using promote[OF z(1) True] by blast
  let ?c = "c\<lparr>a_t1 := t, a_t2 := t'\<rparr>"
  have "arc_within B ?c" by (intro arc_withinI t(3)) (use z t(4,5) f in \<open>auto simp: all_keys_def\<close>)
  moreover have "resident ?c = resident c" using t(4,5) f True by (auto simp: resident_def)
  ultimately show ?thesis using True t(1,2) by (simp add: request_def touch_def arc_lists_lookup[OF z(1)])
next
  case False
  then have p: "page \<in> set (t2_keys c)" using page by (auto simp: resident_def)
  note z = arc_withinD[OF ok]
  have f: "set (remove1 page (t2_keys c)) = set (t2_keys c) - {page}"
      "Suc (length (remove1 page (t2_keys c))) = length (t2_keys c)"
    using remove1_facts[OF _ p] z(1) by (auto simp: arc_lists_def all_keys_def)
  obtain t where t: "move_to_front page (a_t2 c) = Some (t, Inr ())" "arc_lists (c\<lparr>a_t2 := t\<rparr>)"
      "keys_of t = page # remove1 page (t2_keys c)"
    using refresh[OF z(1) p] by blast
  let ?c = "c\<lparr>a_t2 := t\<rparr>"
  have "arc_within B ?c" by (intro arc_withinI t(2)) (use z t(3) f in \<open>auto simp: all_keys_def\<close>)
  moreover have "resident ?c = resident c" using t(3) f p by (auto simp: resident_def)
  ultimately show ?thesis using False p t(1) by (simp add: request_def touch_def arc_lists_lookup[OF z(1)])
qed

lemma request_within:
  assumes ok: "arc_within B c"
  shows "\<exists>c' r. request page is_pinned c = Some (c', r) \<and> arc_within B c' \<and> requested page is_pinned c r c'"
proof -
  note look = arc_lists_lookup[OF arc_withinD(1)[OF ok]]
  consider (hit) "page \<in> resident c"
    | (b1) "page \<notin> resident c" "page \<in> set (b1_keys c)"
    | (b2) "page \<notin> resident c" "page \<notin> set (b1_keys c)" "page \<in> set (b2_keys c)"
    | (miss) "page \<notin> set (all_keys c)"
    by (auto simp: resident_def all_keys_def)
  then show ?thesis
  proof cases
    case hit
    with hit_within[OF ok hit, of is_pinned] show ?thesis by (auto simp: requested_def)
  next
    case b1
    with request_ghost1_law[OF ok b1(2), of is_pinned] show ?thesis
      by (simp add: request_def look resident_def)
  next
    case b2
    with request_ghost2_law[OF ok b2(3), of is_pinned] show ?thesis
      by (simp add: request_def look resident_def)
  next
    case miss
    with request_miss_law[OF ok miss, of is_pinned] show ?thesis
      by (simp add: request_def look all_keys_def)
  qed
qed

lemmas request_law = request_within[of True, folded arc_ok_within]

section \<open>Taking pages out and putting them back\<close>

lemma remove_law:
  assumes "arc_lists c"
  shows "\<exists>c'. arc_remove page c = Some (c', Inr ()) \<and> arc_lists c' \<and>
    view c' = (a_capacity c, a_p c, remove1 page (t1_keys c), remove1 page (t2_keys c),
      remove1 page (b1_keys c), remove1 page (b2_keys c))"
proof -
  note look = arc_lists_lookup[OF assms]
  have ok: "lhs_ok (a_t1 c)" "lhs_ok (a_t2 c)" "lhs_ok (a_b1 c)" "lhs_ok (a_b2 c)" and d: "distinct (all_keys c)"
    using assms by (auto simp: arc_lists_def)
  note simps = arc_remove_def look view_def arc_lists_def all_keys_def remove1_idem set_remove1_eq
  consider (t1) "page \<in> set (t1_keys c)"
    | (t2) "page \<notin> set (t1_keys c)" "page \<in> set (t2_keys c)"
    | (b1) "page \<notin> set (t1_keys c)" "page \<notin> set (t2_keys c)" "page \<in> set (b1_keys c)"
    | (b2) "page \<notin> set (t1_keys c)" "page \<notin> set (t2_keys c)" "page \<notin> set (b1_keys c)" "page \<in> set (b2_keys c)"
    | (none) "page \<notin> set (all_keys c)"
    by (auto simp: all_keys_def)
  then show ?thesis
  proof cases
    case t1
    with lhs.del_law[OF ok(1) t1] ok d show ?thesis by (fastforce simp: simps)
  next
    case t2
    with lhs.del_law[OF ok(2) t2(2)] ok d show ?thesis by (fastforce simp: simps)
  next
    case b1
    with lhs.del_law[OF ok(3) b1(3)] ok d show ?thesis by (fastforce simp: simps)
  next
    case b2
    with lhs.del_law[OF ok(4) b2(4)] ok d show ?thesis by (fastforce simp: simps)
  next
    case none
    with ok d show ?thesis by (simp add: simps)
  qed
qed

lemma arc_remove_ok:
  assumes "arc_ok c"
  shows "\<exists>c'. arc_remove page c = Some (c', Inr ()) \<and> arc_ok c' \<and> resident c' = resident c - {page} \<and>
    a_capacity c' = a_capacity c"
proof -
  note z = arc_okD[OF assms]
  obtain c' where c': "arc_remove page c = Some (c', Inr ())" "arc_lists c'"
      "view c' = (a_capacity c, a_p c, remove1 page (t1_keys c), remove1 page (t2_keys c),
        remove1 page (b1_keys c), remove1 page (b2_keys c))"
    using remove_law[OF z(1)] by blast
  note w = viewD[OF c'(3)]
  have le: "length (remove1 page xs) \<le> length xs" for xs :: "nat list" by (simp add: length_remove1)
  have "arc_ok c'"
    by (intro arc_okI c'(2)) (unfold w all_keys_def length_append,
      use z le[of "t1_keys c"] le[of "t2_keys c"] le[of "b1_keys c"] le[of "b2_keys c"] in
        \<open>simp_all add: all_keys_def\<close>)
  moreover have "resident c' = resident c - {page}"
    using w z(1) by (auto simp: resident_def arc_lists_def all_keys_def set_remove1_eq)
  ultimately show ?thesis using c'(1) w(1) by blast
qed

lemma reinstate_law:
  assumes l: "arc_lists c" and v: "v \<notin> resident c"
  shows "\<exists>c'. reinstate v c = Some c' \<and> arc_lists c' \<and>
    view c' = (if v \<in> set (b2_keys c)
      then (a_capacity c, a_p c, t1_keys c, v # t2_keys c, b1_keys c, remove1 v (b2_keys c))
      else (a_capacity c, a_p c, v # t1_keys c, t2_keys c, remove1 v (b1_keys c), b2_keys c))"
proof -
  have ok: "lhs_ok (a_t1 c)" "lhs_ok (a_t2 c)" "lhs_ok (a_b1 c)" "lhs_ok (a_b2 c)" and d: "distinct (all_keys c)"
    using l by (auto simp: arc_lists_def)
  obtain t1 where t1: "lhs_insert v (a_t1 c) = Some (t1, Inr ())" "lhs_ok t1" "keys_of t1 = v # remove1 v (t1_keys c)"
    using lhs.ins_law[OF ok(1)] by blast
  obtain t2 where t2: "lhs_insert v (a_t2 c) = Some (t2, Inr ())" "lhs_ok t2" "keys_of t2 = v # remove1 v (t2_keys c)"
    using lhs.ins_law[OF ok(2)] by blast
  obtain b1 where b1: "ok_drop (lhs_remove v (a_b1 c)) = Some b1" "lhs_ok b1" "keys_of b1 = remove1 v (b1_keys c)"
    using lhs.del_law[OF ok(3), of v] lhs.del_absent[OF ok(3), of v] ok(3)
    by (cases "v \<in> set (b1_keys c)") (auto simp: remove1_idem)
  obtain b2 where b2: "ok_drop (lhs_remove v (a_b2 c)) = Some b2" "lhs_ok b2" "keys_of b2 = remove1 v (b2_keys c)"
    using lhs.del_law[OF ok(4), of v] lhs.del_absent[OF ok(4), of v] ok(4)
    by (cases "v \<in> set (b2_keys c)") (auto simp: remove1_idem)
  show ?thesis
  proof (cases "v \<in> set (b2_keys c)")
    case True
    with t2 b2 ok d v show ?thesis
      by (auto simp: reinstate_def arc_lists_lookup[OF l] view_def arc_lists_def all_keys_def resident_def
          remove1_idem set_remove1_eq)
  next
    case False
    with t1 b1 ok d v show ?thesis
      by (auto simp: reinstate_def arc_lists_lookup[OF l] view_def arc_lists_def all_keys_def resident_def
          remove1_idem set_remove1_eq)
  qed
qed

text \<open>
  A declined victim and the page it made room for, exchanged back. The ghost the victim left, or the page's
  place in \<open>t1\<close>, is the slot it returns to.
\<close>

lemma give_back_law:
  assumes ok: "arc_ok c" and page: "page \<in> resident c" and v: "v \<notin> resident c"
    and slot: "v \<in> set (b1_keys c) \<union> set (b2_keys c) \<or> page \<in> set (t1_keys c)"
  shows "\<exists>c'. give_back True v page c = Some c' \<and> arc_ok c' \<and> resident c' = insert v (resident c - {page}) \<and>
    a_capacity c' = a_capacity c"
proof -
  note z = arc_okD[OF ok]
  have ne: "v \<noteq> page" using page v by blast
  have d: "distinct (t1_keys c)" "distinct (t2_keys c)" "distinct (b1_keys c)" "distinct (b2_keys c)"
      "set (t1_keys c) \<inter> set (t2_keys c) = {}" "page \<notin> set (b1_keys c)" "page \<notin> set (b2_keys c)"
    using z(1) page by (auto simp: arc_lists_def all_keys_def resident_def)
  obtain c1 where c1: "reinstate v c = Some c1" "arc_lists c1" and c1v:
      "view c1 = (if v \<in> set (b2_keys c)
        then (a_capacity c, a_p c, t1_keys c, v # t2_keys c, b1_keys c, remove1 v (b2_keys c))
        else (a_capacity c, a_p c, v # t1_keys c, t2_keys c, remove1 v (b1_keys c), b2_keys c))"
    using reinstate_law[OF z(1) v] by blast
  obtain c2 where c2: "arc_remove page c1 = Some (c2, Inr ())" "arc_lists c2"
      "view c2 = (a_capacity c1, a_p c1, remove1 page (t1_keys c1), remove1 page (t2_keys c1),
        remove1 page (b1_keys c1), remove1 page (b2_keys c1))"
    using remove_law[OF c1(2)] by blast
  note w = viewD[OF c2(3)]
  have t: "length (remove1 page (t1_keys c)) + length (remove1 page (t2_keys c)) + 1 =
      length (t1_keys c) + length (t2_keys c)"
    using page d(5) by (auto simp: resident_def length_remove1 dest: length_pos_if_in_set)
  have le: "length (remove1 x xs) \<le> length xs" for x and xs :: "nat list" by (simp add: length_remove1)
  have "arc_ok c2 \<and> resident c2 = insert v (resident c - {page}) \<and> a_capacity c2 = a_capacity c"
  proof (cases "v \<in> set (b2_keys c)")
    case True
    note x = viewD[OF c1v[unfolded if_P[OF True]]]
    have "Suc (length (remove1 v (b2_keys c))) = length (b2_keys c)" using remove1_facts[OF d(4) True] by blast
    then have "arc_ok c2"
      by (intro arc_okI c2(2)) (use w x z t ne d(6) le[of page "t1_keys c"] le[of page "remove1 v (b2_keys c)"]
        in \<open>auto simp: all_keys_def remove1_idem\<close>)
    moreover have "resident c2 = insert v (resident c - {page})"
      using w x ne d(1,2) by (auto simp: resident_def set_remove1_eq)
    ultimately show ?thesis using w(1) x(1) by simp
  next
    case False
    note x = viewD[OF c1v[unfolded if_not_P[OF False]]]
    have b: "if v \<in> set (b1_keys c) then Suc (length (remove1 v (b1_keys c))) = length (b1_keys c)
       else remove1 v (b1_keys c) = b1_keys c \<and> Suc (length (remove1 page (t1_keys c))) = length (t1_keys c)"
      using remove1_facts[OF d(3)] slot False remove1_facts[OF d(1)] by (auto simp: remove1_idem)
    have "page \<notin> set (remove1 v (b1_keys c))" using d(6) by (metis notin_set_remove1)
    then have "arc_ok c2"
      by (intro arc_okI c2(2)) (use w x z t b ne d(7) le[of page "t1_keys c"] le[of page "t2_keys c"]
        in \<open>auto simp: all_keys_def remove1_idem split: if_splits\<close>)
    moreover have "resident c2 = insert v (resident c - {page})"
      using w x ne d(1,2) by (auto simp: resident_def set_remove1_eq)
    ultimately show ?thesis using w(1) x(1) by simp
  qed
  then show ?thesis using c1(1) c2(1) by (simp add: give_back_def)
qed

lemma arc_new_ok: "arc_ok (arc_new n)" "resident (arc_new n) = {}" "a_capacity (arc_new n) = n"
  using lhs_new_ok by (auto simp: arc_new_def arc_ok_def arc_lists_def arc_sizes_def all_keys_def resident_def)

lemma touch_within:
  assumes "arc_within B c"
  shows "\<exists>c'. touch page c = Some (c', page \<in> resident c) \<and> arc_within B c' \<and> resident c' = resident c \<and>
    a_capacity c' = a_capacity c"
proof (cases "page \<in> resident c")
  case True
  with hit_within[OF assms True, of "\<lambda>_. True"] show ?thesis by auto
next
  case False
  with assms show ?thesis
    by (simp add: touch_def resident_def arc_lists_lookup[OF arc_withinD(1)[OF assms]])
qed

lemmas touch_law = touch_within[of True, folded arc_ok_within]

lemma fault_in_law:
  assumes "arc_ok c"
  shows "\<exists>c'. fault_in page is_pinned got c = Some c' \<and> arc_ok c' \<and> a_capacity c' = a_capacity c"
proof -
  obtain c1 r where r: "request page is_pinned c = Some (c1, r)" "arc_ok c1" "requested page is_pinned c r c1"
    using request_law[OF assms] by blast
  have cap: "a_capacity c1 = a_capacity c" using r(3) by (simp add: requested_def)
  obtain c2 where c2: "ok_drop (arc_remove page c1) = Some c2" "arc_ok c2" "a_capacity c2 = a_capacity c1"
    using arc_remove_ok[OF r(2), of page] by (metis ok_drop_simps)
  show ?thesis
  proof (cases r)
    case (MissEvict v)
    then have v: "page \<in> resident c1" "v \<notin> resident c1"
        "v \<in> set (b1_keys c1) \<union> set (b2_keys c1) \<or> page \<in> set (t1_keys c1)"
      using r(3) by (auto simp: requested_def)
    show ?thesis
      using MissEvict r(1,2) c2 cap give_back_law[OF r(2) v]
      by (cases got) (auto simp: fault_in_def give_back_def)
  qed (use r(1,2) c2 cap in \<open>auto simp: fault_in_def\<close>)
qed

lemma arc_calls_law:
  "arc_ok c \<Longrightarrow> \<exists>c'. arc_calls cs c = Some c' \<and> arc_ok c' \<and> a_capacity c' = a_capacity c"
proof (induction cs arbitrary: c)
  case (Cons x cs)
  have "\<exists>c1. do_arc_call x c = Some c1 \<and> arc_ok c1 \<and> a_capacity c1 = a_capacity c"
  proof (cases x)
    case (ATouch page)
    then show ?thesis using touch_law[OF Cons.prems, of page] by auto
  next
    case (ARemove page)
    then show ?thesis using arc_remove_ok[OF Cons.prems, of page] by auto
  qed (use fault_in_law[OF Cons.prems] in auto)
  then obtain c1 where "do_arc_call x c = Some c1" "arc_ok c1" "a_capacity c1 = a_capacity c" by blast
  with Cons.IH[of c1] show ?case by auto
qed simp

section \<open>The properties\<close>


text \<open>
  (C23) What a request answers. On every cache within its bounds \<open>request\<close> returns; it is a hit exactly when
  the page is resident, and \<open>PoolFull\<close> exactly when the page is not, the pool is full and every resident page is
  pinned. A victim is a resident page that is not pinned, a miss without one leaves the page a free frame, and
  the resident pages afterwards are the ones before, less the victim, with the page.
\<close>

theorem arc_request_outcome:
  assumes "arc_ok c"
  shows "\<exists>c' r. request page is_pinned c = Some (c', r) \<and> arc_ok c' \<and>
    (r = Hit \<longleftrightarrow> page \<in> resident c) \<and>
    (r = PoolFull \<longleftrightarrow> page \<notin> resident c \<and> card (resident c) = a_capacity c \<and> resident c \<subseteq> {k. is_pinned k}) \<and>
    (r = MissNoEvict \<longrightarrow> card (resident c) < a_capacity c) \<and>
    (\<forall>v. r = MissEvict v \<longrightarrow> v \<in> resident c \<and> \<not> is_pinned v) \<and>
    resident c' = (case r of
       Hit \<Rightarrow> resident c
     | MissEvict v \<Rightarrow> insert page (resident c - {v})
     | MissNoEvict \<Rightarrow> insert page (resident c)
     | PoolFull \<Rightarrow> resident c)"
proof -
  obtain c' r where r: "request page is_pinned c = Some (c', r)" "arc_ok c'" "requested page is_pinned c r c'"
    using request_law[OF assms] by blast
  show ?thesis
    by (intro exI[of _ c'] exI[of _ r]) (use r in \<open>cases r; auto simp: requested_def\<close>)
qed

theorem arc_request_outcome_witness:
  "\<exists>c'. request 7 (\<lambda>_. False) (arc_new 2) = Some (c', MissNoEvict) \<and> resident c' = {7}"
proof -
  obtain c' r where r: "request 7 (\<lambda>_. False) (arc_new 2) = Some (c', r)"
      "r = Hit \<longleftrightarrow> 7 \<in> resident (arc_new 2)"
      "r = PoolFull \<longleftrightarrow> 7 \<notin> resident (arc_new 2) \<and> card (resident (arc_new 2)) = a_capacity (arc_new 2) \<and>
         resident (arc_new 2) \<subseteq> {k. False}"
      "\<And>v. r = MissEvict v \<Longrightarrow> v \<in> resident (arc_new 2)"
      "resident c' = (case r of Hit \<Rightarrow> resident (arc_new 2) | MissEvict v \<Rightarrow> insert 7 (resident (arc_new 2) - {v})
         | MissNoEvict \<Rightarrow> insert 7 (resident (arc_new 2)) | PoolFull \<Rightarrow> resident (arc_new 2))"
    using arc_request_outcome[OF arc_new_ok(1), of 7 "\<lambda>_. False" 2] by blast
  then have "r = MissNoEvict" by (cases r) (auto simp: arc_new_ok)
  with r show ?thesis by (simp add: arc_new_ok)
qed

text \<open>
  (C37) A declined eviction leaves no trace among the resident pages. When a request chose a victim and the
  pool then declines to give its frame up, \<open>give_back\<close> returns, the cache is within its bounds again, and the
  resident pages are exactly the ones before the request, the victim among them.
\<close>

theorem declined_eviction_undone:
  assumes "arc_ok c" "request page is_pinned c = Some (c', MissEvict victim)"
  shows "\<exists>c''. give_back True victim page c' = Some c'' \<and> arc_ok c'' \<and>
    victim \<in> resident c'' \<and> resident c'' = resident c"
proof -
  have r: "arc_ok c'" "requested page is_pinned c (MissEvict victim) c'"
    using request_law[OF assms(1), of page is_pinned] assms(2) by auto
  then have v: "page \<in> resident c'" "victim \<notin> resident c'"
      "victim \<in> set (b1_keys c') \<union> set (b2_keys c') \<or> page \<in> set (t1_keys c')"
    and "insert victim (resident c' - {page}) = resident c" "victim \<in> resident c"
    by (auto simp: requested_def)
  with give_back_law[OF r(1) v] show ?thesis by auto
qed

definition one_page :: arc_cache where
  "one_page = (arc_new 1)\<lparr>a_t1 := \<lparr>s_map = [(5, 0)],
     s_nodes = [\<lparr>n_key = 5, n_next = None, n_prev = None\<rparr>],
     s_tail = Some 0, s_head = Some 0, s_free = []\<rparr>\<rparr>"

lemma one_page_ok: "arc_ok one_page" "resident one_page = {5}" "a_capacity one_page = 1"
  using lhs_new_ok
  by (auto simp: one_page_def arc_new_def arc_ok_def arc_lists_def arc_sizes_def all_keys_def resident_def
      lhs_ok_def lhs_at_def ids_of_def keys_of_def first_of_def last_of_def lessThan_Suc)

theorem declined_eviction_undone_witness:
  "\<exists>c' c''. request 7 (\<lambda>_. False) one_page = Some (c', MissEvict 5) \<and> give_back True 5 7 c' = Some c'' \<and>
     resident c'' = {5}"
proof -
  obtain c' r where r: "request 7 (\<lambda>_. False) one_page = Some (c', r)" "requested 7 (\<lambda>_. False) one_page r c'"
    using request_law[OF one_page_ok(1)] by blast
  then have "r = MissEvict 5" by (cases r) (auto simp: requested_def one_page_ok)
  with r declined_eviction_undone[OF one_page_ok(1), of 7 "\<lambda>_. False" c' 5] show ?thesis
    by (auto simp: one_page_ok)
qed

end
