(* ===== verification/Arc_Sections.thy ===== *)
theory Arc_Sections
  imports Arc_Cache
begin

text \<open>
  How \<open>buffer/buffer_pool.rs\<close> shares the replacement cache between threads. A fault does not hold the cache's
  lock across its disk accesses: \<open>fault_in\<close> locks it once for the verdict and, after the eviction was tried or the
  read failed, once more to put things right. Between the two any other thread may use the cache. So each lock
  section is one step here, and the faults under way are part of the state: the page being brought in and, until
  its frame was taken, the victim the verdict named.
\<close>

section \<open>The sections\<close>

record arc_pool =
  ap_cache :: arc_cache
  ap_flight :: "(nat \<times> nat option) list"

definition pool_new :: "nat \<Rightarrow> arc_pool" where
  "pool_new n = \<lparr>ap_cache = arc_new n, ap_flight = []\<rparr>"

abbreviation flying :: "arc_pool \<Rightarrow> nat set" where
  "flying s \<equiv> fst ` set (ap_flight s)"

definition victims :: "arc_pool \<Rightarrow> nat list" where
  "victims s = List.map_filter snd (ap_flight s)"

text \<open>
  \<open>is_pinned\<close>: a page the page table cannot resolve counts as pinned, and a page being faulted in is not in the
  table until it is published. Of the others, \<open>pinned\<close> lists the ones whose frame has a pin.
\<close>

definition is_pinned :: "arc_pool \<Rightarrow> nat list \<Rightarrow> nat \<Rightarrow> bool" where
  "is_pinned s pinned page \<longleftrightarrow> page \<in> set (map fst (ap_flight s)) \<or> page \<in> set pinned"

text \<open>The verdict. A page found resident is one the pool just saw is not in the table; the claim comes off later.\<close>

definition fault_verdict :: "nat \<Rightarrow> nat list \<Rightarrow> arc_pool \<Rightarrow> (arc_pool \<times> arc_result) option" where
  "fault_verdict page pinned s = do {
     (c, verdict) \<leftarrow> request page (is_pinned s pinned) (ap_cache s);
     Some (s\<lparr>ap_cache := c, ap_flight := (case verdict of
         PoolFull \<Rightarrow> ap_flight s
       | MissEvict victim \<Rightarrow> (page, Some victim) # ap_flight s
       | _ \<Rightarrow> (page, None) # ap_flight s)\<rparr>, verdict)
   }"

definition landed :: "nat \<Rightarrow> arc_pool \<Rightarrow> arc_pool" where
  "landed page s = s\<lparr>ap_flight := filter (\<lambda>f. fst f \<noteq> page) (ap_flight s)\<rparr>"

text \<open>\<open>evict_into\<close> took the victim's frame: there is nothing left to give back.\<close>

definition took_frame :: "nat \<Rightarrow> arc_pool \<Rightarrow> arc_pool" where
  "took_frame page s = s\<lparr>ap_flight := map (\<lambda>f. if fst f = page then (page, None) else f) (ap_flight s)\<rparr>"

text \<open>The victim was declined, or is gone.\<close>

definition fault_give_back :: "nat \<Rightarrow> bool \<Rightarrow> arc_pool \<Rightarrow> arc_pool option" where
  "fault_give_back page declined s =
     (case map_of (ap_flight s) page of
        Some (Some victim) \<Rightarrow> do {
          c \<leftarrow> give_back declined victim page (ap_cache s);
          Some (landed page (s\<lparr>ap_cache := c\<rparr>))
        }
      | _ \<Rightarrow> Some s)"

text \<open>No frame was free, the read failed, or the cache's claim was false: the page comes off.\<close>

definition fault_forget :: "nat \<Rightarrow> arc_pool \<Rightarrow> arc_pool option" where
  "fault_forget page s = do {
     c \<leftarrow> ok_drop (arc_remove page (ap_cache s));
     Some (landed page (s\<lparr>ap_cache := c\<rparr>))
   }"

datatype arc_section =
    SVerdict nat "nat list"
  | STook nat
  | SGiveBack nat bool
  | SForget nat
  | SPublish nat
  | STouch nat
  | SRemove nat

fun do_section :: "arc_section \<Rightarrow> arc_pool \<Rightarrow> arc_pool option" where
  "do_section (SVerdict page pinned) s = map_option fst (fault_verdict page pinned s)"
| "do_section (STook page) s = Some (took_frame page s)"
| "do_section (SGiveBack page declined) s = fault_give_back page declined s"
| "do_section (SForget page) s = fault_forget page s"
| "do_section (SPublish page) s = Some (landed page s)"
| "do_section (STouch page) s = map_option (\<lambda>(c, _). s\<lparr>ap_cache := c\<rparr>) (touch page (ap_cache s))"
| "do_section (SRemove page) s = map_option (\<lambda>c. s\<lparr>ap_cache := c\<rparr>) (ok_drop (arc_remove page (ap_cache s)))"

text \<open>
  When the pool runs a section. A page is faulted in by one thread at a time (the \<open>in_transit\<close> set), and a victim
  whose fate is open is still in the page table, so that a fetch of it is a hit and not a fault -- unless it is
  freed and fetched again just between the decision to decline it and \<open>give_back\<close>. A page that is freed is not one
  being faulted in: it is in the page table when \<open>delete_page\<close> and \<open>free_page\<close> look, and \<open>free_pages\<close> and
  \<open>invalidate_all\<close> refuse a page in transit; a fetch of a page overtaking its own deletion is left out. Touches are
  batched and may come late, for any page.
\<close>

fun enabled :: "arc_section \<Rightarrow> arc_pool \<Rightarrow> bool" where
  "enabled (SVerdict page pinned) s \<longleftrightarrow> page \<notin> set (map fst (ap_flight s)) \<and> page \<notin> set (victims s)"
| "enabled (STook page) s \<longleftrightarrow> (case map_of (ap_flight s) page of Some (Some v) \<Rightarrow> True | _ \<Rightarrow> False)"
| "enabled (SGiveBack page declined) s \<longleftrightarrow> (case map_of (ap_flight s) page of Some (Some v) \<Rightarrow> True | _ \<Rightarrow> False)"
| "enabled (SForget page) s \<longleftrightarrow> map_of (ap_flight s) page = Some None"
| "enabled (SPublish page) s \<longleftrightarrow> map_of (ap_flight s) page = Some None"
| "enabled (STouch page) s \<longleftrightarrow> True"
| "enabled (SRemove page) s \<longleftrightarrow> page \<notin> set (map fst (ap_flight s))"

fun sections :: "arc_section list \<Rightarrow> arc_pool \<Rightarrow> arc_pool option" where
  "sections [] s = Some s"
| "sections (x # xs) s = do { s \<leftarrow> do_section x s; sections xs s }"

fun scheduled :: "arc_section list \<Rightarrow> arc_pool \<Rightarrow> bool" where
  "scheduled [] s = True"
| "scheduled (x # xs) s \<longleftrightarrow> enabled x s \<and> (case do_section x s of None \<Rightarrow> True | Some t \<Rightarrow> scheduled xs t)"

section \<open>The invariant\<close>

text \<open>
  Whatever is in flight counts as resident, so it can be taken off again, and a victim whose fate is open does not,
  so it can be put back; no two faults have the same page or the same victim.
\<close>

definition pool_ok :: "nat \<Rightarrow> arc_pool \<Rightarrow> bool" where
  "pool_ok n s \<longleftrightarrow> arc_within False (ap_cache s) \<and> a_capacity (ap_cache s) = n \<and>
     distinct (map fst (ap_flight s)) \<and> distinct (victims s) \<and>
     flying s \<subseteq> resident (ap_cache s) \<and> set (victims s) \<inter> resident (ap_cache s) = {}"

lemma victims_simps [simp]:
  "victims (s\<lparr>ap_flight := []\<rparr>) = []"
  "victims (s\<lparr>ap_flight := (p, None) # fs\<rparr>) = victims (s\<lparr>ap_flight := fs\<rparr>)"
  "victims (s\<lparr>ap_flight := (p, Some v) # fs\<rparr>) = v # victims (s\<lparr>ap_flight := fs\<rparr>)"
  "victims (s\<lparr>ap_cache := c\<rparr>) = victims s"
  by (simp_all add: victims_def List.map_filter_def)

lemma victims_set: "v \<in> set (victims s) \<longleftrightarrow> (\<exists>p. (p, Some v) \<in> set (ap_flight s))"
  by (force simp: victims_def List.map_filter_def)

lemma distinct_subseq: "subseq xs ys \<Longrightarrow> distinct ys \<Longrightarrow> distinct xs"
  by (induction rule: list_emb.induct) (auto dest: list_emb_set)

lemma victims_landed: "set (victims (landed page s)) \<subseteq> set (victims s)" "distinct (victims s) \<Longrightarrow> distinct (victims (landed page s))"
proof -
  have *: "subseq (List.map_filter snd (filter P fs)) (List.map_filter snd fs)" for P and fs :: "(nat \<times> nat option) list"
    by (induction fs) (auto simp: List.map_filter_def)
  show "set (victims (landed page s)) \<subseteq> set (victims s)" by (auto simp: victims_set landed_def)
  show "distinct (victims s) \<Longrightarrow> distinct (victims (landed page s))"
    using distinct_subseq[OF *] by (simp add: victims_def landed_def)
qed

lemma victims_took: "set (victims (took_frame page s)) \<subseteq> set (victims s)" "distinct (victims s) \<Longrightarrow> distinct (victims (took_frame page s))"
proof -
  have *: "subseq (List.map_filter snd (map (\<lambda>f. if fst f = page then (page, None) else f) fs)) (List.map_filter snd fs)"
    for fs :: "(nat \<times> nat option) list"
    by (induction fs) (auto simp: List.map_filter_def)
  show "set (victims (took_frame page s)) \<subseteq> set (victims s)"
    by (auto simp: victims_set took_frame_def split: if_splits)
  show "distinct (victims s) \<Longrightarrow> distinct (victims (took_frame page s))"
    using distinct_subseq[OF *] by (simp add: victims_def took_frame_def)
qed

lemma landed_flight:
  "map fst (ap_flight (landed page s)) = filter (\<lambda>p. p \<noteq> page) (map fst (ap_flight s))"
  "flying (landed page s) = flying s - {page}" "ap_cache (landed page s) = ap_cache s"
  by (auto simp: landed_def filter_map o_def)

lemma took_flight: "map fst (ap_flight (took_frame page s)) = map fst (ap_flight s)" "ap_cache (took_frame page s) = ap_cache s"
  by (auto simp: took_frame_def)

text \<open>The victim of a fault is nobody else's once the fault is over.\<close>

lemma landed_victim:
  assumes "distinct (victims s)" "distinct (map fst (ap_flight s))" "map_of (ap_flight s) page = Some (Some v)"
  shows "v \<notin> set (victims (landed page s))"
proof
  assume "v \<in> set (victims (landed page s))"
  then obtain q where q: "(q, Some v) \<in> set (ap_flight s)" "q \<noteq> page" by (auto simp: victims_set landed_def)
  have p: "(page, Some v) \<in> set (ap_flight s)" using assms(3) by (rule map_of_SomeD)
  have "p1 = p2" if "distinct (List.map_filter snd fs)" "(p1, Some v) \<in> set fs" "(p2, Some v) \<in> set fs" for p1 p2 fs
    using that
  proof (induction fs)
    case (Cons f fs)
    have "v \<in> set (List.map_filter snd fs)" if "(p, Some v) \<in> set fs" for p
      using that by (force simp: List.map_filter_def)
    with Cons show ?case by (cases f; cases "snd f") (auto simp: List.map_filter_def)
  qed simp
  from this[OF assms(1)[unfolded victims_def] p q(1)] q(2) show False by simp
qed

lemma verdict_ok:
  assumes ok: "pool_ok n s" and en: "enabled (SVerdict page pinned) s"
  shows "\<exists>t r. fault_verdict page pinned s = Some (t, r) \<and> pool_ok n t"
proof -
  obtain c r where r: "request page (is_pinned s pinned) (ap_cache s) = Some (c, r)" "arc_within False c"
      "requested page (is_pinned s pinned) (ap_cache s) r c"
    using request_within[of False "ap_cache s" page "is_pinned s pinned"] ok unfolding pool_ok_def by blast
  have fl: "x \<in> resident c" if "x \<in> flying s" for x
    using r(3) that ok by (cases r) (auto simp: requested_def is_pinned_def pool_ok_def)
  have vi: "x \<notin> resident c" if "x \<in> set (victims s)" for x
    using r(3) that ok en by (cases r) (auto simp: requested_def pool_ok_def)
  show ?thesis
  proof (cases r)
    case (MissEvict v)
    then have "page \<in> resident c" "v \<notin> resident c" "v \<in> resident (ap_cache s)" "a_capacity c = a_capacity (ap_cache s)"
      using r(3) by (auto simp: requested_def)
    then show ?thesis
      using MissEvict r(1,2) fl vi ok en by (auto simp: fault_verdict_def pool_ok_def)
  qed (use r fl vi ok en in \<open>auto simp: fault_verdict_def pool_ok_def requested_def\<close>)
qed

lemma remove_within:
  assumes "arc_within False c"
  shows "\<exists>c'. arc_remove page c = Some (c', Inr ()) \<and> arc_within False c' \<and> resident c' = resident c - {page} \<and>
    a_capacity c' = a_capacity c"
proof -
  note z = arc_withinD[OF assms]
  obtain c' where c': "arc_remove page c = Some (c', Inr ())" "arc_lists c'"
      "view c' = (a_capacity c, a_p c, remove1 page (t1_keys c), remove1 page (t2_keys c),
        remove1 page (b1_keys c), remove1 page (b2_keys c))"
    using remove_law[OF z(1)] by blast
  note w = viewD[OF c'(3)]
  have res: "resident c' = resident c - {page}"
    using w z(1) by (auto simp: resident_def arc_lists_def all_keys_def set_remove1_eq)
  have "card (resident c') \<le> card (resident c)" using res by (simp add: card_Diff1_le resident_def)
  then have "arc_within False c'"
    using z w(1,2) c'(2) card_resident[OF z(1)] card_resident[OF c'(2)] by (intro arc_withinI) auto
  then show ?thesis using c'(1) w(1) res by blast
qed

lemma give_back_within:
  assumes "arc_within False c" "page \<in> resident c" "v \<notin> resident c"
  shows "\<exists>c'. give_back declined v page c = Some c' \<and> arc_within False c' \<and> a_capacity c' = a_capacity c \<and>
    resident c' = (if declined then insert v (resident c - {page}) else resident c - {page})"
proof (cases declined)
  case False
  then show ?thesis using remove_within[OF assms(1), of page] by (auto simp: give_back_def)
next
  case True
  note z = arc_withinD[OF assms(1)]
  obtain c1 where c1: "reinstate v c = Some c1" "arc_lists c1" and c1v: "view c1 = (if v \<in> set (b2_keys c)
      then (a_capacity c, a_p c, t1_keys c, v # t2_keys c, b1_keys c, remove1 v (b2_keys c))
      else (a_capacity c, a_p c, v # t1_keys c, t2_keys c, remove1 v (b1_keys c), b2_keys c))"
    using reinstate_law[OF z(1) assms(3)] by blast
  have r1: "resident c1 = insert v (resident c)" "a_capacity c1 = a_capacity c" "a_p c1 = a_p c"
    using c1v by (auto simp: view_def resident_def split: if_splits)
  obtain c2 where c2: "arc_remove page c1 = Some (c2, Inr ())" "arc_lists c2"
      "view c2 = (a_capacity c1, a_p c1, remove1 page (t1_keys c1), remove1 page (t2_keys c1),
        remove1 page (b1_keys c1), remove1 page (b2_keys c1))"
    using remove_law[OF c1(2)] by blast
  note w = viewD[OF c2(3)]
  have res: "resident c2 = insert v (resident c - {page})"
    using w c1(2) r1(1) assms(2,3) by (auto simp: resident_def arc_lists_def all_keys_def set_remove1_eq)
  have fin: "finite (resident c)" by (simp add: resident_def)
  have "card (resident c2) = card (resident c)"
    unfolding res using assms(2,3) fin by (metis DiffD1 card.remove card_insert_disjoint finite_Diff)
  then have "arc_within False c2"
    using z w(1,2) r1(2,3) c2(2) card_resident[OF z(1)] card_resident[OF c2(2)] by (intro arc_withinI) auto
  then show ?thesis using True c1(1) c2(1) res w(1) r1(2) by (simp add: give_back_def)
qed

lemma landed_ok:
  assumes ok: "pool_ok n s" and c: "arc_within False c" "a_capacity c = n"
    and fl: "flying s - {page} \<subseteq> resident c" and vi: "set (victims (landed page s)) \<inter> resident c = {}"
  shows "pool_ok n (landed page (s\<lparr>ap_cache := c\<rparr>))"
proof -
  have "landed page (s\<lparr>ap_cache := c\<rparr>) = (landed page s)\<lparr>ap_cache := c\<rparr>" by (simp add: landed_def)
  moreover have "distinct (map fst (ap_flight (landed page s)))"
    unfolding landed_flight(1) using ok by (simp add: pool_ok_def)
  moreover have "distinct (victims (landed page s))" using ok victims_landed(2) by (simp add: pool_ok_def)
  ultimately show ?thesis
    using c fl vi landed_flight(2)[of page s] by (simp add: pool_ok_def)
qed

lemma section_ok:
  assumes ok: "pool_ok n s" and en: "enabled x s"
  shows "\<exists>t. do_section x s = Some t \<and> pool_ok n t"
proof (cases x)
  case (SVerdict page pinned)
  then show ?thesis using verdict_ok[OF ok, of page pinned] en by auto
next
  case (STook page)
  have "flying (took_frame page s) = flying s" by (metis took_flight(1) set_map)
  with ok have "pool_ok n (took_frame page s)"
    using victims_took[where page = page and s = s] unfolding pool_ok_def took_flight by blast
  then show ?thesis using STook by simp
next
  case (SGiveBack page declined)
  then obtain v where v: "map_of (ap_flight s) page = Some (Some v)" using en by (auto split: option.splits)
  then have pv: "(page, Some v) \<in> set (ap_flight s)" by (rule map_of_SomeD)
  have p: "page \<in> flying s" using pv by force
  have "v \<in> set (victims s)" using pv by (auto simp: victims_set)
  with p ok obtain c where c: "give_back declined v page (ap_cache s) = Some c" "arc_within False c" "a_capacity c = n"
      "resident c = (if declined then insert v (resident (ap_cache s) - {page}) else resident (ap_cache s) - {page})"
    using give_back_within[of "ap_cache s" page v declined] by (auto simp: pool_ok_def)
  have "v \<notin> set (victims (landed page s))" using landed_victim[OF _ _ v] ok by (simp add: pool_ok_def)
  then have "pool_ok n (landed page (s\<lparr>ap_cache := c\<rparr>))"
    using ok c(4) victims_landed(1)[of page s] by (intro landed_ok[OF ok c(2,3)]) (auto simp: pool_ok_def)
  then show ?thesis using SGiveBack v c(1) by (simp add: fault_give_back_def)
next
  case (SForget page)
  obtain c where c: "arc_remove page (ap_cache s) = Some (c, Inr ())" "arc_within False c" "a_capacity c = n"
      "resident c = resident (ap_cache s) - {page}"
    using remove_within[of "ap_cache s" page] ok by (auto simp: pool_ok_def)
  have "pool_ok n (landed page (s\<lparr>ap_cache := c\<rparr>))"
    using ok c(4) victims_landed(1)[of page s] by (intro landed_ok[OF ok c(2,3)]) (auto simp: pool_ok_def)
  then show ?thesis using SForget c(1) by (simp add: fault_forget_def)
next
  case (SPublish page)
  have "pool_ok n (landed page (s\<lparr>ap_cache := ap_cache s\<rparr>))"
    using ok victims_landed(1)[of page s] by (intro landed_ok[OF ok]) (auto simp: pool_ok_def)
  then show ?thesis using SPublish by simp
next
  case (STouch page)
  then show ?thesis using touch_within[of False "ap_cache s" page] ok by (auto simp: pool_ok_def)
next
  case (SRemove page)
  obtain c where c: "arc_remove page (ap_cache s) = Some (c, Inr ())" "arc_within False c" "a_capacity c = n"
      "resident c = resident (ap_cache s) - {page}"
    using remove_within[of "ap_cache s" page] ok by (auto simp: pool_ok_def)
  have "page \<notin> flying s" using SRemove en by simp
  then have "flying s \<subseteq> resident c" "set (victims s) \<inter> resident c = {}"
    using ok unfolding c(4) pool_ok_def by blast+
  then have "pool_ok n (s\<lparr>ap_cache := c\<rparr>)" using ok c(2,3) by (simp add: pool_ok_def)
  then show ?thesis using SRemove c(1) by simp
qed

lemma sections_ok: "pool_ok n s \<Longrightarrow> scheduled xs s \<Longrightarrow> \<exists>t. sections xs s = Some t \<and> pool_ok n t"
proof (induction xs arbitrary: s)
  case (Cons x xs)
  then obtain t where "do_section x s = Some t" "pool_ok n t" using section_ok[of n s x] by auto
  with Cons show ?case by auto
qed simp

lemma pool_new_ok: "pool_ok n (pool_new n)"
  using arc_new_ok[of n] arc_ok_within[of "arc_new n"]
  by (simp add: pool_ok_def pool_new_def victims_def List.map_filter_def arc_within_def)

section \<open>The properties\<close>

text \<open>
  (C11) The replacement cache under concurrent faults. Let threads run the buffer pool's sections on a new cache of
  \<open>n\<close> frames in any order the pool allows -- verdicts, evictions that took their victim or handed it back later,
  loads that failed or were published, late touches, removals of pages not in flight, with any pages pinned -- where
  a page is faulted in by one thread at a time and a victim whose fate is open is not itself faulted in. Then no
  \<open>unwrap\<close> of \<open>arc.rs\<close> fails, no page is in two lists, the resident lists never hold more pages than there are
  frames, the target \<open>p\<close> stays within the capacity, every page in flight counts as resident, and no victim whose
  fate is open does. (The ghost lists have no such bound then: \<open>ghosts_exceed\<close>.)
\<close>

theorem arc_cache_invariant:
  assumes "scheduled xs (pool_new n)"
  shows "\<exists>s. sections xs (pool_new n) = Some s \<and> a_capacity (ap_cache s) = n \<and> a_p (ap_cache s) \<le> n \<and>
    distinct (all_keys (ap_cache s)) \<and>
    length (t1_keys (ap_cache s)) + length (t2_keys (ap_cache s)) \<le> n \<and>
    flying s \<subseteq> resident (ap_cache s) \<and> set (victims s) \<inter> resident (ap_cache s) = {}"
  using sections_ok[OF pool_new_ok assms] by (auto simp: pool_ok_def arc_within_def arc_lists_def)

text \<open>
  Two frames. While the fault of page 0 still has to hand its victim back, page 3 is brought in. In the end \<open>t1\<close> and
  its ghosts hold five pages, more than the capacity and more than the four lists should: the tests of \<open>request\<close>
  that trim the ghosts ask for equality and no longer hold, and every further miss of an unknown page adds one.
\<close>

definition overtaking :: "arc_section list" where
  "overtaking = [SVerdict 0 [], SVerdict 1 [], SPublish 0, STouch 0, SVerdict 2 [], SPublish 1, STook 2, SPublish 2,
     SVerdict 0 [], SVerdict 3 [], SGiveBack 0 True, SVerdict 0 [], STook 0, SPublish 0, SVerdict 4 []]"

declare walk_unpinned.simps [code]

lemma ghosts_exceed:
  "scheduled overtaking (pool_new 2) \<and>
   (case sections overtaking (pool_new 2) of None \<Rightarrow> False
    | Some s \<Rightarrow> t1_keys (ap_cache s) = [4, 3] \<and> b1_keys (ap_cache s) = [0, 1, 2] \<and> length (all_keys (ap_cache s)) = 5)"
  by code_simp

theorem arc_cache_invariant_witness:
  "\<exists>s. sections overtaking (pool_new 2) = Some s \<and> length (t1_keys (ap_cache s)) + length (t2_keys (ap_cache s)) \<le> 2 \<and>
     {3, 4} \<subseteq> resident (ap_cache s)"
proof -
  have sch: "scheduled overtaking (pool_new 2)" using ghosts_exceed by simp
  obtain s where s: "sections overtaking (pool_new 2) = Some s" "flying s \<subseteq> resident (ap_cache s)"
      "length (t1_keys (ap_cache s)) + length (t2_keys (ap_cache s)) \<le> 2"
    using arc_cache_invariant[OF sch] by blast
  have "t1_keys (ap_cache s) = [4, 3]" using ghosts_exceed s(1) by simp
  then have "{3, 4} \<subseteq> resident (ap_cache s)" by (simp add: resident_def)
  with s(1,3) show ?thesis by blast
qed

end
