(* ===== verification/Crc32.thy ===== *)
theory Crc32
  imports Ferro_Prelude
begin

text \<open>
  The checksum of \<open>wal/log.rs\<close> that the write-ahead log and the round log put on every record: a CRC-32
  driven by a table of 256 words. One shift of the register is linear and injective, so each step of the loop is
  injective too, and damage to any one byte changes the checksum.
\<close>

unbundle bit_operations_syntax

type_synonym u32 = "32 word"

definition crc_shift :: "u32 \<Rightarrow> u32" where
  "crc_shift c = (if c AND 1 = 1 then (drop_bit 1 c) XOR 3988292384 else drop_bit 1 c)"

definition crc32_entry :: "nat \<Rightarrow> u32" where
  "crc32_entry i = (crc_shift ^^ 8) (word_of_nat i)"

definition crc32_table :: "u32 list" where
  "crc32_table = map crc32_entry [0..<256]"

definition crc_step :: "u32 \<Rightarrow> byte \<Rightarrow> u32" where
  "crc_step c b = (drop_bit 8 c) XOR (crc32_table ! unat ((c XOR ucast b) AND 255))"

definition crc32 :: "byte list \<Rightarrow> u32" where
  "crc32 bs = foldl crc_step 4294967295 bs XOR 4294967295"

section \<open>The table is the bitwise division\<close>

lemma crc_shift_alt: "crc_shift c = (if odd c then drop_bit 1 c XOR 3988292384 else drop_bit 1 c)"
  by (simp add: crc_shift_def and_one_eq odd_iff_mod_2_eq_one)

lemma xor_cancel: "(a XOR b) XOR b = (a :: u32)"
  by (simp add: xor.assoc)

lemma xor_zero: "a XOR b = (0 :: u32) \<longleftrightarrow> a = b"
  by (metis xor_cancel xor.left_neutral xor_self_eq)

lemma odd_xor: "odd (x XOR y) \<longleftrightarrow> odd x \<noteq> odd (y :: u32)"
  by (simp add: even_xor_iff)

lemma crc_shift_linear: "crc_shift (x XOR y) = crc_shift x XOR crc_shift y"
  by (auto simp: crc_shift_alt odd_xor drop_bit_xor xor.assoc xor.left_commute xor.commute)

lemma crc_shifts_linear: "(crc_shift ^^ n) (x XOR y) = (crc_shift ^^ n) x XOR (crc_shift ^^ n) y"
  by (induction n) (simp_all add: crc_shift_linear)

lemma crc_shift_zero: "crc_shift z = 0 \<Longrightarrow> z = 0"
proof (cases "odd z")
  case True
  assume "crc_shift z = 0"
  with True have "drop_bit 1 z = 3988292384" by (simp add: crc_shift_alt xor_zero)
  then have "bit (drop_bit 1 z) 31" by (simp add: bit_numeral_rec)
  then have "bit z 32" by (simp add: bit_drop_bit_eq)
  then show ?thesis using bit_imp_le_length by fastforce
next
  case False
  assume "crc_shift z = 0"
  with False have "drop_bit 1 z = 0" "even z" by (auto simp: crc_shift_alt)
  then have "z div 2 = 0" "z mod 2 = 0" by (simp_all add: drop_bit_Suc even_iff_mod_2_eq_zero)
  then show ?thesis using div_mult_mod_eq[of z 2] by simp
qed

lemma crc_shift_inj: "crc_shift x = crc_shift y \<longleftrightarrow> x = y"
proof
  assume "crc_shift x = crc_shift y"
  then have "crc_shift (x XOR y) = 0" by (simp add: crc_shift_linear)
  then show "x = y" using crc_shift_zero xor_zero by blast
qed simp

lemma crc_shifts_inj: "(crc_shift ^^ n) x = (crc_shift ^^ n) y \<longleftrightarrow> x = y"
  by (induction n) (simp_all add: crc_shift_inj)

lemma crc_shifts_high:
  "take_bit n x = 0 \<Longrightarrow> (crc_shift ^^ n) x = drop_bit n x"
proof (induction n arbitrary: x)
  case (Suc n)
  have "even x" using Suc.prems by (metis even_take_bit_eq dvd_0_right nat.simps(3))
  then have "crc_shift x = drop_bit 1 x" by (simp add: crc_shift_alt)
  moreover have "take_bit n (drop_bit 1 x) = 0"
    using Suc.prems by (metis One_nat_def Suc_eq_plus1 drop_bit_take_bit add_diff_cancel_right' drop_bit_of_0)
  ultimately have "(crc_shift ^^ n) (crc_shift x) = drop_bit n (drop_bit 1 x)" using Suc.IH by simp
  then show ?case by (simp add: funpow_swap1 add.commute)
qed simp

lemma split_low: "x = (x AND m) XOR (x AND NOT m)" for x :: u32
  by (rule bit_eqI) (auto simp: bit_xor_iff bit_and_iff bit_not_iff)

lemma crc_step_bitwise: "crc_step c b = (crc_shift ^^ 8) (c XOR ucast b)"
proof -
  let ?x = "c XOR ucast b"
  have mask: "(255 :: u32) = mask 8" by (simp add: mask_eq_exp_minus_1)
  have "unat (?x AND 255) < 2 ^ 8"
    unfolding mask take_bit_eq_mask[symmetric] unsigned_take_bit_eq by (rule take_bit_nat_less_exp)
  then have "crc32_table ! unat (?x AND 255) = (crc_shift ^^ 8) (?x AND 255)"
    by (simp add: crc32_table_def crc32_entry_def)
  moreover have "(crc_shift ^^ 8) (?x AND NOT 255) = drop_bit 8 (?x AND NOT 255)"
    by (rule crc_shifts_high) (simp add: mask take_bit_eq_mask and.assoc)
  moreover have "drop_bit 8 (?x AND NOT 255) = drop_bit 8 c"
    unfolding mask by (rule bit_eqI) (auto simp: bit_simps dest: bit_imp_le_length)
  ultimately show ?thesis
    by (subst split_low[of ?x 255]) (simp only: crc_shifts_linear crc_step_def xor.commute)
qed

section \<open>Damage is seen\<close>

lemma crc_step_inj_state: "crc_step c b = crc_step d b \<longleftrightarrow> c = d"
  unfolding crc_step_bitwise crc_shifts_inj by (metis xor_cancel)

lemma crc_step_inj_byte: "crc_step c a = crc_step c b \<longleftrightarrow> a = b"
proof
  assume "crc_step c a = crc_step c b"
  then have "c XOR ucast a = c XOR ucast b" unfolding crc_step_bitwise crc_shifts_inj .
  then have "(ucast a :: u32) = ucast b" by (metis xor.commute xor_cancel)
  then have "unat (ucast a :: u32) = unat (ucast b :: u32)" by simp
  moreover have "unat (ucast x :: u32) = unat x" for x :: byte
    using unat_byte_lt[of x] by (simp add: unsigned_ucast_eq take_bit_nat_eq_self)
  ultimately show "a = b" by (simp add: word_unat_eq_iff)
qed simp

lemma crc_fold_inj: "foldl crc_step c bs = foldl crc_step d bs \<longleftrightarrow> c = d"
  by (induction bs arbitrary: c d) (simp_all add: crc_step_inj_state)

lemma crc32_byte:
  assumes "a \<noteq> b"
  shows "crc32 (xs @ a # ys) \<noteq> crc32 (xs @ b # ys)"
proof
  assume "crc32 (xs @ a # ys) = crc32 (xs @ b # ys)"
  then have "foldl crc_step 4294967295 (xs @ a # ys) = foldl crc_step 4294967295 (xs @ b # ys)"
    unfolding crc32_def by (metis xor_cancel)
  then show False using assms by (simp add: crc_fold_inj crc_step_inj_byte)
qed

end
