(* ===== verification/Log_Codec.thy ===== *)
theory Log_Codec
  imports Transport_Codec Crc32
begin

text \<open>
  \<open>consensus/log.rs\<close>, the format: the header of a log file, the frame around an entry, and the log's own
  encoding of a command, which differs from the wire's in how it carries a catalog change and a
  configuration. Names that \<open>transport.rs\<close> uses too carry the prefix \<open>log_\<close>.

  Every failure of a decoder is the variant \<open>LogError::Corrupt\<close>; inside the readers it is a \<open>FerroError\<close>, as
  in the source, and \<open>log_decode_command\<close> and its callers turn it into \<open>LogCorrupt\<close>.
\<close>

section \<open>Constants and errors\<close>

definition LOG_MAGIC :: nat where "LOG_MAGIC = 4092517123"
definition VERSION :: nat where "VERSION = 2"
definition LEGACY_VERSION :: nat where "LEGACY_VERSION = 1"
definition LEGACY_READ_BOUND :: nat where "LEGACY_READ_BOUND = 8384576"
definition LOG_HEADER_SIZE :: nat where "LOG_HEADER_SIZE = 36"
definition MIN_FRAME :: nat where "MIN_FRAME = 4 + 8 + 8 + 1 + 4"
definition MAX_FRAME :: nat where "MAX_FRAME = 8388672"

datatype log_error =
    Compacted nat nat
  | NotFound nat nat nat
  | NonContiguous nat nat
  | TermWentBackwards nat nat
  | TermMismatch nat nat nat
  | TooLarge nat nat
  | LogUnrepresentable string nat nat
  | LogCorrupt string
  | LogIo string
  | Poisoned string

type_synonym 'a log_result = "log_error + 'a"

definition needs_snapshot :: "log_error \<Rightarrow> nat option" where
  "needs_snapshot e = (case e of Compacted _ floor \<Rightarrow> Some floor | _ \<Rightarrow> None)"

text \<open>\<open>From<FerroError> for LogError\<close>: only the decoders convert this way.\<close>

definition as_corrupt :: "'a result \<Rightarrow> 'a log_result" where
  "as_corrupt r = (case r of Inl _ \<Rightarrow> Inl (LogCorrupt ''a log record is damaged'') | Inr x \<Rightarrow> Inr x)"

section \<open>The header\<close>

record log_header =
  h_version :: nat
  h_generation :: nat
  h_snapshot_round :: nat
  h_snapshot_term :: nat

definition log_header_fields :: "log_header \<Rightarrow> byte list" where
  "log_header_fields h =
     be_bytes 4 LOG_MAGIC @ be_bytes 4 (h_version h) @ be_bytes 8 (h_generation h) @
     be_bytes 8 (h_snapshot_round h) @ be_bytes 8 (h_snapshot_term h)"

definition log_header_encode :: "log_header \<Rightarrow> byte list" where
  "log_header_encode h = log_header_fields h @ be_bytes 4 (unat (crc32 (log_header_fields h)))"

text \<open>A slice \<open>bytes[a..b]\<close> of an array long enough for it.\<close>

definition sub_bytes :: "byte list \<Rightarrow> nat \<Rightarrow> nat \<Rightarrow> byte list" where
  "sub_bytes bs a b = take (b - a) (drop a bs)"

definition log_header_decode :: "byte list \<Rightarrow> log_header option log_result" where
  "log_header_decode bs =
     (let stored = from_be (sub_bytes bs 32 36) in
      if unat (crc32 (sub_bytes bs 0 32)) \<noteq> stored then Inr None
      else if from_be (sub_bytes bs 0 4) \<noteq> LOG_MAGIC then Inr None
      else
        let version = from_be (sub_bytes bs 4 8) in
        if version \<noteq> VERSION \<and> version \<noteq> LEGACY_VERSION
        then Inl (LogCorrupt ''a round log written at an unknown format version'')
        else Inr (Some \<lparr>h_version = version, h_generation = from_be (sub_bytes bs 8 16),
               h_snapshot_round = from_be (sub_bytes bs 16 24), h_snapshot_term = from_be (sub_bytes bs 24 32)\<rparr>))"

section \<open>Encoding a command\<close>

definition log_fits_u16 :: "nat \<Rightarrow> string \<Rightarrow> nat log_result" where
  "log_fits_u16 len what = (if len \<le> u16_max then Inr len else Inl (LogUnrepresentable what len u16_max))"

definition log_fits_u32 :: "nat \<Rightarrow> string \<Rightarrow> nat log_result" where
  "log_fits_u32 len what = (if len \<le> u32_max then Inr len else Inl (LogUnrepresentable what len u32_max))"

definition log_put_str :: "byte list \<Rightarrow> rstring \<Rightarrow> string \<Rightarrow> byte list log_result" where
  "log_put_str out s what =
     (case write_str out s what of
        Inr out \<Rightarrow> Inr out
      | Inl _ \<Rightarrow> Inl (LogUnrepresentable what (length s) u16_max))"

fun log_write_data_type :: "byte list \<Rightarrow> data_type \<Rightarrow> byte list" where
  "log_write_data_type out IntegerT = out @ [0]"
| "log_write_data_type out FloatT = out @ [1]"
| "log_write_data_type out BooleanT = out @ [2]"
| "log_write_data_type out (Varchar n) = (out @ [3]) @ be_bytes 2 n"
| "log_write_data_type out BigInt = out @ [4]"
| "log_write_data_type out DecimalT = out @ [5]"
| "log_write_data_type out Timestamp = out @ [6]"

fun log_write_ddl_op :: "byte list \<Rightarrow> ddl_op \<Rightarrow> byte list log_result" where
  "log_write_ddl_op out CreateTable = Inr (out @ [0])"
| "log_write_ddl_op out DropTable = Inr (out @ [1])"
| "log_write_ddl_op out (AlterColumn (Add column)) =
     log_put_str ((out @ [2]) @ [0]) column ''column name''"
| "log_write_ddl_op out (AlterColumn (Rename old new)) =
     rbind (log_put_str ((out @ [2]) @ [1]) old ''column name'') (\<lambda>out.
       log_put_str out new ''column name'')"
| "log_write_ddl_op out (AlterColumn (Retype column old)) =
     rbind (log_put_str ((out @ [2]) @ [2]) column ''column name'') (\<lambda>out.
       Inr (log_write_data_type out old))"

fun log_write_columns :: "byte list \<Rightarrow> column list \<Rightarrow> byte list log_result" where
  "log_write_columns out [] = Inr out"
| "log_write_columns out ((name, ty, nullable) # cs) =
     rbind (log_put_str out name ''column name'') (\<lambda>out.
       log_write_columns (log_write_data_type out ty @ [if nullable then 1 else 0]) cs)"

definition log_write_ids :: "byte list \<Rightarrow> node_id list \<Rightarrow> byte list" where
  "log_write_ids out ns = foldl (\<lambda>out n. out @ be_bytes 4 n) out ns"

definition log_write_config :: "byte list \<Rightarrow> config \<Rightarrow> byte list log_result" where
  "log_write_config out c =
     (let out = (out @ be_bytes 8 (cfg_version c)) @ be_bytes 8 (cfg_term c) in
      rbind (log_fits_u32 (length (members c)) ''voter count'') (\<lambda>n.
      let out = log_write_ids (out @ be_bytes 4 n) (members c) in
      rbind (log_fits_u32 (length (learners c)) ''learner count'') (\<lambda>n.
        Inr (log_write_ids (out @ be_bytes 4 n) (learners c)))))"

fun log_encode_branch :: "byte list \<Rightarrow> branch_op \<Rightarrow> byte list" where
  "log_encode_branch out (Fork child par epoch millis) =
     out @ [0] @ be_bytes 8 child @ be_bytes 8 par @ be_bytes 8 epoch @ be_bytes 8 millis"
| "log_encode_branch out (Merge branch base_round) =
     out @ [1] @ be_bytes 8 branch @ be_bytes 8 base_round"
| "log_encode_branch out (Abandon branch) = out @ [2] @ be_bytes 8 branch"
| "log_encode_branch out (Reap branch generation) = out @ [3] @ be_bytes 8 branch @ be_bytes 4 generation"

fun log_encode_command :: "command \<Rightarrow> byte list \<Rightarrow> byte list log_result" where
  "log_encode_command (WalBatch start_lsn bytes) out =
     rbind (log_fits_u32 (length bytes) ''wal batch'') (\<lambda>n.
       Inr (out @ [0] @ be_bytes 8 start_lsn @ be_bytes 4 n @ bytes))"
| "log_encode_command (Catalog oper table columns) out =
     rbind (log_write_ddl_op (out @ [1]) oper) (\<lambda>out.
     rbind (log_put_str out table ''table name'') (\<lambda>out.
     rbind (log_fits_u16 (length columns) ''column count'') (\<lambda>n.
       log_write_columns (out @ be_bytes 2 n) columns)))"
| "log_encode_command (Branch oper) out = Inr (log_encode_branch (out @ [2]) oper)"
| "log_encode_command (ArenaGrant node first count) out =
     Inr (out @ [3] @ be_bytes 4 node @ be_bytes 4 first @ be_bytes 4 count)"
| "log_encode_command (TxnIdRange node lo hi) out =
     Inr (out @ [4] @ be_bytes 4 node @ be_bytes 8 lo @ be_bytes 8 hi)"
| "log_encode_command (LeaseTick millis) out = Inr (out @ [5] @ be_bytes 8 millis)"
| "log_encode_command Checkpoint out = Inr (out @ [6])"
| "log_encode_command (Membership c) out = log_write_config (out @ [7]) c"
| "log_encode_command NoOp out = Inr (out @ [8])"

section \<open>Decoding a command\<close>

definition log_take_bytes :: "nat \<Rightarrow> byte list reader" where
  "log_take_bytes n bs at =
     (case get_range bs at (at + n) of None \<Rightarrow> Inl short_record | Some s \<Rightarrow> Inr (s, at + n))"

definition log_read_data_type :: "data_type reader" where
  "log_read_data_type bs at =
     rbind (take_u8 bs at) (\<lambda>(t, at).
       if t = 0 then Inr (IntegerT, at)
       else if t = 1 then Inr (FloatT, at)
       else if t = 2 then Inr (BooleanT, at)
       else if t = 3 then rbind (take_u16 bs at) (\<lambda>(n, at). Inr (Varchar n, at))
       else if t = 4 then Inr (BigInt, at)
       else if t = 5 then Inr (DecimalT, at)
       else if t = 6 then Inr (Timestamp, at)
       else Inl (Corruption ''unknown column type tag''))"

definition log_read_alteration :: "column_alteration reader" where
  "log_read_alteration bs at =
     rbind (take_u8 bs at) (\<lambda>(t, at).
       if t = 0 then rbind (take_str bs at) (\<lambda>(column, at). Inr (Add column, at))
       else if t = 1 then
         rbind (take_str bs at) (\<lambda>(old, at). rbind (take_str bs at) (\<lambda>(new, at). Inr (Rename old new, at)))
       else if t = 2 then
         rbind (take_str bs at) (\<lambda>(column, at).
           rbind (log_read_data_type bs at) (\<lambda>(old, at). Inr (Retype column old, at)))
       else Inl (Corruption ''unknown column alteration tag''))"

definition log_read_ddl_op :: "ddl_op reader" where
  "log_read_ddl_op bs at =
     rbind (take_u8 bs at) (\<lambda>(t, at).
       if t = 0 then Inr (CreateTable, at)
       else if t = 1 then Inr (DropTable, at)
       else if t = 2 then rbind (log_read_alteration bs at) (\<lambda>(a, at). Inr (AlterColumn a, at))
       else Inl (Corruption ''unknown ddl op tag''))"

definition log_read_column :: "column reader" where
  "log_read_column bs at =
     rbind (take_str bs at) (\<lambda>(name, at).
     rbind (log_read_data_type bs at) (\<lambda>(ty, at).
     rbind (take_u8 bs at) (\<lambda>(nullable, at). Inr ((name, ty, nullable \<noteq> 0), at))))"

text \<open>
  A slice is never longer than \<open>usize\<close> can count, so an end offset that saturates is past its end either way,
  and the sum is written without the cap, as in the readers of \<open>wal/log.rs\<close>.
\<close>

text \<open>\<open>chunks_exact(4)\<close> of the slice, each chunk one id.\<close>

fun ids_of_slice :: "byte list \<Rightarrow> node_id list" where
  "ids_of_slice (a # b # c # d # bs) = from_be [a, b, c, d] # ids_of_slice bs"
| "ids_of_slice _ = []"

definition log_read_ids :: "node_id list reader" where
  "log_read_ids bs at =
     rbind (take_u32 bs at) (\<lambda>(n, at).
       if usize_max < n * 4 then Inl (Corruption ''a node list claims too many entries'')
       else
         case get_range bs at (at + n * 4) of
           None \<Rightarrow> Inl (Corruption ''a node list runs past the end'')
         | Some s \<Rightarrow> Inr (ids_of_slice s, at + n * 4))"

definition log_read_config :: "config reader" where
  "log_read_config bs at =
     rbind (take_u64 bs at) (\<lambda>(version, at).
     rbind (take_u64 bs at) (\<lambda>(trm, at).
     rbind (log_read_ids bs at) (\<lambda>(ms, at).
     rbind (log_read_ids bs at) (\<lambda>(ls, at).
       Inr (with_learners (config_new ms version trm) ls, at)))))"

definition log_read_branch :: "branch_op reader" where
  "log_read_branch bs at =
     rbind (take_u8 bs at) (\<lambda>(t, at).
       if t = 0 then
         rbind (take_u64 bs at) (\<lambda>(child, at). rbind (take_u64 bs at) (\<lambda>(par, at).
         rbind (take_u64 bs at) (\<lambda>(epoch, at). rbind (take_u64 bs at) (\<lambda>(millis, at).
           Inr (Fork child par epoch millis, at)))))
       else if t = 1 then
         rbind (take_u64 bs at) (\<lambda>(branch, at). rbind (take_u64 bs at) (\<lambda>(base, at).
           Inr (Merge branch base, at)))
       else if t = 2 then rbind (take_u64 bs at) (\<lambda>(branch, at). Inr (Abandon branch, at))
       else if t = 3 then
         rbind (take_u64 bs at) (\<lambda>(branch, at). rbind (take_u32 bs at) (\<lambda>(gen, at).
           Inr (Reap branch gen, at)))
       else Inl (Corruption ''unknown branch op tag''))"

definition log_read_command :: "command reader" where
  "log_read_command bs at =
     rbind (take_u8 bs at) (\<lambda>(t, at).
       if t = 0 then
         rbind (take_u64 bs at) (\<lambda>(lsn, at). rbind (take_u32 bs at) (\<lambda>(len, at).
         rbind (log_take_bytes len bs at) (\<lambda>(v, at). Inr (WalBatch lsn v, at))))
       else if t = 1 then
         rbind (log_read_ddl_op bs at) (\<lambda>(oper, at). rbind (take_str bs at) (\<lambda>(table, at).
         rbind (take_u16 bs at) (\<lambda>(n, at). rbind (read_n n log_read_column bs at) (\<lambda>(cols, at).
           Inr (Catalog oper table cols, at)))))
       else if t = 2 then rbind (log_read_branch bs at) (\<lambda>(oper, at). Inr (Branch oper, at))
       else if t = 3 then
         rbind (take_u32 bs at) (\<lambda>(node, at). rbind (take_u32 bs at) (\<lambda>(first, at).
         rbind (take_u32 bs at) (\<lambda>(count, at). Inr (ArenaGrant node first count, at))))
       else if t = 4 then
         rbind (take_u32 bs at) (\<lambda>(node, at). rbind (take_u64 bs at) (\<lambda>(lo, at).
         rbind (take_u64 bs at) (\<lambda>(hi, at). Inr (TxnIdRange node lo hi, at))))
       else if t = 5 then rbind (take_u64 bs at) (\<lambda>(millis, at). Inr (LeaseTick millis, at))
       else if t = 6 then Inr (Checkpoint, at)
       else if t = 7 then rbind (log_read_config bs at) (\<lambda>(c, at). Inr (Membership c, at))
       else if t = 8 then Inr (NoOp, at)
       else Inl (Corruption ''unknown command tag''))"

definition log_decode_command :: "byte list \<Rightarrow> command log_result" where
  "log_decode_command bs =
     rbind (as_corrupt (log_read_command bs 0)) (\<lambda>(c, at).
       if at \<noteq> length bs then Inl (LogCorrupt ''trailing bytes after a command'') else Inr c)"

section \<open>The frame\<close>

definition encode_frame :: "entry \<Rightarrow> byte list log_result" where
  "encode_frame e =
     rbind (log_encode_command (e_command e) []) (\<lambda>payload.
     let total = 4 + 8 + 8 + length payload + 4 in
     if MAX_ENTRY_BYTES < total then Inl (TooLarge total MAX_ENTRY_BYTES)
     else
       let frame = be_bytes 4 total @ be_bytes 8 (e_term e) @ be_bytes 8 (e_round e) @ payload in
       Inr (frame @ be_bytes 4 (unat (crc32 frame))))"

definition decode_frame :: "byte list \<Rightarrow> nat \<Rightarrow> nat \<Rightarrow> entry log_result" where
  "decode_frame frame rnd trm =
     (if length frame < MIN_FRAME then Inl (LogCorrupt ''a frame is too short'')
      else
        let total = from_be (sub_bytes frame 0 4) in
        if total \<noteq> length frame then Inl (LogCorrupt ''a frame claims a length it does not have'')
        else
          let stored = from_be (drop (total - 4) frame) in
          if unat (crc32 (take (total - 4) frame)) \<noteq> stored then Inl (LogCorrupt ''a frame fails its crc32'')
          else
            let got_term = from_be (sub_bytes frame 4 12); got_round = from_be (sub_bytes frame 12 20) in
            if got_round \<noteq> rnd \<or> got_term \<noteq> trm then Inl (LogCorrupt ''a frame is not the one the index names'')
            else
              rbind (log_decode_command (sub_bytes frame 20 (total - 4))) (\<lambda>command.
                Inr \<lparr>e_term = trm, e_round = rnd, e_command = command\<rparr>))"

definition log_encode_entry :: "entry \<Rightarrow> byte list \<Rightarrow> byte list log_result" where
  "log_encode_entry e out =
     log_encode_command (e_command e) (out @ be_bytes 8 (e_term e) @ be_bytes 8 (e_round e))"

definition log_decode_entry :: "byte list \<Rightarrow> entry log_result" where
  "log_decode_entry bs =
     rbind (as_corrupt (take_u64 bs 0)) (\<lambda>(trm, at).
     rbind (as_corrupt (take_u64 bs at)) (\<lambda>(rnd, at).
     rbind (log_decode_command (drop at bs)) (\<lambda>command.
       Inr \<lparr>e_term = trm, e_round = rnd, e_command = command\<rparr>)))"

section \<open>What the format carries\<close>

text \<open>
  The values of the Rust types: integers within their width, valid UTF-8, and configurations as \<open>Config\<close>'s
  constructors leave them. Lengths are not bounded here; that they fit is what the encoder checks.
\<close>

fun alt_typed :: "column_alteration \<Rightarrow> bool" where
  "alt_typed (Add s) = utf8_valid s"
| "alt_typed (Rename a b) = (utf8_valid a \<and> utf8_valid b)"
| "alt_typed (Retype s t) = (utf8_valid s \<and> dt_ok t)"

fun op_typed :: "ddl_op \<Rightarrow> bool" where
  "op_typed (AlterColumn a) = alt_typed a"
| "op_typed _ = True"

fun col_typed :: "column \<Rightarrow> bool" where
  "col_typed (s, t, _) = (utf8_valid s \<and> dt_ok t)"

definition config_typed :: "config \<Rightarrow> bool" where
  "config_typed c \<longleftrightarrow> cfg_version c < 2 ^ 64 \<and> cfg_term c < 2 ^ 64 \<and>
     list_all (\<lambda>n. n < 2 ^ 32) (members c) \<and> list_all (\<lambda>n. n < 2 ^ 32) (learners c) \<and>
     sorted_wrt (<) (members c) \<and> sorted_wrt (<) (learners c) \<and> set (members c) \<inter> set (learners c) = {}"

fun cmd_typed :: "command \<Rightarrow> bool" where
  "cmd_typed (WalBatch lsn v) = (lsn < 2 ^ 64)"
| "cmd_typed (Catalog oper table cols) = (op_typed oper \<and> utf8_valid table \<and> list_all col_typed cols)"
| "cmd_typed (Branch oper) = branch_ok oper"
| "cmd_typed (ArenaGrant node first count) = (node < 2 ^ 32 \<and> first < 2 ^ 32 \<and> count < 2 ^ 32)"
| "cmd_typed (TxnIdRange node lo hi) = (node < 2 ^ 32 \<and> lo < 2 ^ 64 \<and> hi < 2 ^ 64)"
| "cmd_typed (LeaseTick millis) = (millis < 2 ^ 64)"
| "cmd_typed (Membership c) = config_typed c"
| "cmd_typed _ = True"

definition entry_typed :: "entry \<Rightarrow> bool" where
  "entry_typed e \<longleftrightarrow> e_term e < 2 ^ 64 \<and> e_round e < 2 ^ 64 \<and> cmd_typed (e_command e)"

fun log_cmd_bytes :: "command \<Rightarrow> byte list" where
  "log_cmd_bytes (Catalog oper table cols) =
     [1] @ op_bytes oper @ str_bytes table @ be_bytes 2 (length cols) @ concat (map col_bytes cols)"
| "log_cmd_bytes c = cmd_bytes c"

definition log_config_ok :: "config \<Rightarrow> bool" where
  "log_config_ok c \<longleftrightarrow> config_typed c \<and> length (members c) < 2 ^ 32 \<and> length (learners c) < 2 ^ 32"

fun log_cmd_ok :: "command \<Rightarrow> bool" where
  "log_cmd_ok (WalBatch lsn v) = (lsn < 2 ^ 64 \<and> length v < 2 ^ 32)"
| "log_cmd_ok (Catalog oper table cols) =
     (op_ok oper \<and> str_ok table \<and> list_all col_ok cols \<and> length cols < 65536)"
| "log_cmd_ok (Membership c) = log_config_ok c"
| "log_cmd_ok c = cmd_ok c"

lemma log_put_str_Inr: "log_put_str b s w = Inr b' \<longleftrightarrow> length s \<le> u16_max \<and> b' = b @ str_bytes s"
  by (auto simp: log_put_str_def write_str_def str_bytes_def)

lemma log_write_data_type_eq: "log_write_data_type b t = b @ dt_bytes t"
  by (cases t) auto

lemma log_write_ddl_op_Inr:
  "log_write_ddl_op b x = Inr b' \<Longrightarrow> b' = b @ op_bytes x \<and> (op_typed x \<longrightarrow> op_ok x)"
  by (cases "(b, x)" rule: log_write_ddl_op.cases)
    (auto simp: log_put_str_Inr rbind_Inr log_write_data_type_eq str_ok_def)

lemma log_write_columns_Inr:
  "log_write_columns b cs = Inr b' \<Longrightarrow>
   b' = b @ concat (map col_bytes cs) \<and> (list_all col_typed cs \<longrightarrow> list_all col_ok cs)"
  by (induction cs arbitrary: b)
    (fastforce simp: log_put_str_Inr rbind_Inr log_write_data_type_eq str_ok_def)+

lemma log_write_ids_eq: "log_write_ids b ns = b @ ids_bytes ns"
  unfolding log_write_ids_def by (induction ns arbitrary: b) (auto simp: ids_bytes_def)

lemma log_write_config_Inr:
  "log_write_config b c = Inr b' \<longleftrightarrow>
     b' = b @ config_bytes c \<and> length (members c) < 2 ^ 32 \<and> length (learners c) < 2 ^ 32"
  by (auto simp: log_write_config_def rbind_Inr log_fits_u32_def log_write_ids_eq config_bytes_def
      nodes_bytes_def Let_def)

lemma log_encode_branch_eq: "log_encode_branch b x = b @ branch_bytes x"
  by (cases x) auto

lemma log_encode_Inr:
  "log_encode_command c b = Inr b' \<Longrightarrow> b' = b @ log_cmd_bytes c \<and> (cmd_typed c \<longrightarrow> log_cmd_ok c)"
  by (cases c)
    (auto simp: rbind_Inr log_fits_u32_def log_fits_u16_def vec_bytes_def log_encode_branch_eq log_put_str_Inr
      log_write_config_Inr log_config_ok_def str_ok_def
      dest!: log_write_ddl_op_Inr log_write_columns_Inr split: if_splits)

section \<open>Reading back\<close>

interpretation log_dt: decoder dt_bytes log_read_data_type dt_ok
proof (rule decoderI)
  fix at and bs :: "byte list" and x
  assume "dt_ok x" "at \<le> length bs" "prefix (dt_bytes x) (drop at bs)" "at + length (dt_bytes x) \<le> length bs"
  then show "log_read_data_type bs at = Inr (x, at + length (dt_bytes x))"
    by (cases x) (auto simp: log_read_data_type_def take_u8_def piecewise part_puts)
qed

interpretation log_alt: decoder alt_bytes log_read_alteration alt_ok
proof (rule decoderI)
  fix at and bs :: "byte list" and x
  assume "alt_ok x" "at \<le> length bs" "prefix (alt_bytes x) (drop at bs)" "at + length (alt_bytes x) \<le> length bs"
  then show "log_read_alteration bs at = Inr (x, at + length (alt_bytes x))"
    by (cases x) (auto simp: log_read_alteration_def take_u8_def piecewise part_puts log_dt.bind_put)
qed

interpretation log_op: decoder op_bytes log_read_ddl_op op_ok
proof (rule decoderI)
  fix at and bs :: "byte list" and x
  assume "op_ok x" "at \<le> length bs" "prefix (op_bytes x) (drop at bs)" "at + length (op_bytes x) \<le> length bs"
  then show "log_read_ddl_op bs at = Inr (x, at + length (op_bytes x))"
    by (cases x) (auto simp: log_read_ddl_op_def take_u8_def piecewise part_puts log_alt.bind_put)
qed

interpretation log_col: decoder col_bytes log_read_column col_ok
proof (rule decoderI)
  fix at and bs :: "byte list" and x
  assume "col_ok x" "at \<le> length bs" "prefix (col_bytes x) (drop at bs)" "at + length (col_bytes x) \<le> length bs"
  then show "log_read_column bs at = Inr (x, at + length (col_bytes x))"
    by (cases x) (auto simp: log_read_column_def take_u8_def piecewise part_puts log_dt.bind_put)
qed

interpretation log_branch: decoder branch_bytes log_read_branch branch_ok
proof (rule decoderI)
  fix at and bs :: "byte list" and x
  assume "branch_ok x" "at \<le> length bs" "prefix (branch_bytes x) (drop at bs)"
    "at + length (branch_bytes x) \<le> length bs"
  then show "log_read_branch bs at = Inr (x, at + length (branch_bytes x))"
    by (cases x) (auto simp: log_read_branch_def take_u8_def piecewise part_puts)
qed

lemma ids_of_slice_app:
  assumes "length xs = 4"
  shows "ids_of_slice (xs @ ys) = from_be xs # ids_of_slice ys"
proof -
  have "length xs = Suc (Suc (Suc (Suc 0)))" using assms by simp
  then obtain a b c d where "xs = [a, b, c, d]" by (auto simp only: length_Suc_conv length_0_conv)
  then show ?thesis by simp
qed

lemma ids_of_slice_bytes: "list_all (\<lambda>n. n < 2 ^ 32) ns \<Longrightarrow> ids_of_slice (ids_bytes ns) = ns"
  by (induction ns) (simp_all add: ids_bytes_def ids_of_slice_app from_be_be_bytes)

interpretation log_ids: decoder nodes_bytes log_read_ids "\<lambda>ns. list_all (\<lambda>n. n < 2 ^ 32) ns \<and> length ns < 2 ^ 32"
proof (rule decoderI)
  fix at and bs :: "byte list" and ns :: "node_id list"
  assume ok: "list_all (\<lambda>n. n < 2 ^ 32) ns \<and> length ns < 2 ^ 32" "at \<le> length bs"
    "prefix (nodes_bytes ns) (drop at bs)" "at + length (nodes_bytes ns) \<le> length bs"
  then have p: "prefix (be_bytes 4 (length ns)) (drop at bs)" "prefix (ids_bytes ns) (drop (at + 4) bs)"
    by (simp_all add: nodes_bytes_def prefix_append_drop)
  have "get_range bs (at + 4) (at + 4 + length ns * 4) = Some (ids_bytes ns)"
    using p(2) ok(4) by (intro get_range_prefix) (simp_all add: nodes_bytes_def)
  with ok p(1) show "log_read_ids bs at = Inr (ns, at + length (nodes_bytes ns))"
    by (simp add: log_read_ids_def u32.bind_put ids_of_slice_bytes nodes_bytes_def usize_max_def)
qed

interpretation log_config: decoder config_bytes log_read_config log_config_ok
proof (rule decoderI)
  fix at and bs :: "byte list" and c
  assume ok: "log_config_ok c" "at \<le> length bs" "prefix (config_bytes c) (drop at bs)"
    "at + length (config_bytes c) \<le> length bs"
  then show "log_read_config bs at = Inr (c, at + length (config_bytes c))"
    by (auto simp: log_read_config_def config_bytes_def log_config_ok_def config_typed_def piecewise part_puts
        log_ids.bind_put config_rebuild)
qed

lemma log_take_bytes_eq: "log_take_bytes = take_array"
  by (intro ext) (simp add: log_take_bytes_def take_array_def)

interpretation log_cmd: decoder log_cmd_bytes log_read_command log_cmd_ok
proof (rule decoderI)
  fix at and bs :: "byte list" and c
  assume "log_cmd_ok c" "at \<le> length bs" "prefix (log_cmd_bytes c) (drop at bs)"
    "at + length (log_cmd_bytes c) \<le> length bs"
  then show "log_read_command bs at = Inr (c, at + length (log_cmd_bytes c))"
    by (cases c) (auto simp: log_read_command_def take_u8_def piecewise part_puts vec_bytes_def
        log_take_bytes_eq arr.bind_put log_op.bind_put log_col.read_n_put log_branch.bind_put log_config.bind_put)
qed

lemma log_decode_cmd_bytes: "log_cmd_ok c \<Longrightarrow> log_decode_command (log_cmd_bytes c) = Inr c"
  by (simp add: log_decode_command_def log_cmd.reads_put as_corrupt_def)

section \<open>Frames and headers\<close>

lemma crc_stored [simp]: "from_be (be_bytes 4 (unat (crc32 bs))) = unat (crc32 bs)"
proof -
  have "unat (crc32 bs) < 256 ^ 4" using unsigned_less[of "crc32 bs", where ?'a = nat] by simp
  then show ?thesis by (rule from_be_be_bytes)
qed

lemma sub_bytes_self: "sub_bytes bs 0 n = take n bs"
  by (simp add: sub_bytes_def)

lemma sub_bytes_app: "length pre = a \<Longrightarrow> a + length mid = b \<Longrightarrow> sub_bytes (pre @ mid @ post) a b = mid"
  by (auto simp: sub_bytes_def)

definition frame_body :: "entry \<Rightarrow> byte list" where
  "frame_body e = be_bytes 4 (24 + length (log_cmd_bytes (e_command e))) @ be_bytes 8 (e_term e) @
     be_bytes 8 (e_round e) @ log_cmd_bytes (e_command e)"

definition frame_bytes :: "entry \<Rightarrow> byte list" where
  "frame_bytes e = frame_body e @ be_bytes 4 (unat (crc32 (frame_body e)))"

definition frame_ok :: "entry \<Rightarrow> bool" where
  "frame_ok e \<longleftrightarrow> e_term e < 2 ^ 64 \<and> e_round e < 2 ^ 64 \<and> log_cmd_ok (e_command e) \<and>
     length (frame_bytes e) \<le> MAX_ENTRY_BYTES"

lemma log_cmd_bytes_nonempty: "1 \<le> length (log_cmd_bytes c)"
  by (cases c) auto

lemma length_frame_bytes: "length (frame_bytes e) = 24 + length (log_cmd_bytes (e_command e))"
  by (simp add: frame_bytes_def frame_body_def)

lemma encode_frame_Inr:
  "encode_frame e = Inr f \<Longrightarrow> entry_typed e \<Longrightarrow> f = frame_bytes e \<and> frame_ok e"
  by (auto simp: encode_frame_def rbind_Inr Let_def frame_bytes_def frame_body_def frame_ok_def entry_typed_def
      dest!: log_encode_Inr split: if_splits)

lemma frame_pieces:
  assumes "frame_ok e" and n: "n = length (frame_bytes e)"
  shows "from_be (sub_bytes (frame_bytes e) 0 4) = n"
    "from_be (sub_bytes (frame_bytes e) 4 12) = e_term e" "from_be (sub_bytes (frame_bytes e) 12 20) = e_round e"
    "sub_bytes (frame_bytes e) 20 (n - 4) = log_cmd_bytes (e_command e)"
    "take (n - 4) (frame_bytes e) = frame_body e"
    "from_be (drop (n - 4) (frame_bytes e)) = unat (crc32 (frame_body e))"
proof -
  let ?p = "log_cmd_bytes (e_command e)" and ?t = "be_bytes 8 (e_term e)" and ?r = "be_bytes 8 (e_round e)"
  let ?crc = "be_bytes 4 (unat (crc32 (frame_body e)))"
  have n24: "n = 24 + length ?p" by (simp add: n length_frame_bytes)
  have body: "frame_body e = be_bytes 4 n @ ?t @ ?r @ ?p" by (simp add: frame_body_def n24)
  have eq: "frame_bytes e = be_bytes 4 n @ ?t @ ?r @ ?p @ ?crc" by (simp add: frame_bytes_def body)
  have "from_be (be_bytes 4 n) = n" "from_be ?t = e_term e" "from_be ?r = e_round e"
    using assms by (simp_all add: frame_ok_def MAX_ENTRY_BYTES_def MAX_FRAME_BYTES_def from_be_be_bytes)
  then show "from_be (sub_bytes (frame_bytes e) 0 4) = n"
    "from_be (sub_bytes (frame_bytes e) 4 12) = e_term e" "from_be (sub_bytes (frame_bytes e) 12 20) = e_round e"
    using sub_bytes_app[of "[]" 0 "be_bytes 4 n" 4] sub_bytes_app[of "be_bytes 4 n" 4 ?t 12]
      sub_bytes_app[of "be_bytes 4 n @ ?t" 12 ?r 20]
    by (simp_all add: eq)
  show "sub_bytes (frame_bytes e) 20 (n - 4) = ?p"
    using sub_bytes_app[of "be_bytes 4 n @ ?t @ ?r" 20 ?p "n - 4"] by (simp add: eq n24)
  have "length (frame_body e) = n - 4" by (simp add: body n24)
  then show "take (n - 4) (frame_bytes e) = frame_body e"
    "from_be (drop (n - 4) (frame_bytes e)) = unat (crc32 (frame_body e))"
    by (simp_all add: frame_bytes_def)
qed

lemma decode_frame_bytes: "frame_ok e \<Longrightarrow> decode_frame (frame_bytes e) (e_round e) (e_term e) = Inr e"
proof -
  assume ok: "frame_ok e"
  define n where "n = length (frame_bytes e)"
  have "25 \<le> n" using log_cmd_bytes_nonempty[of "e_command e"] by (simp add: n_def length_frame_bytes)
  moreover have "log_cmd_ok (e_command e)" using ok by (simp add: frame_ok_def)
  ultimately show ?thesis
    by (simp add: decode_frame_def Let_def frame_pieces[OF ok n_def] log_decode_cmd_bytes MIN_FRAME_def
        n_def[symmetric])
qed

definition header_ok :: "log_header \<Rightarrow> bool" where
  "header_ok h \<longleftrightarrow> (h_version h = VERSION \<or> h_version h = LEGACY_VERSION) \<and> h_generation h < 2 ^ 64 \<and>
     h_snapshot_round h < 2 ^ 64 \<and> h_snapshot_term h < 2 ^ 64"

lemma length_log_header_fields [simp]: "length (log_header_fields h) = 32"
  by (simp add: log_header_fields_def)

lemma length_log_header_encode [simp]: "length (log_header_encode h) = 36"
  by (simp add: log_header_encode_def)

lemma header_pieces:
  assumes "header_ok h"
  shows "from_be (sub_bytes (log_header_encode h @ bs) 0 4) = LOG_MAGIC"
    "from_be (sub_bytes (log_header_encode h @ bs) 4 8) = h_version h"
    "from_be (sub_bytes (log_header_encode h @ bs) 8 16) = h_generation h"
    "from_be (sub_bytes (log_header_encode h @ bs) 16 24) = h_snapshot_round h"
    "from_be (sub_bytes (log_header_encode h @ bs) 24 32) = h_snapshot_term h"
    "sub_bytes (log_header_encode h @ bs) 0 32 = log_header_fields h"
    "from_be (sub_bytes (log_header_encode h @ bs) 32 36) = unat (crc32 (log_header_fields h))"
proof -
  let ?m = "be_bytes 4 LOG_MAGIC" and ?v = "be_bytes 4 (h_version h)" and ?g = "be_bytes 8 (h_generation h)"
  let ?r = "be_bytes 8 (h_snapshot_round h)" and ?t = "be_bytes 8 (h_snapshot_term h)"
  let ?crc = "be_bytes 4 (unat (crc32 (log_header_fields h)))"
  have eq: "log_header_encode h @ bs = ?m @ ?v @ ?g @ ?r @ ?t @ ?crc @ bs"
    by (simp add: log_header_encode_def log_header_fields_def)
  have "from_be ?m = LOG_MAGIC" "from_be ?v = h_version h" "from_be ?g = h_generation h"
    "from_be ?r = h_snapshot_round h" "from_be ?t = h_snapshot_term h"
    using assms by (auto simp: header_ok_def VERSION_def LEGACY_VERSION_def LOG_MAGIC_def from_be_be_bytes)
  then show "from_be (sub_bytes (log_header_encode h @ bs) 0 4) = LOG_MAGIC"
    "from_be (sub_bytes (log_header_encode h @ bs) 4 8) = h_version h"
    "from_be (sub_bytes (log_header_encode h @ bs) 8 16) = h_generation h"
    "from_be (sub_bytes (log_header_encode h @ bs) 16 24) = h_snapshot_round h"
    "from_be (sub_bytes (log_header_encode h @ bs) 24 32) = h_snapshot_term h"
    using sub_bytes_app[of "[]" 0 ?m 4] sub_bytes_app[of ?m 4 ?v 8] sub_bytes_app[of "?m @ ?v" 8 ?g 16]
      sub_bytes_app[of "?m @ ?v @ ?g" 16 ?r 24] sub_bytes_app[of "?m @ ?v @ ?g @ ?r" 24 ?t 32]
    by (simp_all add: eq)
  show "sub_bytes (log_header_encode h @ bs) 0 32 = log_header_fields h"
    "from_be (sub_bytes (log_header_encode h @ bs) 32 36) = unat (crc32 (log_header_fields h))"
    using sub_bytes_app[of "[]" 0 "log_header_fields h" 32] sub_bytes_app[of "log_header_fields h" 32 ?crc 36]
    by (simp_all add: log_header_encode_def)
qed

lemma log_header_decode_encode: "header_ok h \<Longrightarrow> log_header_decode (log_header_encode h) = Inr (Some h)"
  using header_pieces[of h "[]"] by (auto simp: log_header_decode_def Let_def header_ok_def)

section \<open>Torn headers\<close>

text \<open>
  A header of which only the first \<open>k\<close> bytes reached a device that held zeros. Cut inside the magic it fails
  the magic check; cut inside the checksum it fails the checksum; cut between the two, only the checksum of the
  bytes that landed can refuse it, which \<open>tear_detected\<close> states: that checksum is not the zero stored there,
  unless the missing bytes were zeros anyway.
\<close>

definition torn_header :: "log_header \<Rightarrow> nat \<Rightarrow> byte list" where
  "torn_header h k = take k (log_header_encode h) @ replicate (36 - k) 0"

definition tear_detected :: "log_header \<Rightarrow> bool" where
  "tear_detected h \<longleftrightarrow> (\<forall>k\<in>{4..<32}. torn_header h k \<noteq> log_header_encode h \<longrightarrow>
     crc32 (take 32 (torn_header h k)) \<noteq> 0)"

lemma from_be_zeros: "from_be (replicate n 0) = 0"
  by (induction n) (simp_all add: from_be_Cons from_be_def[of "[]"])

lemma length_torn_header [simp]: "k \<le> 36 \<Longrightarrow> length (torn_header h k) = 36"
  by (simp add: torn_header_def)

lemma be_bytes_4: "be_bytes 4 v =
   [word_of_nat (v div 16777216), word_of_nat (v div 65536), word_of_nat (v div 256), word_of_nat v]"
proof -
  have "(4 :: nat) = Suc (Suc (Suc (Suc 0)))" by simp
  then show ?thesis by (simp only: be_bytes.simps) simp
qed

lemma torn_magic:
  assumes "k < 4"
  shows "from_be (sub_bytes (torn_header h k) 0 4) \<noteq> LOG_MAGIC"
proof
  let ?m = "sub_bytes (torn_header h k) 0 4"
  assume "from_be ?m = LOG_MAGIC"
  moreover have m: "?m = take k (log_header_encode h) @ replicate (4 - k) 0"
    using assms by (simp add: sub_bytes_def torn_header_def)
  moreover have "length ?m = 4" using assms by (simp add: m)
  ultimately have "be_bytes 4 LOG_MAGIC = take k (log_header_encode h) @ replicate (4 - k) 0"
    using be_bytes_from_be[of ?m] by simp
  then have "be_bytes 4 LOG_MAGIC ! 3 = 0" using assms by (simp add: nth_append)
  moreover have "be_bytes 4 LOG_MAGIC ! 3 = 3" by (simp add: LOG_MAGIC_def be_bytes_4)
  ultimately show False by simp
qed

lemma torn_checksum:
  assumes "32 \<le> k" "k < 36" "torn_header h k \<noteq> log_header_encode h"
  shows "unat (crc32 (sub_bytes (torn_header h k) 0 32)) \<noteq> from_be (sub_bytes (torn_header h k) 32 36)"
proof
  let ?crc = "be_bytes 4 (unat (crc32 (log_header_fields h)))"
  let ?s = "take (k - 32) ?crc @ replicate (36 - k) 0"
  have t: "torn_header h k = log_header_fields h @ ?s"
    using assms(1) by (simp add: torn_header_def log_header_encode_def)
  have "sub_bytes (torn_header h k) 0 32 = log_header_fields h" "sub_bytes (torn_header h k) 32 36 = ?s"
    using assms(1,2) by (simp_all add: t sub_bytes_def)
  moreover assume "unat (crc32 (sub_bytes (torn_header h k) 0 32)) = from_be (sub_bytes (torn_header h k) 32 36)"
  ultimately have "?crc = be_bytes (length ?s) (from_be ?s)" using assms(1,2) by simp
  then have "?crc = ?s" by (simp only: be_bytes_from_be)
  then have "torn_header h k = log_header_encode h" unfolding t log_header_encode_def by simp
  with assms(3) show False by simp
qed

lemma torn_header_refused:
  assumes "k < 36" "torn_header h k \<noteq> log_header_encode h" "tear_detected h"
  shows "log_header_decode (torn_header h k) = Inr None"
proof -
  consider "k < 4" | "4 \<le> k" "k < 32" | "32 \<le> k" by linarith
  then show ?thesis
  proof cases
    case 1
    then show ?thesis using torn_magic by (simp add: log_header_decode_def Let_def)
  next
    case 2
    have "sub_bytes (torn_header h k) 32 36 = replicate 4 0"
      using 2 by (simp add: torn_header_def sub_bytes_def)
    moreover have "crc32 (sub_bytes (torn_header h k) 0 32) \<noteq> 0"
      using assms 2 by (simp add: tear_detected_def sub_bytes_self)
    ultimately show ?thesis by (simp add: log_header_decode_def Let_def from_be_zeros unat_eq_0)
  next
    case 3
    then show ?thesis using torn_checksum[OF 3 assms(1,2)] by (simp add: log_header_decode_def Let_def)
  qed
qed

text \<open>A file that begins with zeros has no header.\<close>

lemma zero_header_refused: "log_header_decode (replicate 36 0) = Inr None"
  using torn_magic[of 0] by (simp add: log_header_decode_def Let_def torn_header_def)

section \<open>The admission check and the disk\<close>

lemma log_put_str_fits: "length s \<le> u16_max \<Longrightarrow> log_put_str b s w = Inr (b @ str_bytes s)"
  by (simp add: log_put_str_Inr)

lemma log_ddl_op_fits: "write_ddl_op b x = Inr b' \<Longrightarrow> log_write_ddl_op c x = Inr (c @ op_bytes x)"
  by (cases "(b, x)" rule: write_ddl_op.cases)
    (auto simp: write_str_Inr rbind_Inr log_put_str_fits log_write_data_type_eq)

lemma log_columns_fits:
  "write_columns b cs = Inr b' \<Longrightarrow> log_write_columns c cs = Inr (c @ concat (map col_bytes cs))"
  by (induction b cs arbitrary: c rule: write_columns.induct)
    (auto simp: write_str_Inr rbind_Inr log_put_str_fits log_write_data_type_eq)

lemma log_command_fits:
  assumes "cmd_enc c" "length (cmd_bytes c) \<le> MAX_FRAME_BYTES"
  shows "log_encode_command c b = Inr (b @ log_cmd_bytes c) \<and> length (log_cmd_bytes c) \<le> length (cmd_bytes c)"
proof (cases c)
  case (Catalog oper table cols)
  then obtain r where "serialize [] (Ddl oper table 0 0 cols) = Inr r"
    using assms(1) by (auto simp: isOk_def split: sum.splits simp del: serialize.simps)
  then show ?thesis
    unfolding Catalog
    by (auto simp: rbind_Inr write_str_Inr log_ddl_op_fits log_put_str_fits log_columns_fits log_fits_u16_def
        vec_bytes_def split: if_splits)
qed (use assms in \<open>auto simp: log_fits_u32_def vec_bytes_def log_encode_branch_eq log_write_config_Inr
    MAX_FRAME_BYTES_def MAX_CONFIG_NODES_def\<close>)

lemma encode_frame_fits:
  assumes "entry_enc e" "length (entry_bytes e) + 45 \<le> MAX_FRAME_BYTES" "entry_typed e"
  shows "encode_frame e = Inr (frame_bytes e) \<and> frame_ok e \<and> length (frame_bytes e) \<le> length (entry_bytes e) + 8"
proof -
  have "length (cmd_bytes (e_command e)) \<le> MAX_FRAME_BYTES"
    using assms(2) by (simp add: entry_bytes_def)
  with assms(1) have "log_encode_command (e_command e) [] = Inr (log_cmd_bytes (e_command e))"
      and len: "length (log_cmd_bytes (e_command e)) \<le> length (cmd_bytes (e_command e))"
    using log_command_fits[of "e_command e" "[]"] by (auto simp: entry_enc_def)
  then have enc: "encode_frame e = Inr (frame_bytes e)"
    using assms(2)
    by (simp add: encode_frame_def frame_bytes_def frame_body_def entry_bytes_def MAX_ENTRY_BYTES_def Let_def
        MAX_FRAME_BYTES_def)
  with encode_frame_Inr[OF enc assms(3)] len show ?thesis by (simp add: length_frame_bytes entry_bytes_def)
qed

lemma cmd_ok_typed: "cmd_ok c \<Longrightarrow> cmd_typed c \<and> cmd_enc c"
proof (cases c)
  case (Catalog oper table cols)
  assume "cmd_ok c"
  then have ok: "rec_ok (Ddl oper table 0 0 cols)" by (simp add: Catalog del: rec_ok.simps)
  then have "cmd_enc c" using serialize_ok by (simp add: Catalog del: serialize.simps rec_ok.simps)
  moreover have "op_typed oper" using ok by (cases oper; cases "case oper of AlterColumn a \<Rightarrow> a") (auto simp: str_ok_def)
  moreover have "list_all col_typed cols" using ok by (auto simp: list_all_iff str_ok_def)
  ultimately show ?thesis using ok by (simp add: Catalog str_ok_def)
qed (auto simp: config_ok_def config_typed_def nodes_ok_def)

lemma delivered_entry:
  assumes "decode bs = Inr m" "m_body m = Append pr pt es lc" "e \<in> set es" "length bs \<le> MAX_FRAME_BYTES"
  shows "entry_enc e \<and> entry_typed e \<and> length (entry_bytes e) + 45 \<le> MAX_FRAME_BYTES"
proof -
  have m: "msg_ok m" "bs = msg_bytes m" using assms(1) by (auto simp: decode_iff)
  have "list_all entry_ok es" using m(1) assms(2) by (simp add: msg_ok_def)
  then have "entry_ok e" using assms(3) by (simp add: list_all_iff)
  then have "entry_enc e" "entry_typed e"
    using cmd_ok_typed by (auto simp: entry_ok_def entry_enc_def entry_typed_def)
  moreover have "length (entry_bytes e) \<le> length (entries_bytes es)"
    using split_list[OF assms(3)] by (auto simp: entries_bytes_def)
  ultimately show ?thesis
    using m(2) assms(2,4) by (simp add: msg_bytes_def)
qed

section \<open>Properties\<close>

text \<open>
  (C38) The disk never refuses what the network carries: an entry that passes the admission check at proposal, or
  that arrives in an \<open>Append\<close> within the frame limit, is framed by the log; its frame is at most eight bytes
  longer than its wire form and at most \<open>MAX_FRAME_BYTES - 37\<close>, so the recovery scan's length check accepts it;
  and the frame decodes, under the round and term the index holds for it, to that entry.
\<close>

theorem network_entry_storable:
  assumes "(entry_typed e \<and> admit_entry e = Inr ()) \<or>
    (\<exists>bs m pr pt es lc. decode bs = Inr m \<and> m_body m = Append pr pt es lc \<and> e \<in> set es \<and>
      length bs \<le> MAX_FRAME_BYTES)"
  shows "\<exists>f. encode_frame e = Inr f \<and> length f \<le> length (entry_bytes e) + 8 \<and> length f + 37 \<le> MAX_FRAME_BYTES \<and>
    MIN_FRAME \<le> length f \<and> length f \<le> MAX_FRAME \<and> decode_frame f (e_round e) (e_term e) = Inr e"
proof -
  have "entry_enc e \<and> entry_typed e \<and> length (entry_bytes e) + 45 \<le> MAX_FRAME_BYTES"
    using assms delivered_entry by (auto simp: admit_entry_iff budget_eq MAX_FRAME_BYTES_def)
  then have f: "encode_frame e = Inr (frame_bytes e)" "frame_ok e"
      "length (frame_bytes e) \<le> length (entry_bytes e) + 8" "length (entry_bytes e) + 45 \<le> MAX_FRAME_BYTES"
    using encode_frame_fits by blast+
  moreover have "MIN_FRAME \<le> length (frame_bytes e)"
    using log_cmd_bytes_nonempty[of "e_command e"] by (simp add: length_frame_bytes MIN_FRAME_def)
  ultimately show ?thesis
    using decode_frame_bytes[OF f(2)] by (auto simp: MAX_FRAME_BYTES_def MAX_FRAME_def)
qed

theorem network_entry_storable_witness:
  "let e = \<lparr>e_term = 3, e_round = 9, e_command = Catalog (AlterColumn (Add [97])) [116] [([97], Varchar 8, True)]\<rparr>
   in admit_entry e = Inr () \<and> (\<exists>f. encode_frame e = Inr f \<and> decode_frame f 9 3 = Inr e)"
proof -
  let ?e = "\<lparr>e_term = 3, e_round = 9, e_command = Catalog (AlterColumn (Add [97])) [116] [([97], Varchar 8, True)]\<rparr>"
  have "entry_typed ?e \<and> admit_entry ?e = Inr ()"
    by (simp add: entry_typed_def admit_entry_iff entry_enc_def entry_bytes_def vec_bytes_def budget_eq
        write_str_def str_bytes_def)
  with network_entry_storable[of ?e] show ?thesis by (auto simp: Let_def)
qed

end
