(* ===== verification/Sim_Storage.thy ===== *)
theory Sim_Storage
  imports Wire_Bytes
begin

text \<open>
  \<open>storage/sim.rs\<close>, the in-memory implementation of the \<open>Storage\<close> trait (\<open>storage/storage.rs\<close>) that the
  repository aims crashes with, and the two loops of \<open>wal/log.rs\<close> that read and write through the trait. A
  fabric holds files, each with the bytes this process sees and the bytes that survive a crash; it counts
  operations, breaks the one its plan names, and is dead from then on. \<open>restart\<close> is the machine after the
  reboot. A file is named by a number. The trace a fabric keeps for comparison between runs is left out: no
  operation reads it.
\<close>

unbundle bit_operations_syntax

section \<open>The fault model\<close>

datatype durability = WriteThrough | SyncOnly

datatype fault_kind = TearWrite | DropWrite | CorruptWrite | FailSync | DropSetLen

datatype write_shape = ShapeDrop | ShapeTear | ShapeCorrupt

record fault_plan =
  p_seed :: nat
  p_at_op :: nat
  p_shape :: write_shape
  p_tear_pick :: nat

record fired_fault =
  ff_op_index :: nat
  ff_file :: nat
  ff_kind :: fault_kind
  ff_offset :: nat
  ff_len :: nat
  ff_kept :: nat

record file_image =
  durable :: "byte list"
  visible :: "byte list"

record fabric =
  fb_plan :: "fault_plan option"
  fb_durability :: durability
  fb_next_op :: nat
  fb_files :: "nat \<Rightarrow> file_image"
  fb_atomic_unit :: "nat \<Rightarrow> nat"
  fb_verified_from :: "nat \<Rightarrow> nat"
  fb_fired :: "fired_fault option"
  fb_crashed :: bool

datatype io_request = Pwrite "byte list" | Pread nat | SyncAll | SyncData | SetLen | Len

datatype io_error = SimCrashed | SimFault fault_kind

fun faultable :: "io_request \<Rightarrow> bool" where
  "faultable (Pwrite _) = True"
| "faultable SyncAll = True"
| "faultable SyncData = True"
| "faultable SetLen = True"
| "faultable (Pread _) = False"
| "faultable Len = False"

definition image_new :: "byte list \<Rightarrow> file_image" where
  "image_new bs = \<lparr>durable = bs, visible = bs\<rparr>"

definition from_images ::
    "(nat \<Rightarrow> byte list) \<Rightarrow> fault_plan option \<Rightarrow> durability \<Rightarrow> fabric" where
  "from_images images plan d =
     \<lparr>fb_plan = plan, fb_durability = d, fb_next_op = 0, fb_files = (\<lambda>f. image_new (images f)),
      fb_atomic_unit = (\<lambda>_. 1), fb_verified_from = (\<lambda>_. 0), fb_fired = None, fb_crashed = False\<rparr>"

definition durable_image :: "fabric \<Rightarrow> nat \<Rightarrow> byte list" where
  "durable_image fb f = durable (fb_files fb f)"

definition restart :: "fabric \<Rightarrow> fabric" where
  "restart fb =
     (from_images (durable_image fb) None (fb_durability fb))
       \<lparr>fb_atomic_unit := fb_atomic_unit fb, fb_verified_from := fb_verified_from fb\<rparr>"

section \<open>One operation\<close>

text \<open>\<open>Vec::resize\<close> with zeros, and a slice written over the bytes at an offset.\<close>

definition resize :: "byte list \<Rightarrow> nat \<Rightarrow> byte list" where
  "resize bs n = take n bs @ replicate (n - length bs) 0"

definition overwrite :: "byte list \<Rightarrow> nat \<Rightarrow> byte list \<Rightarrow> byte list" where
  "overwrite old off bs =
     (let upto = off + length bs;
          old = (if length old < upto then resize old upto else old)
      in take off old @ bs @ drop upto old)"

definition write_into :: "durability \<Rightarrow> nat \<Rightarrow> byte list \<Rightarrow> file_image \<Rightarrow> file_image" where
  "write_into d off bs img =
     (let img = img\<lparr>visible := overwrite (visible img) off bs\<rparr> in
      if d = WriteThrough then img\<lparr>durable := overwrite (durable img) off bs\<rparr> else img)"

text \<open>How a faulted write misbehaves: which bytes land, of a buffer of \<open>len\<close> bytes.\<close>

definition write_fault :: "fabric \<Rightarrow> fault_plan \<Rightarrow> nat \<Rightarrow> nat \<Rightarrow> nat \<Rightarrow> fired_fault" where
  "write_fault fb plan f off len =
     (let unit = fb_atomic_unit fb f;
          fired = (\<lambda>kind kept. \<lparr>ff_op_index = fb_next_op fb, ff_file = f, ff_kind = kind,
                     ff_offset = off, ff_len = len, ff_kept = kept\<rparr>)
      in
      if p_shape plan = ShapeCorrupt \<and> unit \<le> 1 \<and> 0 < len \<and> fb_verified_from fb f \<le> off
      then fired CorruptWrite (p_tear_pick plan mod len)
      else
        let raw = (if p_shape plan = ShapeTear \<and> 2 \<le> len then 1 + p_tear_pick plan mod (len - 1) else 0);
            kept = (if unit \<le> 1 then raw
                    else let abs_end = off + raw in (abs_end - abs_end mod unit) - off)
        in fired (if 0 < kept then TearWrite else DropWrite) kept)"

definition fault_of :: "fabric \<Rightarrow> fault_plan \<Rightarrow> nat \<Rightarrow> nat \<Rightarrow> io_request \<Rightarrow> fired_fault" where
  "fault_of fb plan f off req =
     (case req of
        Pwrite buf \<Rightarrow> write_fault fb plan f off (length buf)
      | SetLen \<Rightarrow> \<lparr>ff_op_index = fb_next_op fb, ff_file = f, ff_kind = DropSetLen, ff_offset = off,
                  ff_len = 0, ff_kept = 0\<rparr>
      | _ \<Rightarrow> \<lparr>ff_op_index = fb_next_op fb, ff_file = f, ff_kind = FailSync, ff_offset = 0,
             ff_len = 0, ff_kept = 0\<rparr>)"

text \<open>What a fault leaves in the file.\<close>

definition damage :: "fabric \<Rightarrow> nat \<Rightarrow> io_request \<Rightarrow> fired_fault \<Rightarrow> file_image \<Rightarrow> file_image" where
  "damage fb off req fault img =
     (case req of
        Pwrite buf \<Rightarrow>
          (case ff_kind fault of
             TearWrite \<Rightarrow> write_into (fb_durability fb) off (take (ff_kept fault) buf) img
           | CorruptWrite \<Rightarrow>
               write_into (fb_durability fb) off (buf[ff_kept fault := (buf ! ff_kept fault) XOR 255]) img
           | _ \<Rightarrow> img)
      | _ \<Rightarrow> img)"

text \<open>What a healthy operation does: the new image, the number it returns and the bytes it read.\<close>

definition carry_out :: "fabric \<Rightarrow> nat \<Rightarrow> io_request \<Rightarrow> file_image \<Rightarrow> file_image \<times> nat \<times> byte list" where
  "carry_out fb off req img =
     (case req of
        Pwrite buf \<Rightarrow> (write_into (fb_durability fb) off buf img, length buf, [])
      | Pread n \<Rightarrow>
          if length (visible img) \<le> off then (img, 0, [])
          else let bs = take n (drop off (visible img)) in (img, length bs, bs)
      | SyncAll \<Rightarrow> (if fb_durability fb = SyncOnly then img\<lparr>durable := visible img\<rparr> else img, 0, [])
      | SyncData \<Rightarrow> (if fb_durability fb = SyncOnly then img\<lparr>durable := visible img\<rparr> else img, 0, [])
      | SetLen \<Rightarrow>
          (let img = img\<lparr>visible := resize (visible img) off\<rparr> in
           if fb_durability fb = WriteThrough then img\<lparr>durable := resize (durable img) off\<rparr> else img, 0, [])
      | Len \<Rightarrow> (img, length (visible img), []))"

definition execute :: "nat \<Rightarrow> nat \<Rightarrow> io_request \<Rightarrow> fabric \<Rightarrow> fabric \<times> (io_error + nat \<times> byte list)" where
  "execute f off req fb =
     (let index = fb_next_op fb;
          fire = (\<not> fb_crashed fb \<and> fb_fired fb = None \<and> faultable req \<and>
                  (case fb_plan fb of None \<Rightarrow> False | Some plan \<Rightarrow> p_at_op plan \<le> index));
          fb' = fb\<lparr>fb_next_op := index + 1\<rparr>
      in
      if fb_crashed fb then (fb', Inl SimCrashed)
      else if fire then
        let fault = fault_of fb (the (fb_plan fb)) f off req in
        (fb'\<lparr>fb_files := (fb_files fb)(f := damage fb off req fault (fb_files fb f)),
             fb_fired := Some fault, fb_crashed := True\<rparr>, Inl (SimFault (ff_kind fault)))
      else
        let (img, n, bs) = carry_out fb off req (fb_files fb f) in
        (fb'\<lparr>fb_files := (fb_files fb)(f := img)\<rparr>, Inr (n, bs)))"

section \<open>The loops over short counts\<close>

text \<open>\<open>pwrite_all\<close> and \<open>pread_all\<close>; a count of zero is a refusal of their own.\<close>

datatype all_error = ShortIo string | DeviceIo io_error

function pwrite_all :: "nat \<Rightarrow> byte list \<Rightarrow> nat \<Rightarrow> fabric \<Rightarrow> fabric \<times> (all_error + unit)" where
  "pwrite_all f buf off fb =
     (if buf = [] then (fb, Inr ())
      else
        case execute f off (Pwrite buf) fb of
          (fb', Inl e) \<Rightarrow> (fb', Inl (DeviceIo e))
        | (fb', Inr (n, _)) \<Rightarrow>
            if n = 0 then (fb', Inl (ShortIo ''wrote 0 bytes''))
            else pwrite_all f (drop n buf) (off + n) fb')"
  by pat_completeness auto
termination
  by (relation "measure (\<lambda>(f, buf, off, fb). length buf)") auto

function pread_all :: "nat \<Rightarrow> nat \<Rightarrow> nat \<Rightarrow> fabric \<Rightarrow> fabric \<times> (all_error + byte list)" where
  "pread_all f want off fb =
     (if want = 0 then (fb, Inr [])
      else
        case execute f off (Pread want) fb of
          (fb', Inl e) \<Rightarrow> (fb', Inl (DeviceIo e))
        | (fb', Inr (n, bs)) \<Rightarrow>
            if n = 0 then (fb', Inl (ShortIo ''eof before finished record''))
            else (case pread_all f (want - n) (off + n) fb' of
                    (fb'', Inl e) \<Rightarrow> (fb'', Inl e)
                  | (fb'', Inr rest) \<Rightarrow> (fb'', Inr (bs @ rest))))"
  by pat_completeness auto
termination
  by (relation "measure (\<lambda>(f, want, off, fb). want)") auto

declare pwrite_all.simps [simp del] pread_all.simps [simp del]

section \<open>Bytes written over bytes\<close>

lemma length_resize [simp]: "length (resize bs n) = n"
  by (simp add: resize_def)

lemma resize_self: "length bs = n \<Longrightarrow> resize bs n = bs"
  by (simp add: resize_def)

lemma resize_shrink: "n \<le> length bs \<Longrightarrow> resize bs n = take n bs"
  by (simp add: resize_def)

lemma overwrite_at: "overwrite (pre @ old) (length pre) bs = pre @ bs @ drop (length bs) old"
  by (auto simp: overwrite_def Let_def resize_def)

lemma overwrite_start: "overwrite old 0 bs = bs @ drop (length bs) old"
  using overwrite_at[of "[]" old bs] by simp

lemma overwrite_past: "length old \<le> off \<Longrightarrow> overwrite old off bs = old @ replicate (off - length old) 0 @ bs"
  by (auto simp: overwrite_def Let_def resize_def)

section \<open>What an operation can do\<close>

text \<open>
  \<open>plain\<close>: the plan, if there is one, does not garble bytes. \<open>ticked\<close>: only the operation counter moved.
\<close>

definition plain :: "fabric \<Rightarrow> bool" where
  "plain fb \<longleftrightarrow> (case fb_plan fb of None \<Rightarrow> True | Some plan \<Rightarrow> p_shape plan \<noteq> ShapeCorrupt)"

definition ticked :: "fabric \<Rightarrow> fabric \<Rightarrow> bool" where
  "ticked fb fb' \<longleftrightarrow> (\<exists>n. fb' = fb\<lparr>fb_next_op := n\<rparr>)"

definition stored :: "nat \<Rightarrow> file_image \<Rightarrow> fabric \<Rightarrow> fabric \<Rightarrow> bool" where
  "stored f img fb fb' \<longleftrightarrow> (\<exists>n. fb' = fb\<lparr>fb_next_op := n, fb_files := (fb_files fb)(f := img)\<rparr>)"

text \<open>The machine stopped, leaving \<open>img\<close> in file \<open>f\<close>.\<close>

definition stopped :: "nat \<Rightarrow> file_image \<Rightarrow> fabric \<Rightarrow> fabric \<Rightarrow> bool" where
  "stopped f img fb fb' \<longleftrightarrow>
     fb_crashed fb' \<and> fb_files fb' = (fb_files fb)(f := img) \<and> fb_durability fb' = fb_durability fb"

definition healthy :: "fabric \<Rightarrow> bool" where
  "healthy fb \<longleftrightarrow> \<not> fb_crashed fb \<and> fb_fired fb = None"

lemma ticked_facts:
  assumes "ticked fb fb'"
  shows "fb_files fb' = fb_files fb" "fb_durability fb' = fb_durability fb" "plain fb' = plain fb"
    "healthy fb' = healthy fb" "fb_plan fb' = fb_plan fb"
  using assms by (auto simp: ticked_def plain_def healthy_def)

lemma stored_facts:
  assumes "stored f img fb fb'"
  shows "fb_files fb' = (fb_files fb)(f := img)" "fb_durability fb' = fb_durability fb" "plain fb' = plain fb"
    "healthy fb' = healthy fb" "fb_plan fb' = fb_plan fb"
  using assms by (auto simp: stored_def plain_def healthy_def)

lemma write_fault_kept: "write_fault fb plan f off len = flt \<Longrightarrow> p_shape plan \<noteq> ShapeCorrupt \<Longrightarrow>
   ff_kind flt = (if ff_kept flt = 0 then DropWrite else TearWrite) \<and> ff_kept flt < max 1 len"
proof -
  assume "p_shape plan \<noteq> ShapeCorrupt" and flt: "write_fault fb plan f off len = flt"
  define raw where "raw = (if p_shape plan = ShapeTear \<and> 2 \<le> len then 1 + p_tear_pick plan mod (len - 1) else 0)"
  have "1 + p_tear_pick plan mod (len - 1) < len" if "2 \<le> len"
    using that mod_less_divisor[of "len - 1" "p_tear_pick plan"] by linarith
  then have raw: "raw < max 1 len" by (auto simp: raw_def less_max_iff_disj)
  have "(off + raw - (off + raw) mod u) - off \<le> raw" for u by simp
  then have "ff_kept flt \<le> raw"
    using flt \<open>p_shape plan \<noteq> ShapeCorrupt\<close>
    by (auto simp: write_fault_def Let_def raw_def[symmetric])
  with raw flt \<open>p_shape plan \<noteq> ShapeCorrupt\<close> show ?thesis
    by (auto simp: write_fault_def Let_def)
qed

lemma execute_fires:
  assumes "healthy fb" "fb_plan fb = Some plan" "p_at_op plan \<le> fb_next_op fb" "faultable req"
  shows "\<exists>fb' e. execute f off req fb = (fb', Inl e) \<and>
    stopped f (damage fb off req (fault_of fb plan f off req) (fb_files fb f)) fb fb'"
  using assms by (auto simp: execute_def healthy_def stopped_def Let_def)

lemma execute_runs:
  assumes "healthy fb" "\<not> (\<exists>plan. fb_plan fb = Some plan \<and> p_at_op plan \<le> fb_next_op fb) \<or> \<not> faultable req"
  shows "\<exists>fb'. execute f off req fb = (fb', Inr (snd (carry_out fb off req (fb_files fb f)))) \<and>
    stored f (fst (carry_out fb off req (fb_files fb f))) fb fb'"
  using assms
  by (cases "carry_out fb off req (fb_files fb f)")
    (auto simp: execute_def healthy_def stored_def Let_def split: option.splits)

lemma execute_cases:
  assumes "healthy fb"
  obtains (ok) fb' where
      "execute f off req fb = (fb', Inr (snd (carry_out fb off req (fb_files fb f))))"
      "stored f (fst (carry_out fb off req (fb_files fb f))) fb fb'"
  | (fault) fb' e plan where "execute f off req fb = (fb', Inl e)" "fb_plan fb = Some plan" "faultable req"
      "stopped f (damage fb off req (fault_of fb plan f off req) (fb_files fb f)) fb fb'"
  using execute_fires[OF assms] execute_runs[OF assms] by metis

lemma pwrite_outcome:
  assumes h: "healthy fb" "plain fb" and ne: "buf \<noteq> []"
  obtains (ok) fb' where "pwrite_all f buf off fb = (fb', Inr ())"
      "stored f (write_into (fb_durability fb) off buf (fb_files fb f)) fb fb'"
  | (fault) fb' e k where "pwrite_all f buf off fb = (fb', Inl e)" "fb_plan fb \<noteq> None" "k < length buf"
      "stopped f (if k = 0 then fb_files fb f else write_into (fb_durability fb) off (take k buf) (fb_files fb f)) fb fb'"
  using h(1)
proof (cases rule: execute_cases[where f = f and off = off and req = "Pwrite buf"])
  case (ok fb')
  then have "pwrite_all f buf off fb = (fb', Inr ())"
    using ne by (simp add: pwrite_all.simps[of f buf] pwrite_all.simps[of f "[]"] carry_out_def)
  with that(1) ok(2) show ?thesis by (simp add: carry_out_def)
next
  case (fault fb' e plan)
  let ?flt = "write_fault fb plan f off (length buf)"
  have "p_shape plan \<noteq> ShapeCorrupt" using h(2) fault(2) by (simp add: plain_def)
  then have k: "ff_kind ?flt = (if ff_kept ?flt = 0 then DropWrite else TearWrite)" "ff_kept ?flt < length buf"
    using write_fault_kept[OF refl, of plan fb f off "length buf"] ne
    by (simp_all add: max_def Suc_le_eq split: if_splits)
  show ?thesis
  proof (rule that(2)[OF _ _ k(2)])
    show "fb_plan fb \<noteq> None" using fault(2) by simp
    show "pwrite_all f buf off fb = (fb', Inl (DeviceIo e))"
      using fault(1) ne by (simp add: pwrite_all.simps[of f buf])
    show "stopped f (if ff_kept ?flt = 0 then fb_files fb f
        else write_into (fb_durability fb) off (take (ff_kept ?flt) buf) (fb_files fb f)) fb fb'"
      using fault(4) k(1) by (auto simp: damage_def fault_of_def)
  qed
qed

lemma sync_outcome:
  assumes h: "healthy fb" and req: "req = SyncAll \<or> req = SyncData"
  obtains (ok) fb' x where "execute f off req fb = (fb', Inr x)"
      "stored f ((fb_files fb f)\<lparr>durable := if fb_durability fb = SyncOnly then visible (fb_files fb f)
         else durable (fb_files fb f)\<rparr>) fb fb'"
  | (fault) fb' e where "execute f off req fb = (fb', Inl e)" "fb_plan fb \<noteq> None"
      "stopped f (fb_files fb f) fb fb'"
  using h
proof (cases rule: execute_cases[where f = f and off = off and req = req])
  case (ok fb')
  then show ?thesis using that(1) req by (auto simp: carry_out_def split: if_splits)
next
  case (fault fb' e plan)
  then show ?thesis using that(2) req by (auto simp: damage_def)
qed

lemma set_len_outcome:
  assumes h: "healthy fb"
  obtains (ok) fb' x where "execute f n SetLen fb = (fb', Inr x)"
      "stored f \<lparr>durable = if fb_durability fb = WriteThrough then resize (durable (fb_files fb f)) n
         else durable (fb_files fb f), visible = resize (visible (fb_files fb f)) n\<rparr> fb fb'"
  | (fault) fb' e where "execute f n SetLen fb = (fb', Inl e)" "fb_plan fb \<noteq> None"
      "stopped f (fb_files fb f) fb fb'"
  using h
proof (cases rule: execute_cases[where f = f and off = n and req = SetLen])
  case (ok fb')
  then show ?thesis using that(1) by (cases "fb_files fb f") (auto simp: carry_out_def Let_def split: if_splits)
next
  case (fault fb' e plan)
  then show ?thesis using that(2) by (auto simp: damage_def)
qed

text \<open>Reads are never faulted.\<close>

lemma pread_within:
  assumes h: "healthy fb" and within: "off + want \<le> length (visible (fb_files fb f))"
  obtains fb' where "pread_all f want off fb = (fb', Inr (take want (drop off (visible (fb_files fb f)))))" "ticked fb fb'"
proof (cases "want = 0")
  case True
  have "fb = fb\<lparr>fb_next_op := fb_next_op fb\<rparr>" by simp
  then have "ticked fb fb" unfolding ticked_def by blast
  with True show ?thesis using that[of fb] by (simp add: pread_all.simps[of f 0])
next
  case False
  let ?v = "visible (fb_files fb f)"
  obtain fb' where ex: "execute f off (Pread want) fb = (fb', Inr (snd (carry_out fb off (Pread want) (fb_files fb f))))"
      "stored f (fst (carry_out fb off (Pread want) (fb_files fb f))) fb fb'"
    using execute_runs[OF h, of "Pread want"] by auto
  have c: "carry_out fb off (Pread want) (fb_files fb f) = (fb_files fb f, want, take want (drop off ?v))"
    using within False by (simp add: carry_out_def)
  have "pread_all f want off fb = (fb', Inr (take want (drop off ?v)))"
    using ex(1) False unfolding c by (simp add: pread_all.simps[of f want] pread_all.simps[of f 0])
  moreover have "ticked fb fb'"
    using ex(2) unfolding c by (auto simp: stored_def ticked_def)
  ultimately show ?thesis by (rule that)
qed

lemma len_read:
  assumes "healthy fb"
  obtains fb' where "execute f 0 Len fb = (fb', Inr (length (visible (fb_files fb f)), []))" "ticked fb fb'"
proof -
  obtain fb' where "execute f 0 Len fb = (fb', Inr (snd (carry_out fb 0 Len (fb_files fb f))))"
      "stored f (fst (carry_out fb 0 Len (fb_files fb f))) fb fb'"
    using execute_runs[OF assms, of Len] by auto
  then show ?thesis using that by (auto simp: carry_out_def stored_def ticked_def)
qed

lemma write_into_facts [simp]:
  "visible (write_into d off bs img) = overwrite (visible img) off bs"
  "durable (write_into d off bs img) = (if d = WriteThrough then overwrite (durable img) off bs else durable img)"
  by (simp_all add: write_into_def Let_def)

lemma restart_facts [simp]:
  "healthy (restart fb)" "plain (restart fb)" "fb_plan (restart fb) = None"
  "durable (fb_files (restart fb) f) = durable (fb_files fb f)"
  "visible (fb_files (restart fb) f) = durable (fb_files fb f)"
  "fb_durability (restart fb) = fb_durability fb"
  by (simp_all add: restart_def from_images_def healthy_def plain_def image_new_def durable_image_def)

end
