(* ===== verification/Round_Log.thy ===== *)
theory Round_Log
  imports Log_Codec Sim_Storage
begin

text \<open>
  \<open>consensus/log.rs\<close>, the log: \<open>RoundLog\<close> over the \<open>Storage\<close> trait, here the simulated device of
  \<open>Sim_Storage\<close>. Its two files are the handles 0 and 1 of a fabric, which every operation threads through.
  A method that reads is a function to \<open>fabric \<times> result\<close>, one that takes \<open>&mut self\<close> also returns the handle.
  The text of a poison message is left out: the handle only tests that there is one.
\<close>

section \<open>Device operations as results\<close>

type_synonym 'a io = "fabric \<Rightarrow> fabric \<times> 'a log_result"

definition io_bind :: "'a io \<Rightarrow> ('a \<Rightarrow> 'b io) \<Rightarrow> 'b io" where
  "io_bind m k fb = (case m fb of (fb', Inl e) \<Rightarrow> (fb', Inl e) | (fb', Inr x) \<Rightarrow> k x fb')"

definition io_ok :: "'a \<Rightarrow> 'a io" where "io_ok x fb = (fb, Inr x)"

definition io_of :: "'a log_result \<Rightarrow> 'a io" where "io_of r fb = (fb, r)"

definition log_io :: "'e + 'a \<Rightarrow> 'a log_result" where
  "log_io r = (case r of Inl _ \<Rightarrow> Inl (LogIo ''the storage refused'') | Inr x \<Rightarrow> Inr x)"

definition read_at :: "nat \<Rightarrow> nat \<Rightarrow> nat \<Rightarrow> byte list io" where
  "read_at f n off fb = (let (fb', r) = pread_all f n off fb in (fb', log_io r))"

definition write_at :: "nat \<Rightarrow> byte list \<Rightarrow> nat \<Rightarrow> unit io" where
  "write_at f bs off fb = (let (fb', r) = pwrite_all f bs off fb in (fb', log_io r))"

text \<open>\<open>len\<close>, \<open>set_len\<close>, \<open>sync_all\<close> and \<open>sync_data\<close> of a file, with \<open>map_err(io)\<close>.\<close>

definition file_len :: "nat \<Rightarrow> nat io" where
  "file_len f fb = (let (fb', r) = execute f 0 Len fb in (fb', rbind (log_io r) (\<lambda>(n, _). Inr n)))"

definition file_set_len :: "nat \<Rightarrow> nat \<Rightarrow> unit io" where
  "file_set_len f n fb = (let (fb', r) = execute f n SetLen fb in (fb', rbind (log_io r) (\<lambda>_. Inr ())))"

definition file_sync_all :: "nat \<Rightarrow> unit io" where
  "file_sync_all f fb = (let (fb', r) = execute f 0 SyncAll fb in (fb', rbind (log_io r) (\<lambda>_. Inr ())))"

definition file_sync_data :: "nat \<Rightarrow> unit io" where
  "file_sync_data f fb = (let (fb', r) = execute f 0 SyncData fb in (fb', rbind (log_io r) (\<lambda>_. Inr ())))"

section \<open>The handle\<close>

record log_frame =
  f_offset :: nat
  f_len :: nat
  f_term :: nat

record round_log =
  rl_live :: nat
  rl_generation :: nat
  rl_version :: nat
  rl_snapshot_round :: nat
  rl_snapshot_term :: nat
  rl_index :: "log_frame list"
  rl_end_offset :: nat
  rl_durable_round :: nat
  rl_poisoned :: bool

definition log_first_round :: "round_log \<Rightarrow> nat" where
  "log_first_round l = rl_snapshot_round l + 1"

definition log_last_round :: "round_log \<Rightarrow> nat" where
  "log_last_round l = rl_snapshot_round l + length (rl_index l)"

definition log_last_term :: "round_log \<Rightarrow> nat" where
  "log_last_term l = (if rl_index l = [] then rl_snapshot_term l else f_term (last (rl_index l)))"

definition log_len :: "round_log \<Rightarrow> nat" where
  "log_len l = length (rl_index l)"

definition log_is_empty :: "round_log \<Rightarrow> bool" where
  "log_is_empty l = (rl_index l = [])"

section \<open>Opening\<close>

text \<open>The recovery scan; the loop ends because every frame it accepts is at least \<open>MIN_FRAME\<close> bytes.\<close>

function scan_loop :: "nat \<Rightarrow> nat \<Rightarrow> nat \<Rightarrow> nat \<Rightarrow> nat \<Rightarrow> log_frame list \<Rightarrow> (log_frame list \<times> nat) io" where
  "scan_loop f flen off expected prev frames fb =
     (if flen < off + 4 then (fb, Inr (frames, off))
      else
        case read_at f 4 off fb of
          (fb, Inl e) \<Rightarrow> (fb, Inl e)
        | (fb, Inr len_buf) \<Rightarrow>
            let total = from_be len_buf in
            if total < MIN_FRAME \<or> MAX_FRAME < total \<or> flen < off + total then (fb, Inr (frames, off))
            else
              case read_at f total off fb of
                (fb, Inl e) \<Rightarrow> (fb, Inl e)
              | (fb, Inr frame) \<Rightarrow>
                  if unat (crc32 (take (total - 4) frame)) \<noteq> from_be (drop (total - 4) frame)
                  then (fb, Inr (frames, off))
                  else
                    let trm = from_be (sub_bytes frame 4 12); rnd = from_be (sub_bytes frame 12 20) in
                    if rnd \<noteq> expected \<or> trm < prev then (fb, Inr (frames, off))
                    else scan_loop f flen (off + total) (expected + 1) trm
                           (frames @ [\<lparr>f_offset = off, f_len = total, f_term = trm\<rparr>]) fb)"
  by pat_completeness auto
termination
  by (relation "measure (\<lambda>(f, flen, off, _). flen - off)") (auto simp: MIN_FRAME_def)

declare scan_loop.simps [simp del]

definition scan_frames :: "nat \<Rightarrow> nat \<Rightarrow> nat \<Rightarrow> nat \<Rightarrow> (log_frame list \<times> nat) io" where
  "scan_frames f floor floor_term flen = scan_loop f flen LOG_HEADER_SIZE (floor + 1) floor_term []"

definition load_header :: "nat \<Rightarrow> (nat \<times> log_header option) io" where
  "load_header f =
     io_bind (file_len f) (\<lambda>len.
       if LOG_HEADER_SIZE \<le> len then
         io_bind (read_at f LOG_HEADER_SIZE 0) (\<lambda>buf.
         io_bind (io_of (log_header_decode buf)) (\<lambda>h. io_ok (len, h)))
       else io_ok (len, None))"

definition newborn_header :: log_header where
  "newborn_header = \<lparr>h_version = LEGACY_VERSION, h_generation = 1, h_snapshot_round = 0, h_snapshot_term = 0\<rparr>"

definition choose_live ::
    "nat \<Rightarrow> nat \<Rightarrow> log_header option \<Rightarrow> log_header option \<Rightarrow> (nat \<times> log_header) io" where
  "choose_live len0 len1 h0 h1 =
     (case (h0, h1) of
        (None, None) \<Rightarrow>
          if LOG_HEADER_SIZE < len0 \<or> LOG_HEADER_SIZE < len1
          then io_of (Inl (LogCorrupt ''neither round log file carries a readable header''))
          else
            io_bind (write_at 0 (log_header_encode newborn_header) 0) (\<lambda>_.
            io_bind (file_sync_all 0) (\<lambda>_. io_ok (0, newborn_header)))
      | (Some x, None) \<Rightarrow> io_ok (0, x)
      | (None, Some y) \<Rightarrow> io_ok (1, y)
      | (Some x, Some y) \<Rightarrow>
          if h_generation x = h_generation y
          then io_of (Inl (LogCorrupt ''both round log files claim one generation''))
          else if h_generation y < h_generation x then io_ok (0, x) else io_ok (1, y))"

text \<open>The two halves of \<open>with_storage\<close>: which file is live, and what it holds.\<close>

definition pick_live :: "(nat \<times> nat \<times> log_header) io" where
  "pick_live =
     io_bind (load_header 0) (\<lambda>(len0, h0).
     io_bind (load_header 1) (\<lambda>(len1, h1).
     io_bind (choose_live len0 len1 h0 h1) (\<lambda>(live, h).
       io_ok (if live = 0 then len0 else len1, live, h))))"

definition open_live :: "nat \<Rightarrow> nat \<Rightarrow> log_header \<Rightarrow> round_log io" where
  "open_live len live h =
     io_bind (scan_frames live (h_snapshot_round h) (h_snapshot_term h) len) (\<lambda>(frames, end_offset).
     io_bind (if end_offset < len
              then io_bind (file_set_len live end_offset) (\<lambda>_. file_sync_all live) else io_ok ()) (\<lambda>_.
       io_ok \<lparr>rl_live = live, rl_generation = h_generation h, rl_version = h_version h,
         rl_snapshot_round = h_snapshot_round h, rl_snapshot_term = h_snapshot_term h,
         rl_index = frames, rl_end_offset = end_offset,
         rl_durable_round = h_snapshot_round h + length frames, rl_poisoned = False\<rparr>))"

definition with_storage :: "round_log io" where
  "with_storage = io_bind pick_live (\<lambda>(len, live, h). open_live len live h)"

section \<open>Reading\<close>

definition check_live :: "round_log \<Rightarrow> unit log_result" where
  "check_live l = (if rl_poisoned l then Inl (Poisoned ''the log refuses to mutate'') else Inr ())"

definition check_readable :: "round_log \<Rightarrow> nat \<Rightarrow> unit log_result" where
  "check_readable l rnd =
     (if rnd = 0 then Inl (NotFound 0 (log_first_round l) (log_last_round l))
      else if rnd \<le> rl_snapshot_round l then Inl (Compacted rnd (rl_snapshot_round l))
      else Inr ())"

definition frame_at :: "round_log \<Rightarrow> nat \<Rightarrow> log_frame log_result" where
  "frame_at l rnd =
     rbind (check_readable l rnd) (\<lambda>_.
       if log_last_round l < rnd then Inl (NotFound rnd (log_first_round l) (log_last_round l))
       else Inr (rl_index l ! (rnd - log_first_round l)))"

definition log_term_at :: "round_log \<Rightarrow> nat \<Rightarrow> nat log_result" where
  "log_term_at l rnd =
     (if rnd = 0 then Inr 0
      else if rnd = rl_snapshot_round l then Inr (rl_snapshot_term l)
      else rbind (frame_at l rnd) (\<lambda>f. Inr (f_term f)))"

definition read_frame :: "round_log \<Rightarrow> log_frame \<Rightarrow> byte list io" where
  "read_frame l f = read_at (rl_live l) (f_len f) (f_offset f)"

definition log_entry :: "round_log \<Rightarrow> nat \<Rightarrow> entry io" where
  "log_entry l rnd =
     io_bind (io_of (frame_at l rnd)) (\<lambda>f.
     io_bind (read_frame l f) (\<lambda>bytes. io_of (decode_frame bytes rnd (f_term f))))"

fun range_loop ::
    "round_log \<Rightarrow> nat \<Rightarrow> nat \<Rightarrow> log_frame list \<Rightarrow> nat \<Rightarrow> nat \<Rightarrow> entry list \<Rightarrow> entry list io" where
  "range_loop l max_entries max_bytes [] rnd bytes out = io_ok out"
| "range_loop l max_entries max_bytes (f # fs) rnd bytes out =
     (if out \<noteq> [] \<and> (max_entries \<le> length out \<or> max_bytes < bytes + f_len f) then io_ok out
      else
        io_bind (read_frame l f) (\<lambda>raw.
        io_bind (io_of (decode_frame raw rnd (f_term f))) (\<lambda>e.
          range_loop l max_entries max_bytes fs (rnd + 1) (bytes + f_len f) (out @ [e]))))"

definition log_range :: "round_log \<Rightarrow> nat \<Rightarrow> nat \<Rightarrow> nat \<Rightarrow> entry list io" where
  "log_range l start max_entries max_bytes =
     io_bind (io_of (check_readable l start)) (\<lambda>_.
       if log_last_round l < start then
         (if start = log_last_round l + 1 then io_ok []
          else io_of (Inl (NotFound start (log_first_round l) (log_last_round l))))
       else if max_entries = 0 then io_ok []
       else range_loop l max_entries max_bytes (drop (start - log_first_round l) (rl_index l)) start 0 [])"

section \<open>Changing the log\<close>

type_synonym log_step = "fabric \<times> round_log \<times> unit log_result"

definition poison :: "fabric \<Rightarrow> round_log \<Rightarrow> fabric \<times> round_log \<times> 'a log_result" where
  "poison fb l = (fb, l\<lparr>rl_poisoned := True\<rparr>, Inl (Poisoned ''a durability operation failed''))"

definition write_batch :: "round_log \<Rightarrow> byte list \<Rightarrow> nat \<Rightarrow> unit io" where
  "write_batch l bs off = write_at (rl_live l) (bs @ replicate 4 0) off"

definition COPY_BATCH :: nat where "COPY_BATCH = 2 ^ 20"

fun copy_frames ::
    "round_log \<Rightarrow> nat \<Rightarrow> log_frame list \<Rightarrow> nat \<Rightarrow> byte list \<Rightarrow> log_frame list \<Rightarrow>
     (nat \<times> byte list \<times> log_frame list) io" where
  "copy_frames l dst [] at batch moved = io_ok (at, batch, moved)"
| "copy_frames l dst (f # fs) at batch moved =
     io_bind (read_frame l f) (\<lambda>raw.
       let moved = moved @ [\<lparr>f_offset = at, f_len = f_len f, f_term = f_term f\<rparr>];
           at = at + length raw;
           batch = batch @ raw
       in if COPY_BATCH \<le> length batch
          then io_bind (write_at dst batch (at - length batch)) (\<lambda>_. copy_frames l dst fs at [] moved)
          else copy_frames l dst fs at batch moved)"

text \<open>Steps 1 and 2 of \<open>switch\<close>: the spare reclaimed, the survivors copied and synced.\<close>

definition fill_spare :: "round_log \<Rightarrow> nat \<Rightarrow> log_frame list \<Rightarrow> (nat \<times> log_frame list) io" where
  "fill_spare l dst survivors =
     io_bind (file_set_len dst 0) (\<lambda>_.
     io_bind (copy_frames l dst survivors LOG_HEADER_SIZE [] []) (\<lambda>(at, batch, moved).
     let batch = batch @ replicate 4 0 in
     io_bind (write_at dst batch (at + 4 - length batch)) (\<lambda>_.
     io_bind (file_sync_data dst) (\<lambda>_. io_ok (at, moved)))))"

definition log_switch ::
    "log_frame list \<Rightarrow> nat \<Rightarrow> nat \<Rightarrow> nat \<Rightarrow> fabric \<Rightarrow> round_log \<Rightarrow> log_step" where
  "log_switch survivors through trm version fb l =
     (let spare = 1 - rl_live l in
      case fill_spare l spare survivors fb of
        (fb, Inl e) \<Rightarrow> (fb, l, Inl e)
      | (fb, Inr (at, moved)) \<Rightarrow>
          let h = \<lparr>h_version = version, h_generation = rl_generation l + 1,
                   h_snapshot_round = through, h_snapshot_term = trm\<rparr> in
          case io_bind (write_at spare (log_header_encode h) 0) (\<lambda>_. file_sync_all spare) fb of
            (fb, Inl e) \<Rightarrow> poison fb l
          | (fb, Inr _) \<Rightarrow>
              let stale = rl_live l;
                  l = l\<lparr>rl_live := spare, rl_generation := h_generation h, rl_version := version,
                        rl_snapshot_round := through, rl_snapshot_term := trm, rl_index := moved,
                        rl_end_offset := at, rl_durable_round := through + length moved\<rparr> in
              case io_bind (file_set_len stale 0) (\<lambda>_. file_sync_all stale) fb of
                (fb, Inl e) \<Rightarrow> poison fb l
              | (fb, Inr _) \<Rightarrow> (fb, l, Inr ()))"

definition log_raise_version :: "fabric \<Rightarrow> round_log \<Rightarrow> log_step" where
  "log_raise_version fb l =
     log_switch (rl_index l) (rl_snapshot_round l) (rl_snapshot_term l) VERSION fb l"

text \<open>The checks of \<open>append\<close>, made on the whole batch before a byte is written.\<close>

fun check_batch :: "entry list \<Rightarrow> nat \<Rightarrow> nat \<Rightarrow> byte list list log_result" where
  "check_batch [] expect prev_term = Inr []"
| "check_batch (e # es) expect prev_term =
     (if e_round e \<noteq> expect then Inl (NonContiguous expect (e_round e))
      else if e_term e < prev_term then Inl (TermWentBackwards prev_term (e_term e))
      else
        rbind (encode_frame e) (\<lambda>frame.
        rbind (check_batch es (expect + 1) (e_term e)) (\<lambda>frames. Inr (frame # frames))))"

fun place_frames :: "nat \<Rightarrow> byte list list \<Rightarrow> entry list \<Rightarrow> log_frame list" where
  "place_frames at (f # fs) (e # es) =
     \<lparr>f_offset = at, f_len = length f, f_term = e_term e\<rparr> # place_frames (at + length f) fs es"
| "place_frames at _ _ = []"

text \<open>The second half of \<open>append\<close>: the frames placed and written to the live file.\<close>

definition write_frames :: "byte list list \<Rightarrow> entry list \<Rightarrow> fabric \<Rightarrow> round_log \<Rightarrow> log_step" where
  "write_frames frames es fb l =
     (let buf = concat frames in
      case write_batch l buf (rl_end_offset l) fb of
        (fb, Inl e) \<Rightarrow> (fb, l, Inl e)
      | (fb, Inr _) \<Rightarrow>
          (fb, l\<lparr>rl_index := rl_index l @ place_frames (rl_end_offset l) frames es,
                 rl_end_offset := rl_end_offset l + length buf\<rparr>, Inr ()))"

definition log_append :: "entry list \<Rightarrow> fabric \<Rightarrow> round_log \<Rightarrow> log_step" where
  "log_append es fb l =
     (case check_live l of
        Inl e \<Rightarrow> (fb, l, Inl e)
      | Inr _ \<Rightarrow>
          if es = [] then (fb, l, Inr ())
          else
            case check_batch es (log_last_round l + 1) (log_last_term l) of
              Inl e \<Rightarrow> (fb, l, Inl e)
            | Inr frames \<Rightarrow>
                if rl_version l = LEGACY_VERSION \<and> list_ex (\<lambda>f. LEGACY_READ_BOUND < length f) frames then
                  (case log_raise_version fb l of
                     (fb, l, Inl e) \<Rightarrow> (fb, l, Inl e)
                   | (fb, l, Inr _) \<Rightarrow> write_frames frames es fb l)
                else write_frames frames es fb l)"

definition log_sync :: "fabric \<Rightarrow> round_log \<Rightarrow> fabric \<times> round_log \<times> nat log_result" where
  "log_sync fb l =
     (case check_live l of
        Inl e \<Rightarrow> (fb, l, Inl e)
      | Inr _ \<Rightarrow>
          case file_sync_data (rl_live l) fb of
            (fb, Inl e) \<Rightarrow> poison fb l
          | (fb, Inr _) \<Rightarrow> (fb, l\<lparr>rl_durable_round := log_last_round l\<rparr>, Inr (log_last_round l)))"

definition log_truncate_from :: "nat \<Rightarrow> fabric \<Rightarrow> round_log \<Rightarrow> log_step" where
  "log_truncate_from start fb l =
     (case rbind (check_live l) (\<lambda>_. check_readable l start) of
        Inl e \<Rightarrow> (fb, l, Inl e)
      | Inr _ \<Rightarrow>
          let last_round = log_last_round l in
          if last_round < start then
            (if start = last_round + 1 then (fb, l, Inr ())
             else (fb, l, Inl (NotFound start (log_first_round l) last_round)))
          else
            let idx = start - log_first_round l;
                new_end = f_offset (rl_index l ! idx);
                l = l\<lparr>rl_index := take idx (rl_index l), rl_end_offset := new_end,
                      rl_durable_round := min (rl_durable_round l) (start - 1)\<rparr>
            in case io_bind (file_set_len (rl_live l) new_end) (\<lambda>_. file_sync_all (rl_live l)) fb of
                 (fb, Inl e) \<Rightarrow> poison fb l
               | (fb, Inr _) \<Rightarrow> (fb, l, Inr ()))"

definition log_discard_prefix :: "nat \<Rightarrow> nat \<Rightarrow> fabric \<Rightarrow> round_log \<Rightarrow> log_step" where
  "log_discard_prefix through trm fb l =
     (case check_live l of
        Inl e \<Rightarrow> (fb, l, Inl e)
      | Inr _ \<Rightarrow>
          if through < rl_snapshot_round l then (fb, l, Inr ())
          else if through = rl_snapshot_round l then
            (if trm \<noteq> rl_snapshot_term l
             then (fb, l, Inl (TermMismatch through (rl_snapshot_term l) trm)) else (fb, l, Inr ()))
          else
            case (if through \<le> log_last_round l
                  then rbind (frame_at l through) (\<lambda>f.
                    if f_term f \<noteq> trm then Inl (TermMismatch through (f_term f) trm) else Inr ())
                  else Inr ()) of
              Inl e \<Rightarrow> (fb, l, Inl e)
            | Inr _ \<Rightarrow>
                let survivors = (if through < log_last_round l
                                 then drop (through + 1 - log_first_round l) (rl_index l) else [])
                in log_switch survivors through trm (rl_version l) fb l)"

end
