(* ===== verification/Log_Recovery.thy ===== *)
theory Log_Recovery
  imports Round_Log
begin

text \<open>
  What the bytes of a \<open>RoundLog\<close>'s two files stand for, that opening reads exactly that back, and what every
  operation leaves on the device when the device fails under it. A log is a floor and the entries above it.
\<close>

section \<open>The log the bytes stand for\<close>

record alog =
  a_floor :: nat
  a_floor_term :: nat
  a_entries :: "entry list"

text \<open>Rounds contiguous, terms never falling, every entry one the format can carry.\<close>

fun chained :: "nat \<Rightarrow> nat \<Rightarrow> entry list \<Rightarrow> bool" where
  "chained r t [] = True"
| "chained r t (e # es) = (e_round e = r \<and> t \<le> e_term e \<and> frame_ok e \<and> chained (Suc r) (e_term e) es)"

definition a_ok :: "alog \<Rightarrow> bool" where
  "a_ok a \<longleftrightarrow> chained (Suc (a_floor a)) (a_floor_term a) (a_entries a)"

abbreviation frames :: "entry list \<Rightarrow> byte list" where
  "frames es \<equiv> concat (map frame_bytes es)"

fun index_of :: "nat \<Rightarrow> entry list \<Rightarrow> log_frame list" where
  "index_of at [] = []"
| "index_of at (e # es) =
     \<lparr>f_offset = at, f_len = length (frame_bytes e), f_term = e_term e\<rparr> # index_of (at + length (frame_bytes e)) es"

text \<open>Bytes at which the recovery scan stops because no frame fits there.\<close>

definition stops :: "byte list \<Rightarrow> bool" where
  "stops tls \<longleftrightarrow> length tls < 4 \<or> from_be (take 4 tls) < MIN_FRAME \<or> MAX_FRAME < from_be (take 4 tls) \<or>
     length tls < from_be (take 4 tls)"

lemma stops_short: "length tls \<le> 4 \<Longrightarrow> stops tls"
  by (auto simp: stops_def MIN_FRAME_def)

lemma length_index_of [simp]: "length (index_of at es) = length es"
  by (induction es arbitrary: at) auto

lemma index_of_append: "index_of at (xs @ ys) = index_of at xs @ index_of (at + length (frames xs)) ys"
  by (induction xs arbitrary: at) (auto simp: add.assoc)

lemma index_of_nth:
  "i < length es \<Longrightarrow> index_of at es ! i =
     \<lparr>f_offset = at + length (frames (take i es)), f_len = length (frame_bytes (es ! i)), f_term = e_term (es ! i)\<rparr>"
  by (induction es arbitrary: at i) (auto simp: nth_Cons add.assoc split: nat.splits)

lemma take_index_of: "take i (index_of at es) = index_of at (take i es)"
  by (induction es arbitrary: at i) (auto simp: take_Cons split: nat.splits)

lemma drop_index_of: "drop i (index_of at es) = index_of (at + length (frames (take i es))) (drop i es)"
  by (induction es arbitrary: at i) (auto simp: drop_Cons take_Cons add.assoc split: nat.splits)

lemma chained_append:
  "chained r t (xs @ ys) \<longleftrightarrow>
     chained r t xs \<and> chained (r + length xs) (if xs = [] then t else e_term (last xs)) ys"
  by (induction xs arbitrary: r t) auto

lemma chained_take: "chained r t es \<Longrightarrow> chained r t (take n es)"
  using chained_append[of r t "take n es" "drop n es"] by simp

lemma chained_drop:
  "chained r t es \<Longrightarrow> n < length es \<Longrightarrow> chained (Suc (r + n)) (e_term (es ! n)) (drop (Suc n) es)"
  using chained_append[of r t "take (Suc n) es" "drop (Suc n) es"]
  by (simp only: append_take_drop_id) (simp add: take_Suc_conv_app_nth min_def)

lemma chained_nth: "chained r t es \<Longrightarrow> n < length es \<Longrightarrow> e_round (es ! n) = r + n \<and> frame_ok (es ! n)"
  by (induction es arbitrary: r t n) (auto simp: nth_Cons split: nat.splits)

section \<open>Device operations\<close>

lemma read_at_within:
  assumes "healthy fb" "off + n \<le> length (visible (fb_files fb f))"
  obtains fb' where "read_at f n off fb = (fb', Inr (take n (drop off (visible (fb_files fb f)))))" "ticked fb fb'"
proof (rule pread_within[OF assms])
  fix fb'
  assume "pread_all f n off fb = (fb', Inr (take n (drop off (visible (fb_files fb f)))))" "ticked fb fb'"
  then show ?thesis using that by (simp add: read_at_def log_io_def)
qed

lemma file_len_read:
  assumes "healthy fb"
  obtains fb' where "file_len f fb = (fb', Inr (length (visible (fb_files fb f))))" "ticked fb fb'"
proof (rule len_read[OF assms, of f])
  fix fb'
  assume "execute f 0 Len fb = (fb', Inr (length (visible (fb_files fb f)), []))" "ticked fb fb'"
  then show ?thesis using that by (simp add: file_len_def log_io_def)
qed

lemma ticked_refl [simp]: "ticked fb fb"
proof -
  have "fb = fb\<lparr>fb_next_op := fb_next_op fb\<rparr>" by simp
  then show ?thesis unfolding ticked_def by blast
qed

lemma ticked_trans: "ticked a b \<Longrightarrow> ticked b c \<Longrightarrow> ticked a c"
  by (auto simp: ticked_def)

lemma write_at_outcome:
  assumes "healthy fb" "plain fb" "bs \<noteq> []"
  obtains (ok) fb' where "write_at f bs off fb = (fb', Inr ())"
      "stored f (write_into (fb_durability fb) off bs (fb_files fb f)) fb fb'"
  | (fault) fb' e k where "write_at f bs off fb = (fb', Inl e)" "fb_plan fb \<noteq> None" "k < length bs"
      "stopped f (if k = 0 then fb_files fb f else write_into (fb_durability fb) off (take k bs) (fb_files fb f)) fb fb'"
  using assms
proof (cases rule: pwrite_outcome[where f = f and off = off])
  case (ok fb')
  then show ?thesis using that(1) by (simp add: write_at_def log_io_def)
next
  case (fault fb' e k)
  show ?thesis by (rule that(2)[OF _ fault(2-4)]) (simp add: write_at_def log_io_def fault(1))
qed

text \<open>The image a successful \<open>set_len\<close> or sync leaves.\<close>

definition cut_image :: "durability \<Rightarrow> nat \<Rightarrow> file_image \<Rightarrow> file_image" where
  "cut_image d n img = \<lparr>durable = if d = WriteThrough then resize (durable img) n else durable img,
     visible = resize (visible img) n\<rparr>"

definition synced_image :: "durability \<Rightarrow> file_image \<Rightarrow> file_image" where
  "synced_image d img = img\<lparr>durable := if d = SyncOnly then visible img else durable img\<rparr>"

lemma image_facts [simp]:
  "visible (cut_image d n img) = resize (visible img) n"
  "durable (cut_image d n img) = (if d = WriteThrough then resize (durable img) n else durable img)"
  "visible (synced_image d img) = visible img"
  "durable (synced_image d img) = (if d = SyncOnly then visible img else durable img)"
  by (simp_all add: cut_image_def synced_image_def)

lemma set_len_cases:
  assumes "healthy fb"
  obtains (ok) fb' where "file_set_len f n fb = (fb', Inr ())" "stored f (cut_image (fb_durability fb) n (fb_files fb f)) fb fb'"
  | (fault) fb' e where "file_set_len f n fb = (fb', Inl e)" "fb_plan fb \<noteq> None" "stopped f (fb_files fb f) fb fb'"
  using assms
proof (cases rule: set_len_outcome[where f = f and n = n])
  case (ok fb' x)
  then show ?thesis using that(1) by (simp add: file_set_len_def log_io_def cut_image_def)
next
  case (fault fb' e)
  show ?thesis by (rule that(2)[OF _ fault(2-3)]) (simp add: file_set_len_def log_io_def fault(1))
qed

lemma sync_all_cases:
  assumes "healthy fb"
  obtains (ok) fb' where "file_sync_all f fb = (fb', Inr ())" "stored f (synced_image (fb_durability fb) (fb_files fb f)) fb fb'"
  | (fault) fb' e where "file_sync_all f fb = (fb', Inl e)" "fb_plan fb \<noteq> None" "stopped f (fb_files fb f) fb fb'"
proof -
  have "SyncAll = SyncAll \<or> SyncAll = SyncData" by simp
  with assms show ?thesis
  proof (cases rule: sync_outcome[where f = f and off = 0])
    case (ok fb' x)
    then show ?thesis using that(1) by (simp add: file_sync_all_def log_io_def synced_image_def)
  next
    case (fault fb' e)
    show ?thesis by (rule that(2)[OF _ fault(2-3)]) (simp add: file_sync_all_def log_io_def fault(1))
  qed
qed

lemma sync_data_cases:
  assumes "healthy fb"
  obtains (ok) fb' where "file_sync_data f fb = (fb', Inr ())" "stored f (synced_image (fb_durability fb) (fb_files fb f)) fb fb'"
  | (fault) fb' e where "file_sync_data f fb = (fb', Inl e)" "fb_plan fb \<noteq> None" "stopped f (fb_files fb f) fb fb'"
proof -
  have "SyncData = SyncAll \<or> SyncData = SyncData" by simp
  with assms show ?thesis
  proof (cases rule: sync_outcome[where f = f and off = 0])
    case (ok fb' x)
    then show ?thesis using that(1) by (simp add: file_sync_data_def log_io_def synced_image_def)
  next
    case (fault fb' e)
    show ?thesis by (rule that(2)[OF _ fault(2-3)]) (simp add: file_sync_data_def log_io_def fault(1))
  qed
qed

section \<open>The recovery scan\<close>

lemma scan_stops:
  assumes h: "healthy fb" and v: "visible (fb_files fb f) = pre @ tls" and "stops tls"
  shows "\<exists>fb'. scan_loop f (length pre + length tls) (length pre) r t acc fb = (fb', Inr (acc, length pre)) \<and> ticked fb fb'"
proof (cases "length tls < 4")
  case True
  then show ?thesis by (simp add: scan_loop.simps[of f])
next
  case False
  obtain fb' where rd: "read_at f 4 (length pre) fb = (fb', Inr (take 4 (drop (length pre) (visible (fb_files fb f)))))"
      "ticked fb fb'"
    by (rule read_at_within[OF h, of "length pre" 4 f]) (use False v in auto)
  have "scan_loop f (length pre + length tls) (length pre) r t acc fb = (fb', Inr (acc, length pre))"
    using False assms(3) rd(1) by (simp add: scan_loop.simps[of f] v Let_def stops_def)
  with rd(2) show ?thesis by blast
qed

lemma frame_length_bounds:
  "frame_ok e \<Longrightarrow> MIN_FRAME \<le> length (frame_bytes e) \<and> length (frame_bytes e) \<le> MAX_FRAME"
  using log_cmd_bytes_nonempty[of "e_command e"]
  by (simp add: frame_ok_def MIN_FRAME_def MAX_FRAME_def MAX_ENTRY_BYTES_def MAX_FRAME_BYTES_def length_frame_bytes)

lemma scan_step:
  assumes h: "healthy fb" and v: "visible (fb_files fb f) = pre @ frame_bytes e @ rest"
    and e: "frame_ok e" "e_round e = r" "t \<le> e_term e" and n: "n = length (frame_bytes e)"
    and flen: "flen = length pre + n + length rest"
  shows "\<exists>fb'. scan_loop f flen (length pre) r t acc fb =
      scan_loop f flen (length pre + n) (Suc r) (e_term e)
        (acc @ [\<lparr>f_offset = length pre, f_len = n, f_term = e_term e\<rparr>]) fb' \<and> ticked fb fb'"
proof -
  have n25: "MIN_FRAME \<le> n" "n \<le> MAX_FRAME" using frame_length_bounds[OF e(1)] n by auto
  then have n4: "4 \<le> n" by (simp add: MIN_FRAME_def)
  obtain fb1 where r1: "read_at f 4 (length pre) fb = (fb1, Inr (take 4 (drop (length pre) (visible (fb_files fb f)))))"
      "ticked fb fb1"
    by (rule read_at_within[OF h, of "length pre" 4 f]) (use n n4 v in auto)
  have h1: "healthy fb1" "fb_files fb1 = fb_files fb" using ticked_facts[OF r1(2)] h by auto
  obtain fb2 where r2: "read_at f n (length pre) fb1 = (fb2, Inr (take n (drop (length pre) (visible (fb_files fb1 f)))))"
      "ticked fb1 fb2"
    by (rule read_at_within[OF h1(1), of "length pre" n f]) (use n v h1 in auto)
  have "take 4 (drop (length pre) (visible (fb_files fb f))) = sub_bytes (frame_bytes e) 0 4"
    using n n4 by (simp add: sub_bytes_def v)
  with r1(1) have r1': "read_at f 4 (length pre) fb = (fb1, Inr (sub_bytes (frame_bytes e) 0 4))" by simp
  have "take n (drop (length pre) (visible (fb_files fb1 f))) = frame_bytes e" by (simp add: n v h1)
  with r2(1) have r2': "read_at f n (length pre) fb1 = (fb2, Inr (frame_bytes e))" by simp
  have "scan_loop f flen (length pre) r t acc fb =
      scan_loop f flen (length pre + n) (Suc r) (e_term e)
        (acc @ [\<lparr>f_offset = length pre, f_len = n, f_term = e_term e\<rparr>]) fb2"
    unfolding scan_loop.simps[of f flen "length pre"]
    using n4 n25 e flen by (simp add: r1' r2' frame_pieces[OF e(1) n] Let_def)
  with ticked_trans[OF r1(2) r2(2)] show ?thesis by blast
qed

lemma scan_all:
  assumes "healthy fb" "visible (fb_files fb f) = pre @ frames es @ tls" "stops tls" "chained r t es"
    "flen = length pre + length (frames es) + length tls"
  shows "\<exists>fb'. scan_loop f flen (length pre) r t acc fb =
      (fb', Inr (acc @ index_of (length pre) es, length pre + length (frames es))) \<and> ticked fb fb'"
  using assms
proof (induction es arbitrary: pre r t acc fb)
  case Nil
  then show ?case using scan_stops[of fb f pre tls r t acc] by simp
next
  case (Cons e es)
  let ?n = "length (frame_bytes e)"
  obtain fb1 where 1: "scan_loop f flen (length pre) r t acc fb =
      scan_loop f flen (length pre + ?n) (Suc r) (e_term e)
        (acc @ [\<lparr>f_offset = length pre, f_len = ?n, f_term = e_term e\<rparr>]) fb1" "ticked fb fb1"
    using scan_step[OF Cons.prems(1), of f pre e "frames es @ tls" r t ?n flen acc] Cons.prems by auto
  have f1: "healthy fb1" "fb_files fb1 = fb_files fb" using ticked_facts[OF 1(2)] Cons.prems(1) by auto
  have v1: "visible (fb_files fb1 f) = (pre @ frame_bytes e) @ frames es @ tls" using Cons.prems(2) f1 by simp
  have c1: "chained (Suc r) (e_term e) es" using Cons.prems(4) by simp
  have l1: "flen = length (pre @ frame_bytes e) + length (frames es) + length tls" using Cons.prems(5) by simp
  obtain fb2 where 2: "scan_loop f flen (length (pre @ frame_bytes e)) (Suc r) (e_term e)
        (acc @ [\<lparr>f_offset = length pre, f_len = ?n, f_term = e_term e\<rparr>]) fb1 =
      (fb2, Inr ((acc @ [\<lparr>f_offset = length pre, f_len = ?n, f_term = e_term e\<rparr>]) @
        index_of (length (pre @ frame_bytes e)) es, length (pre @ frame_bytes e) + length (frames es)))"
      "ticked fb1 fb2"
    using Cons.IH[OF f1(1) v1 Cons.prems(3) c1 l1] by blast
  show ?case
    using 1(1) 2(1) ticked_trans[OF 1(2) 2(2)] by (simp add: add.assoc)
qed

section \<open>Opening what a device holds\<close>

definition file_header :: "byte list \<Rightarrow> log_header option log_result" where
  "file_header bs = (if length bs < 36 then Inr None else log_header_decode (take 36 bs))"

text \<open>A file that cannot be taken for the live one, whose header has generation \<open>g\<close>.\<close>

definition no_rival :: "byte list \<Rightarrow> nat \<Rightarrow> bool" where
  "no_rival bs g \<longleftrightarrow> (case file_header bs of
     Inl _ \<Rightarrow> False | Inr None \<Rightarrow> True | Inr (Some h) \<Rightarrow> h_generation h < g)"

definition legacy_ok :: "log_header \<Rightarrow> entry list \<Rightarrow> bool" where
  "legacy_ok h es \<longleftrightarrow> h_version h = VERSION \<or> list_all (\<lambda>e. length (frame_bytes e) \<le> LEGACY_READ_BOUND) es"

text \<open>The header and the log fit each other.\<close>

definition fits :: "nat \<Rightarrow> log_header \<Rightarrow> alog \<Rightarrow> bool" where
  "fits live h a \<longleftrightarrow> live \<le> 1 \<and> header_ok h \<and> h_snapshot_round h = a_floor a \<and>
     h_snapshot_term h = a_floor_term a \<and> a_ok a \<and> legacy_ok h (a_entries a)"

definition on_disk :: "(nat \<Rightarrow> byte list) \<Rightarrow> nat \<Rightarrow> log_header \<Rightarrow> alog \<Rightarrow> bool" where
  "on_disk d live h a \<longleftrightarrow> fits live h a \<and> no_rival (d (1 - live)) (h_generation h) \<and>
     (\<exists>tls. d live = log_header_encode h @ frames (a_entries a) @ tls \<and> stops tls)"

definition a_last :: "alog \<Rightarrow> nat" where
  "a_last a = a_floor a + length (a_entries a)"

text \<open>The handle on such a log.\<close>

definition handle_of :: "nat \<Rightarrow> log_header \<Rightarrow> alog \<Rightarrow> nat \<Rightarrow> round_log" where
  "handle_of live h a dr = \<lparr>rl_live = live, rl_generation = h_generation h, rl_version = h_version h,
     rl_snapshot_round = a_floor a, rl_snapshot_term = a_floor_term a, rl_index = index_of 36 (a_entries a),
     rl_end_offset = 36 + length (frames (a_entries a)), rl_durable_round = dr, rl_poisoned = False\<rparr>"

text \<open>The device under an open handle: \<open>m\<close> of the entries would survive a crash now.\<close>

definition running :: "fabric \<Rightarrow> nat \<Rightarrow> log_header \<Rightarrow> alog \<Rightarrow> nat \<Rightarrow> bool" where
  "running fb live h a m \<longleftrightarrow> healthy fb \<and> plain fb \<and> fits live h a \<and> m \<le> length (a_entries a) \<and>
     (\<exists>tls. length tls \<le> 4 \<and> visible (fb_files fb live) = log_header_encode h @ frames (a_entries a) @ tls) \<and>
     (\<exists>tls. length tls \<le> 4 \<and> durable (fb_files fb live) = log_header_encode h @ frames (take m (a_entries a)) @ tls) \<and>
     (fb_durability fb = WriteThrough \<longrightarrow>
        m = length (a_entries a) \<and> durable (fb_files fb live) = visible (fb_files fb live)) \<and>
     no_rival (durable (fb_files fb (1 - live))) (h_generation h)"

lemma file_header_encode: "header_ok h \<Longrightarrow> file_header (log_header_encode h @ bs) = Inr (Some h)"
  by (simp add: file_header_def log_header_decode_encode)

lemma load_header_reads:
  assumes h: "healthy fb" and fh: "file_header (visible (fb_files fb f)) = Inr ho"
  shows "\<exists>fb'. load_header f fb = (fb', Inr (length (visible (fb_files fb f)), ho)) \<and> ticked fb fb'"
proof -
  let ?v = "visible (fb_files fb f)"
  obtain fb1 where 1: "file_len f fb = (fb1, Inr (length ?v))" "ticked fb fb1" by (rule file_len_read[OF h])
  show ?thesis
  proof (cases "36 \<le> length ?v")
    case False
    with 1 fh show ?thesis
      by (simp add: load_header_def io_bind_def io_ok_def LOG_HEADER_SIZE_def file_header_def)
  next
    case True
    note f1 = ticked_facts[OF 1(2)]
    obtain fb2 where 2: "read_at f 36 0 fb1 = (fb2, Inr (take 36 (drop 0 (visible (fb_files fb1 f)))))" "ticked fb1 fb2"
      by (rule read_at_within[of fb1 0 36 f]) (use True h f1 in auto)
    have "log_header_decode (take 36 ?v) = Inr ho" using fh True by (simp add: file_header_def)
    with 1 2 True have "load_header f fb = (fb2, Inr (length ?v, ho))"
      by (simp add: load_header_def io_bind_def io_ok_def io_of_def LOG_HEADER_SIZE_def f1)
    with ticked_trans[OF 1(2) 2(2)] show ?thesis by blast
  qed
qed

lemma pick_live_reads:
  assumes h: "healthy fb" and live: "live \<le> 1"
    and hl: "file_header (visible (fb_files fb live)) = Inr (Some x)"
    and hs: "no_rival (visible (fb_files fb (1 - live))) (h_generation x)"
  shows "\<exists>fb'. pick_live fb =
      (fb', Inr (length (visible (fb_files fb live)), live, x)) \<and> ticked fb fb'"
proof -
  obtain ho where ho: "file_header (visible (fb_files fb (1 - live))) = Inr ho"
      "ho = None \<or> (\<exists>y. ho = Some y \<and> h_generation y < h_generation x)"
    using hs by (auto simp: no_rival_def split: sum.splits option.splits)
  define H where "H i = (if i = live then Some x else ho)" for i
  have fh: "file_header (visible (fb_files fb 0)) = Inr (H 0)" "file_header (visible (fb_files fb 1)) = Inr (H 1)"
    using hl ho(1) live by (auto simp: H_def le_Suc_eq)
  obtain fb1 where 1: "load_header 0 fb = (fb1, Inr (length (visible (fb_files fb 0)), H 0))" "ticked fb fb1"
    using load_header_reads[OF h fh(1)] by blast
  note f1 = ticked_facts[OF 1(2)]
  obtain fb2 where 2: "load_header 1 fb1 = (fb2, Inr (length (visible (fb_files fb 1)), H 1))" "ticked fb1 fb2"
    using load_header_reads[of fb1 1 "H 1"] h fh(2) f1 by auto
  have "choose_live n0 n1 (H 0) (H 1) fb2 = (fb2, Inr (live, x))" for n0 n1
    using ho(2) live by (auto simp: choose_live_def H_def io_ok_def le_Suc_eq)
  with 1(1) 2(1) have "pick_live fb =
      (fb2, Inr (length (visible (fb_files fb live)), live, x))"
    using live by (auto simp: pick_live_def io_bind_def io_ok_def le_Suc_eq)
  with ticked_trans[OF 1(2) 2(2)] show ?thesis by blast
qed

lemma a_last_simps: "rl_snapshot_round l = a_floor a \<Longrightarrow> rl_index l = index_of at (a_entries a) \<Longrightarrow> log_last_round l = a_last a"
  by (simp add: log_last_round_def a_last_def)

lemma other_file: "live \<le> 1 \<Longrightarrow> Suc 0 - live \<noteq> live \<and> live \<noteq> Suc 0 - live \<and> Suc 0 - (Suc 0 - live) = live"
  by (auto simp: le_Suc_eq)

lemma open_disk:
  assumes od: "on_disk d live h a" and hl: "healthy fb" "plain fb"
    and im: "\<And>f. visible (fb_files fb f) = d f" "\<And>f. durable (fb_files fb f) = d f"
  obtains (ok) fb' where "with_storage fb = (fb', Inr (handle_of live h a (a_last a)))"
      "running fb' live h a (length (a_entries a))" "fb_durability fb' = fb_durability fb"
  | (fault) fb' e where "with_storage fb = (fb', Inl e)" "fb_plan fb \<noteq> None"
      "on_disk (\<lambda>f. durable (fb_files fb' f)) live h a"
proof -
  let ?es = "a_entries a" and ?stop = "36 + length (frames (a_entries a))"
  obtain tls where dl: "d live = log_header_encode h @ frames ?es @ tls" "stops tls" and fit: "fits live h a"
    and sp: "no_rival (d (1 - live)) (h_generation h)"
    using od by (auto simp: on_disk_def)
  have hk: "header_ok h" "live \<le> 1" and fl: "h_snapshot_round h = a_floor a" "h_snapshot_term h = a_floor_term a"
    and ch: "chained (Suc (a_floor a)) (a_floor_term a) ?es"
    using fit by (auto simp: fits_def a_ok_def)
  obtain fb1 where 1: "pick_live fb = (fb1, Inr (?stop + length tls, live, h))" "ticked fb fb1"
    using pick_live_reads[OF hl(1) hk(2), of h] sp dl(1) hk(1) by (auto simp: im file_header_encode)
  note f1 = ticked_facts[OF 1(2)]
  obtain fb2 where 2: "scan_frames live (a_floor a) (a_floor_term a) (?stop + length tls) fb1 =
      (fb2, Inr (index_of 36 ?es, ?stop))" "ticked fb1 fb2"
    using scan_all[of fb1 live "log_header_encode h" ?es tls "Suc (a_floor a)" "a_floor_term a" "?stop + length tls" "[]"]
      hl f1 im dl ch by (auto simp: scan_frames_def LOG_HEADER_SIZE_def)
  note f2 = ticked_facts[OF 2(2)]
  have ws: "with_storage fb = io_bind (if 0 < length tls
       then io_bind (file_set_len live ?stop) (\<lambda>_. file_sync_all live) else io_ok ()) (\<lambda>_. io_ok (handle_of live h a (a_last a))) fb2"
    by (simp add: with_storage_def io_bind_def[of pick_live] 1(1) open_live_def io_bind_def[of "scan_frames _ _ _ _"] 2(1)
        handle_of_def a_last_def fl)
  have hl2: "healthy fb2" "plain fb2" "fb_plan fb2 = fb_plan fb" "fb_durability fb2 = fb_durability fb"
    "fb_files fb2 = fb_files fb"
    using f1 f2 hl by simp_all
  show ?thesis
  proof (cases "tls = []")
    case True
    have "running fb2 live h a (length ?es)"
      using hl2 fit sp dl True im by (auto simp: running_def)
    with True hl2 show ?thesis using that(1) by (auto simp: ws io_bind_def io_ok_def)
  next
    case False
    have cut: "resize (d live) ?stop = log_header_encode h @ frames ?es" using dl(1) by (simp add: resize_shrink)
    note other = other_file[OF hk(2)]
    from hl2(1) show ?thesis
    proof (cases rule: set_len_cases[where f = live and n = ?stop])
      case (fault fb3 e)
      have "on_disk (\<lambda>f. durable (fb_files fb3 f)) live h a"
        using od fault(3) hl2 im by (simp add: stopped_def fun_upd_idem)
      then show ?thesis using that(2) False fault(1,2) hl2(3) by (simp add: ws io_bind_def)
    next
      case (ok fb3)
      note f3 = stored_facts[OF ok(2)]
      have h3: "healthy fb3" using f3 hl2 by simp
      then show ?thesis
      proof (cases rule: sync_all_cases[where f = live])
        case (fault fb4 e)
        have d4: "durable (fb_files fb4 f) = (if f = live \<and> fb_durability fb = WriteThrough
            then log_header_encode h @ frames ?es else d f)" for f
          using fault(3) im cut by (auto simp: stopped_def f3 hl2)
        have "on_disk (\<lambda>f. durable (fb_files fb4 f)) live h a"
          using fit sp dl other by (auto simp: on_disk_def d4 intro: stops_short)
        then show ?thesis using that(2) False ok(1) fault(1,2) f3 hl2(3) by (simp add: ws io_bind_def)
      next
        case (ok fb4)
        note f4 = stored_facts[OF ok(2)]
        have "running fb4 live h a (length ?es)"
          using hl2 fit sp im cut other by (cases "fb_durability fb") (auto simp: running_def f3 f4)
        with False ok(1) \<open>file_set_len live ?stop fb2 = (fb3, Inr ())\<close> hl2 f3 f4 show ?thesis
          using that(1) by (simp add: ws io_bind_def io_ok_def)
      qed
    qed
  qed
qed

section \<open>What survives between operations\<close>

definition disk :: "fabric \<Rightarrow> nat \<Rightarrow> byte list" where
  "disk fb f = durable (fb_files fb f)"

definition cut :: "nat \<Rightarrow> alog \<Rightarrow> alog" where
  "cut n a = a\<lparr>a_entries := take n (a_entries a)\<rparr>"

lemma fits_cut: "fits live h a \<Longrightarrow> fits live h (cut n a)"
  by (auto simp: fits_def cut_def a_ok_def chained_take legacy_ok_def list_all_iff dest: in_set_takeD)

lemma running_disk: "running fb live h a m \<Longrightarrow> on_disk (disk fb) live h (cut m a)"
  using fits_cut[of live h a m] by (auto simp: running_def on_disk_def disk_def cut_def intro: stops_short)

lemma running_facts:
  assumes "running fb live h a m"
  shows "healthy fb" "plain fb" "fits live h a" "live \<le> 1" "header_ok h" "m \<le> length (a_entries a)"
    "no_rival (disk fb (1 - live)) (h_generation h)"
  using assms by (auto simp: running_def fits_def disk_def)

lemma runningI:
  assumes "healthy fb" "plain fb" "fits live h a" "m \<le> length (a_entries a)"
    and "visible (fb_files fb live) = log_header_encode h @ frames (a_entries a) @ tv" "length tv \<le> 4"
    and "durable (fb_files fb live) = log_header_encode h @ frames (take m (a_entries a)) @ td" "length td \<le> 4"
    and "fb_durability fb = WriteThrough \<Longrightarrow>
      m = length (a_entries a) \<and> durable (fb_files fb live) = visible (fb_files fb live)"
    and "no_rival (disk fb (1 - live)) (h_generation h)"
  shows "running fb live h a m"
  using assms by (auto simp: running_def disk_def)

section \<open>Appending\<close>

text \<open>A write of frames cut short leaves whole frames and then bytes the scan refuses.\<close>

lemma torn_frames:
  assumes "length tls \<le> 4" "list_all frame_ok es"
  shows "\<exists>j tls'. j \<le> length es \<and> stops tls' \<and>
    take k (frames es @ replicate 4 0) @ drop k tls = frames (take j es) @ tls'"
  using assms
proof (induction es arbitrary: k tls)
  case Nil
  have "length (take k (replicate 4 (0::byte)) @ drop k tls) \<le> 4" using Nil by simp
  then show ?case using stops_short by fastforce
next
  case (Cons e es)
  let ?n = "length (frame_bytes e)"
  show ?case
  proof (cases "?n \<le> k")
    case True
    obtain j tls' where j: "j \<le> length es" "stops tls'"
        "take (k - ?n) (frames es @ replicate 4 0) @ drop (k - ?n) [] = frames (take j es) @ tls'"
      using Cons.IH[of "[]" "k - ?n"] Cons.prems(2) by auto
    have "4 \<le> ?n" by (simp add: length_frame_bytes)
    then have "drop k tls = []" using True Cons.prems(1) by simp
    with True j(3) have "take k (frames (e # es) @ replicate 4 0) @ drop k tls = frames (take (Suc j) (e # es)) @ tls'"
      by simp
    with j(1,2) show ?thesis by (intro exI[of _ "Suc j"] exI[of _ tls']) simp
  next
    case False
    let ?t = "take k (frame_bytes e) @ drop k tls"
    have "stops ?t"
    proof (cases "4 \<le> k")
      case True
      have "take 4 ?t = sub_bytes (frame_bytes e) 0 4" using True False by (simp add: sub_bytes_def min_def)
      moreover have "frame_ok e" using Cons.prems(2) by simp
      ultimately have "from_be (take 4 ?t) = ?n" by (simp only: frame_pieces[OF _ refl])
      moreover have "length ?t < ?n" using True False Cons.prems(1) by simp
      ultimately show ?thesis unfolding stops_def by metis
    next
      case False
      then show ?thesis using Cons.prems(1) by (intro stops_short) simp
    qed
    with False show ?thesis by (intro exI[of _ 0] exI[of _ ?t]) simp
  qed
qed

definition extend :: "alog \<Rightarrow> entry list \<Rightarrow> alog" where
  "extend a es = a\<lparr>a_entries := a_entries a @ es\<rparr>"

definition a_last_term :: "alog \<Rightarrow> nat" where
  "a_last_term a = (if a_entries a = [] then a_floor_term a else e_term (last (a_entries a)))"

lemma fits_extend:
  assumes "fits live h a" "chained (Suc (a_last a)) (a_last_term a) es" "legacy_ok h es"
  shows "fits live h (extend a es)"
  using assms by (auto simp: fits_def a_ok_def extend_def chained_append a_last_def a_last_term_def legacy_ok_def)

lemma place_index: "place_frames at (map frame_bytes es) es = index_of at es"
  by (induction es arbitrary: at) auto

lemma chained_frame_ok: "chained r t es \<Longrightarrow> list_all frame_ok es"
  by (induction es arbitrary: r t) auto

lemma write_frames_outcome:
  assumes run: "running fb live h a m" and ch: "chained (Suc (a_last a)) (a_last_term a) es" and leg: "legacy_ok h es"
    and l: "l = handle_of live h a dr"
  obtains (ok) fb' m' where "write_frames (map frame_bytes es) es fb l = (fb', handle_of live h (extend a es) dr, Inr ())"
      "running fb' live h (extend a es) m'" "m \<le> m'" "fb_plan fb' = fb_plan fb" "fb_durability fb' = fb_durability fb"
  | (fault) fb' e j where "write_frames (map frame_bytes es) es fb l = (fb', l, Inl e)" "fb_crashed fb'" "fb_plan fb \<noteq> None"
      "on_disk (disk fb') live h (cut j (extend a es))" "m \<le> j"
proof -
  let ?old = "a_entries a" and ?pre = "log_header_encode h @ frames (a_entries a)" and ?buf = "frames es @ replicate 4 0"
  note rf = running_facts[OF run]
  obtain tv where tv: "length tv \<le> 4" "visible (fb_files fb live) = ?pre @ tv" using run by (auto simp: running_def)
  have off: "rl_end_offset l = length ?pre" "rl_live l = live" by (simp_all add: l handle_of_def)
  have wf: "write_frames (map frame_bytes es) es fb l =
      (case write_at live ?buf (length ?pre) fb of (fb, Inl e) \<Rightarrow> (fb, l, Inl e)
       | (fb, Inr _) \<Rightarrow> (fb, l\<lparr>rl_index := rl_index l @ place_frames (length ?pre) (map frame_bytes es) es,
           rl_end_offset := length ?pre + length (frames es)\<rparr>, Inr ()))"
    by (simp only: write_frames_def write_batch_def off Let_def)
  have fx: "fits live h (extend a es)" by (rule fits_extend[OF rf(3) ch leg])
  have wv: "overwrite (visible (fb_files fb live)) (length ?pre) ?buf = ?pre @ ?buf"
    unfolding tv(2) overwrite_at using tv(1) by simp
  have "?buf \<noteq> []" by simp
  with rf(1,2) show ?thesis
  proof (cases rule: write_at_outcome[where f = live and off = "length ?pre"])
    case (ok fb')
    note sf = stored_facts[OF ok(2)]
    define m' where "m' = (if fb_durability fb = WriteThrough then length (a_entries (extend a es)) else m)"
    obtain td where td: "length td \<le> 4" "durable (fb_files fb live) = log_header_encode h @ frames (take m ?old) @ td"
      using run by (auto simp: running_def)
    have same: "durable (fb_files fb live) = visible (fb_files fb live)" if "fb_durability fb = WriteThrough"
      using run that by (auto simp: running_def)
    have "running fb' live h (extend a es) m'"
    proof (rule runningI[where tv = "replicate 4 0" and td = "if fb_durability fb = WriteThrough then replicate 4 0 else td"])
      show "visible (fb_files fb' live) = log_header_encode h @ frames (a_entries (extend a es)) @ replicate 4 0"
        using wv by (simp add: sf extend_def)
      show "durable (fb_files fb' live) = log_header_encode h @ frames (take m' (a_entries (extend a es))) @
          (if fb_durability fb = WriteThrough then replicate 4 0 else td)"
        using wv td rf(6) same by (simp add: sf m'_def extend_def)
      show "no_rival (disk fb' (1 - live)) (h_generation h)"
        using rf(7) other_file[OF rf(4)] by (simp add: disk_def sf)
    qed (use rf fx td same in \<open>auto simp: sf m'_def extend_def\<close>)
    moreover have "m \<le> m'" using rf(6) by (simp add: m'_def extend_def)
    moreover have "write_frames (map frame_bytes es) es fb l = (fb', handle_of live h (extend a es) dr, Inr ())"
      unfolding wf ok(1) by (simp add: l handle_of_def extend_def place_index index_of_append)
    ultimately show ?thesis using that(1) sf by blast
  next
    case (fault fb' e k)
    have st: "fb_crashed fb'" "fb_files fb' = (fb_files fb)(live := if k = 0 then fb_files fb live
        else write_into (fb_durability fb) (length ?pre) (take k ?buf) (fb_files fb live))"
      using fault(4) by (simp_all add: stopped_def)
    have res: "write_frames (map frame_bytes es) es fb l = (fb', l, Inl e)" unfolding wf fault(1) by simp
    show ?thesis
    proof (cases "fb_durability fb = WriteThrough \<and> k \<noteq> 0")
      case False
      then have "disk fb' = disk fb" by (rule_tac ext) (auto simp: disk_def st)
      then have "on_disk (disk fb') live h (cut m a)" using running_disk[OF run] by simp
      moreover have "cut m a = cut m (extend a es)" using rf(6) by (simp add: cut_def extend_def)
      ultimately show ?thesis using that(2)[OF res st(1) fault(2)] by auto
    next
      case True
      obtain j tls where j: "j \<le> length es" "stops tls" "take k ?buf @ drop k tv = frames (take j es) @ tls"
        using torn_frames[OF tv(1) chained_frame_ok[OF ch], of k] by blast
      have "disk fb' live = ?pre @ take k ?buf @ drop (length (take k ?buf)) tv"
        using True run tv by (auto simp: disk_def st running_def overwrite_at[of ?pre tv, simplified])
      moreover have "length (take k ?buf) = k" using fault(3) unfolding length_take by linarith
      ultimately have "disk fb' live = log_header_encode h @ frames (?old @ take j es) @ tls"
        using j(3) by (simp del: length_take)
      moreover have "cut (length ?old + j) (extend a es) = a\<lparr>a_entries := ?old @ take j es\<rparr>"
        by (simp add: cut_def extend_def)
      moreover have "disk fb' (1 - live) = disk fb (1 - live)" using other_file[OF rf(4)] by (simp add: disk_def st)
      ultimately have "on_disk (disk fb') live h (cut (length ?old + j) (extend a es))"
        using fits_cut[OF fx, of "length ?old + j"] rf(7) j(2) by (auto simp: on_disk_def)
      then show ?thesis using that(2)[OF res st(1) fault(2)] rf(6) by auto
    qed
  qed
qed

section \<open>The two-file switch\<close>

text \<open>Nothing in a blank file can be taken for a header.\<close>

definition blank :: "byte list \<Rightarrow> bool" where
  "blank bs \<longleftrightarrow> length bs < 36 \<or> take 36 bs = replicate 36 0"

lemma blank_header: "blank bs \<Longrightarrow> no_rival bs g"
  by (auto simp: blank_def no_rival_def file_header_def zero_header_refused)

text \<open>What is in the spare once \<open>w\<close> has been copied behind where its header will be.\<close>

definition spare_bytes :: "byte list \<Rightarrow> byte list" where
  "spare_bytes w = (if w = [] then [] else replicate 36 0 @ w)"

lemma blank_spare: "blank (spare_bytes w)"
  by (simp add: blank_def spare_bytes_def)

lemma spare_write: "b \<noteq> [] \<Longrightarrow> overwrite (spare_bytes w) (36 + length w) b = spare_bytes (w @ b)"
  using overwrite_at[of "replicate 36 0 @ w" "[]" b] overwrite_past[of "[]" 36 b]
  by (auto simp: spare_bytes_def)

definition copied :: "fabric \<Rightarrow> nat \<Rightarrow> byte list \<Rightarrow> fabric \<Rightarrow> bool" where
  "copied fb0 sp w fb \<longleftrightarrow> (\<exists>img. stored sp img fb0 fb \<and> visible img = spare_bytes w \<and>
     durable img = (if fb_durability fb0 = WriteThrough then spare_bytes w else disk fb0 sp))"

text \<open>The device stopped while the spare was being filled: the spare is blank, or as it was.\<close>

definition spare_crash :: "fabric \<Rightarrow> nat \<Rightarrow> fabric \<Rightarrow> bool" where
  "spare_crash fb0 sp fb \<longleftrightarrow> fb_crashed fb \<and>
     (\<exists>bs. disk fb = (disk fb0)(sp := bs) \<and> (blank bs \<or> bs = disk fb0 sp))"

lemma stored_trans: "stored f x a b \<Longrightarrow> stored f y b c \<Longrightarrow> stored f y a c"
  by (auto simp: stored_def)

lemma stored_ticked: "stored f x a b \<Longrightarrow> ticked b c \<Longrightarrow> stored f x a c"
  by (cases a) (auto simp: stored_def ticked_def)

lemma copied_ticked: "copied fb0 sp w fb \<Longrightarrow> ticked fb fb' \<Longrightarrow> copied fb0 sp w fb'"
  using stored_ticked by (fastforce simp: copied_def)

lemma copied_facts:
  assumes "copied fb0 sp w fb"
  shows "healthy fb = healthy fb0" "plain fb = plain fb0" "fb_plan fb = fb_plan fb0" "fb_durability fb = fb_durability fb0"
    "visible (fb_files fb sp) = spare_bytes w" "f \<noteq> sp \<Longrightarrow> fb_files fb f = fb_files fb0 f"
    "durable (fb_files fb sp) = (if fb_durability fb0 = WriteThrough then spare_bytes w else disk fb0 sp)"
proof -
  obtain img where img: "stored sp img fb0 fb" "visible img = spare_bytes w"
      "durable img = (if fb_durability fb0 = WriteThrough then spare_bytes w else disk fb0 sp)"
    using assms by (auto simp: copied_def)
  note sf = stored_facts[OF img(1)]
  show "healthy fb = healthy fb0" "plain fb = plain fb0" "fb_plan fb = fb_plan fb0"
    "fb_durability fb = fb_durability fb0" by (simp_all add: sf)
  show "visible (fb_files fb sp) = spare_bytes w" "f \<noteq> sp \<Longrightarrow> fb_files fb f = fb_files fb0 f"
    "durable (fb_files fb sp) = (if fb_durability fb0 = WriteThrough then spare_bytes w else disk fb0 sp)"
    using img(2,3) by (simp_all add: sf(1))
qed

lemma copy_write:
  assumes c: "copied fb0 sp w fb" and h: "healthy fb0" "plain fb0" and b: "b \<noteq> []"
  obtains (ok) fb' where "write_at sp b (36 + length w) fb = (fb', Inr ())" "copied fb0 sp (w @ b) fb'"
  | (fault) fb' e where "write_at sp b (36 + length w) fb = (fb', Inl e)" "fb_plan fb0 \<noteq> None" "spare_crash fb0 sp fb'"
proof -
  note cf = copied_facts[OF c]
  obtain img where img: "stored sp img fb0 fb" using c by (auto simp: copied_def)
  have hf: "healthy fb" "plain fb" using h cf by auto
  from hf b show ?thesis
  proof (cases rule: write_at_outcome[where f = sp and off = "36 + length w"])
    case (ok fb')
    have "copied fb0 sp (w @ b) fb'"
      unfolding copied_def using stored_trans[OF img ok(2)] b cf
      by (intro exI[of _ "write_into (fb_durability fb) (36 + length w) b (fb_files fb sp)"]) (auto simp: spare_write)
    with ok(1) show ?thesis by (rule that(1))
  next
    case (fault fb' e k)
    define bs where "bs = durable (if k = 0 then fb_files fb sp
        else write_into (fb_durability fb) (36 + length w) (take k b) (fb_files fb sp))"
    have "disk fb' = (disk fb0)(sp := bs)"
      using fault(4) cf(6) by (auto simp: disk_def stopped_def bs_def fun_eq_iff)
    moreover have "blank bs \<or> bs = disk fb0 sp"
      using cf blank_spare b by (auto simp: bs_def spare_write)
    moreover have "fb_crashed fb'" using fault(4) by (simp add: stopped_def)
    ultimately have "spare_crash fb0 sp fb'" by (auto simp: spare_crash_def)
    moreover have "fb_plan fb0 \<noteq> None" using fault(2) cf by simp
    ultimately show ?thesis using that(2) fault(1) by blast
  qed
qed

lemma read_frame_at:
  assumes "healthy fb" "visible (fb_files fb (rl_live l)) = pre @ frame_bytes e @ rest"
  shows "\<exists>fb'. read_frame l \<lparr>f_offset = length pre, f_len = length (frame_bytes e), f_term = t\<rparr> fb =
    (fb', Inr (frame_bytes e)) \<and> ticked fb fb'"
proof (rule read_at_within[OF assms(1), of "length pre" "length (frame_bytes e)" "rl_live l"])
  show "length pre + length (frame_bytes e) \<le> length (visible (fb_files fb (rl_live l)))"
    using assms(2) by simp
next
  fix fb'
  assume "read_at (rl_live l) (length (frame_bytes e)) (length pre) fb =
      (fb', Inr (take (length (frame_bytes e)) (drop (length pre) (visible (fb_files fb (rl_live l))))))" "ticked fb fb'"
  then show ?thesis using assms(2) by (simp add: read_frame_def)
qed

lemma copy_run:
  assumes "copied fb0 sp w fb" "healthy fb0" "plain fb0" "rl_live l \<noteq> sp"
    and "visible (fb_files fb0 (rl_live l)) = pre @ frames es @ rest" "at = 36 + length (w @ b)"
  shows "(\<exists>fb' w' b'. copy_frames l sp (index_of (length pre) es) at b moved fb =
        (fb', Inr (at + length (frames es), b', moved @ index_of at es)) \<and> copied fb0 sp w' fb' \<and> w' @ b' = w @ b @ frames es) \<or>
    (\<exists>fb' e. copy_frames l sp (index_of (length pre) es) at b moved fb = (fb', Inl e) \<and> fb_plan fb0 \<noteq> None \<and>
        spare_crash fb0 sp fb')"
  using assms
proof (induction es arbitrary: pre w b at moved fb)
  case Nil
  then show ?case by (auto simp: io_ok_def)
next
  case (Cons e es)
  let ?f = "\<lparr>f_offset = length pre, f_len = length (frame_bytes e), f_term = e_term e\<rparr>"
  let ?mv = "moved @ [\<lparr>f_offset = at, f_len = length (frame_bytes e), f_term = e_term e\<rparr>]"
  let ?at = "at + length (frame_bytes e)" and ?b = "b @ frame_bytes e"
  note cf = copied_facts[OF Cons.prems(1)]
  have vl: "visible (fb_files fb (rl_live l)) = pre @ frame_bytes e @ frames es @ rest"
    using Cons.prems(4,5) cf(6) by simp
  obtain fb1 where rd: "read_frame l ?f fb = (fb1, Inr (frame_bytes e))" "ticked fb fb1"
    using read_frame_at[OF _ vl] cf(1) Cons.prems(2) by blast
  have c1: "copied fb0 sp w fb1" by (rule copied_ticked[OF Cons.prems(1) rd(2)])
  have v0: "visible (fb_files fb0 (rl_live l)) = (pre @ frame_bytes e) @ frames es @ rest" using Cons.prems(5) by simp
  have at: "?at = 36 + length (w @ ?b)" using Cons.prems(6) by simp
  have ix: "index_of (length pre) (e # es) = ?f # index_of (length (pre @ frame_bytes e)) es" by simp
  show ?case
  proof (cases "COPY_BATCH \<le> length ?b")
    case False
    have "copy_frames l sp (index_of (length pre) (e # es)) at b moved fb =
        copy_frames l sp (index_of (length (pre @ frame_bytes e)) es) ?at ?b ?mv fb1"
      using False rd(1) by (simp add: ix io_bind_def Let_def)
    with Cons.IH[OF c1 Cons.prems(2,3,4) v0 at, of ?mv] show ?thesis by (simp add: add.assoc)
  next
    case True
    have "?b \<noteq> []" using length_frame_bytes[of e] by auto
    have step: "copy_frames l sp (index_of (length pre) (e # es)) at b moved fb =
        io_bind (write_at sp ?b (36 + length w)) (\<lambda>_.
          copy_frames l sp (index_of (length (pre @ frame_bytes e)) es) ?at [] ?mv) fb1"
      using True rd(1) Cons.prems(6) by (simp add: ix io_bind_def Let_def)
    from c1 Cons.prems(2,3) \<open>?b \<noteq> []\<close> show ?thesis
    proof (cases rule: copy_write)
      case (ok fb2)
      have at2: "?at = 36 + length ((w @ ?b) @ [])" using at by simp
      have "copy_frames l sp (index_of (length pre) (e # es)) at b moved fb =
          copy_frames l sp (index_of (length (pre @ frame_bytes e)) es) ?at [] ?mv fb2"
        unfolding step by (simp add: io_bind_def ok(1))
      with Cons.IH[OF ok(2) Cons.prems(2,3,4) v0 at2, of ?mv] show ?thesis by (simp add: add.assoc)
    next
      case (fault fb2 e')
      then show ?thesis unfolding step by (simp add: io_bind_def)
    qed
  qed
qed

text \<open>The spare is full: its bytes are the survivors behind 36 zeros, and they are durable.\<close>

definition filled :: "fabric \<Rightarrow> nat \<Rightarrow> entry list \<Rightarrow> fabric \<Rightarrow> bool" where
  "filled fb0 sp es fb \<longleftrightarrow> (\<exists>img. stored sp img fb0 fb \<and>
     visible img = replicate 36 0 @ frames es @ replicate 4 0 \<and> durable img = visible img)"

lemma fill_spare_outcome:
  assumes h: "healthy fb" "plain fb" and sp: "rl_live l \<noteq> sp"
    and v: "visible (fb_files fb (rl_live l)) = pre @ frames es @ rest"
  obtains (ok) fb' where "fill_spare l sp (index_of (length pre) es) fb =
      (fb', Inr (36 + length (frames es), index_of 36 es))" "filled fb sp es fb'"
  | (fault) fb' e where "fill_spare l sp (index_of (length pre) es) fb = (fb', Inl e)" "fb_plan fb \<noteq> None"
      "spare_crash fb sp fb'"
  using h(1)
proof (cases rule: set_len_cases[where f = sp and n = 0])
  case (fault fb' e)
  then have "spare_crash fb sp fb'" by (auto simp: spare_crash_def stopped_def disk_def fun_eq_iff)
  with fault show ?thesis using that(2) by (simp add: fill_spare_def io_bind_def)
next
  case (ok fb1)
  have c1: "copied fb sp [] fb1"
    using ok(2) by (auto simp: copied_def spare_bytes_def resize_def disk_def intro: exI[of _ "cut_image (fb_durability fb) 0 (fb_files fb sp)"])
  let ?rest = "\<lambda>(at, batch, moved). let batch = batch @ replicate 4 0 in
     io_bind (write_at sp batch (at + 4 - length batch)) (\<lambda>_. io_bind (file_sync_data sp) (\<lambda>_. io_ok (at, moved)))"
  have step: "fill_spare l sp (index_of (length pre) es) fb =
      io_bind (copy_frames l sp (index_of (length pre) es) 36 [] []) ?rest fb1"
    by (simp add: fill_spare_def io_bind_def[of "file_set_len sp 0"] ok(1) LOG_HEADER_SIZE_def)
  consider (copied) fb2 w b where "copy_frames l sp (index_of (length pre) es) 36 [] [] fb1 =
        (fb2, Inr (36 + length (frames es), b, index_of 36 es))" "copied fb sp w fb2" "w @ b = frames es"
    | (dead) fb2 e where "copy_frames l sp (index_of (length pre) es) 36 [] [] fb1 = (fb2, Inl e)"
        "fb_plan fb \<noteq> None" "spare_crash fb sp fb2"
    using copy_run[OF c1 h sp v, of 36 "[]" "[]"] by auto
  then show ?thesis
  proof cases
    case dead
    then show ?thesis using that(2) by (simp add: step io_bind_def)
  next
    case copied
    have off: "36 + length (frames es) + 4 - length (b @ replicate 4 0) = 36 + length w"
      unfolding copied(3)[symmetric] by simp
    have step2: "fill_spare l sp (index_of (length pre) es) fb =
        io_bind (write_at sp (b @ replicate 4 0) (36 + length w)) (\<lambda>_.
          io_bind (file_sync_data sp) (\<lambda>_. io_ok (36 + length (frames es), index_of 36 es))) fb2"
      unfolding step io_bind_def[of "copy_frames _ _ _ _ _ _"] copied(1) by (simp only: prod.case sum.case Let_def off)
    have "b @ replicate 4 0 \<noteq> []" by simp
    with copied(2) h show ?thesis
    proof (cases rule: copy_write)
      case (fault fb3 e)
      then show ?thesis using that(2) by (simp add: step2 io_bind_def)
    next
      case (ok fb3)
      note cf = copied_facts[OF ok(2)]
      have sb: "spare_bytes (w @ b @ replicate 4 0) = replicate 36 0 @ frames es @ replicate 4 0"
        by (simp add: spare_bytes_def copied(3)[symmetric])
      have "healthy fb3" using cf h by simp
      then show ?thesis
      proof (cases rule: sync_data_cases[where f = sp])
        case (fault fb4 e)
        have "disk fb4 = (disk fb)(sp := disk fb3 sp)"
          using fault(3) cf(6) by (auto simp: disk_def stopped_def fun_eq_iff)
        moreover have "blank (disk fb3 sp) \<or> disk fb3 sp = disk fb sp"
          using cf(7) blank_spare by (auto simp: disk_def)
        ultimately have "spare_crash fb sp fb4" using fault(3) by (auto simp: spare_crash_def stopped_def)
        moreover have "fb_plan fb \<noteq> None" using fault(2) cf by simp
        ultimately show ?thesis using that(2) fault(1) ok(1) by (simp add: step2 io_bind_def)
      next
        case (ok fb4)
        obtain img where "stored sp img fb fb3" using \<open>copied fb sp (w @ b @ replicate 4 0) fb3\<close> by (auto simp: copied_def)
        from stored_trans[OF this ok(2)] have "filled fb sp es fb4"
          unfolding filled_def using cf sb
          by (intro exI[of _ "synced_image (fb_durability fb3) (fb_files fb3 sp)"]) (auto intro: durability.exhaust)
        then show ?thesis using that(1) ok(1) \<open>write_at sp (b @ replicate 4 0) (36 + length w) fb2 = (fb3, Inr ())\<close>
          by (simp add: step2 io_bind_def io_ok_def)
      qed
    qed
  qed
qed

text \<open>Either side of the switch is a log on the device, whatever became of the other file.\<close>

lemma old_on_disk:
  assumes run: "running fb live h a m" and "disk fb' = (disk fb)(1 - live := bs)" "no_rival bs (h_generation h)"
  shows "on_disk (disk fb') live h (cut m a)"
  using running_disk[OF run] assms(2,3) other_file[of live] running_facts(4)[OF run] by (simp add: on_disk_def)

lemma new_on_disk:
  assumes run: "running fb live h a m" and f: "fits (1 - live) h2 a2" "h_generation h < h_generation h2"
    and d: "disk fb' live = disk fb live" "disk fb' (1 - live) = log_header_encode h2 @ frames (a_entries a2) @ replicate 4 0"
  shows "on_disk (disk fb') (1 - live) h2 a2"
proof -
  have "file_header (disk fb live) = Inr (Some h)"
    using run running_facts(5)[OF run] by (auto simp: running_def disk_def file_header_encode)
  then have "no_rival (disk fb live) (h_generation h2)" using f(2) by (simp add: no_rival_def)
  moreover have "stops (replicate 4 0)" by (rule stops_short) simp
  ultimately show ?thesis
    using f(1) d other_file[of live] running_facts(4)[OF run] by (auto simp: on_disk_def)
qed

text \<open>The device keeps only what is synced, or a header cut short is recognised.\<close>

definition tear_safe :: "fabric \<Rightarrow> log_header \<Rightarrow> bool" where
  "tear_safe fb h \<longleftrightarrow> fb_durability fb = SyncOnly \<or> tear_detected h"

lemma header_write_outcome:
  assumes run: "running fb live h a m" and fill: "filled fb (1 - live) (a_entries a2) fb1"
    and f: "fits (1 - live) h2 a2" "h_generation h < h_generation h2"
  obtains (ok) fb2 img where "io_bind (write_at (1 - live) (log_header_encode h2) 0) (\<lambda>_. file_sync_all (1 - live)) fb1 = (fb2, Inr ())"
      "stored (1 - live) img fb fb2" "visible img = log_header_encode h2 @ frames (a_entries a2) @ replicate 4 0" "durable img = visible img"
  | (fault) fb2 e where "io_bind (write_at (1 - live) (log_header_encode h2) 0) (\<lambda>_. file_sync_all (1 - live)) fb1 = (fb2, Inl e)"
      "fb_crashed fb2" "fb_plan fb \<noteq> None"
      "tear_safe fb h2 \<Longrightarrow> on_disk (disk fb2) live h (cut m a) \<or> on_disk (disk fb2) (1 - live) h2 a2"
proof -
  let ?sp = "1 - live" and ?F = "frames (a_entries a2) @ replicate 4 0"
  obtain img where img: "stored ?sp img fb fb1" "visible img = replicate 36 0 @ ?F" "durable img = replicate 36 0 @ ?F"
    using fill by (auto simp: filled_def)
  note s1 = stored_facts[OF img(1)]
  have ow: "overwrite (replicate 36 0 @ ?F) 0 (take k (log_header_encode h2)) = torn_header h2 k @ ?F" if "k \<le> 36" for k
    using that by (simp add: overwrite_start torn_header_def)
  have full: "overwrite (replicate 36 0 @ ?F) 0 (log_header_encode h2) = log_header_encode h2 @ ?F"
    by (simp add: overwrite_start)
  have zero: "no_rival (replicate 36 0 @ ?F) g" for g by (rule blank_header) (simp add: blank_def)
  have ld: "disk fb1 live = disk fb live" using other_file[of live] running_facts(4)[OF run] by (simp add: disk_def s1)
  have h1: "healthy fb1" "plain fb1" using running_facts[OF run] s1 by auto
  have "log_header_encode h2 \<noteq> []" by (metis length_log_header_encode list.size(3) zero_neq_numeral)
  with h1 show ?thesis
  proof (cases rule: write_at_outcome[where f = ?sp and off = 0])
    case (fault fb2 e k)
    have crash: "fb_crashed fb2" "fb_plan fb \<noteq> None" using fault(2,4) s1 by (auto simp: stopped_def)
    have other: "disk fb2 f = disk fb f" if "f \<noteq> ?sp" for f
      using fault(4) that by (simp add: stopped_def disk_def s1)
    have upd: "disk fb2 = (disk fb)(?sp := disk fb2 ?sp)" by (rule ext) (use other in simp)
    have "disk fb2 ?sp = (if k = 0 \<or> fb_durability fb = SyncOnly then replicate 36 0 @ ?F else torn_header h2 k @ ?F)"
      using fault(3,4) img ow[of k] by (cases "fb_durability fb") (auto simp: stopped_def disk_def s1)
    then consider "disk fb2 ?sp = replicate 36 0 @ ?F"
      | "disk fb2 ?sp = torn_header h2 k @ ?F" "fb_durability fb = WriteThrough"
      by (cases "k = 0"; cases "fb_durability fb") simp_all
    then have "on_disk (disk fb2) live h (cut m a) \<or> on_disk (disk fb2) ?sp h2 a2" if tear: "tear_safe fb h2"
    proof cases
      case 1
      then show ?thesis using old_on_disk[OF run upd] zero by simp
    next
      case 2
      show ?thesis
      proof (cases "torn_header h2 k = log_header_encode h2")
        case True
        then show ?thesis using new_on_disk[OF run f, of fb2] 2 other other_file[of live] running_facts(4)[OF run] by simp
      next
        case False
        have "log_header_decode (torn_header h2 k) = Inr None"
          using torn_header_refused[OF _ False] tear 2(2) fault(3) by (simp add: tear_safe_def)
        then have "no_rival (disk fb2 ?sp) (h_generation h)"
          using 2(1) fault(3) by (simp add: no_rival_def file_header_def)
        then show ?thesis using old_on_disk[OF run upd] by blast
      qed
    qed
    moreover have "io_bind (write_at ?sp (log_header_encode h2) 0) (\<lambda>_. file_sync_all ?sp) fb1 = (fb2, Inl e)"
      unfolding io_bind_def fault(1) by simp
    ultimately show ?thesis using that(2) crash by blast
  next
    case (ok fb2)
    note s2 = stored_facts[OF ok(2)]
    have vis: "visible (fb_files fb2 ?sp) = log_header_encode h2 @ ?F" using img full by (simp add: s2 s1)
    have dur: "durable (fb_files fb2 ?sp) = (if fb_durability fb = WriteThrough then log_header_encode h2 @ ?F else replicate 36 0 @ ?F)"
      using img full by (simp add: s2 s1)
    have other: "disk fb2 f = disk fb f" if "f \<noteq> ?sp" for f using that by (simp add: s2 s1 disk_def)
    have "healthy fb2" using h1 s2 by simp
    then show ?thesis
    proof (cases rule: sync_all_cases[where f = ?sp])
      case (fault fb3 e)
      have d3: "disk fb3 = disk fb2" using fault(3) by (auto simp: stopped_def disk_def fun_eq_iff)
      have "on_disk (disk fb3) live h (cut m a) \<or> on_disk (disk fb3) ?sp h2 a2"
      proof (cases "fb_durability fb")
        case WriteThrough
        then show ?thesis using new_on_disk[OF run f, of fb3] dur other other_file[of live] running_facts(4)[OF run]
          by (simp add: d3 disk_def)
      next
        case SyncOnly
        then have "disk fb3 = (disk fb)(?sp := replicate 36 0 @ ?F)"
          using dur other by (auto simp: d3 disk_def fun_eq_iff)
        then show ?thesis using old_on_disk[OF run _ zero] by blast
      qed
      moreover have "fb_crashed fb3" "fb_plan fb \<noteq> None" using fault(2,3) s1 s2 by (auto simp: stopped_def)
      ultimately show ?thesis using that(2) ok(1) fault(1) by (simp add: io_bind_def)
    next
      case (ok fb3)
      note ok3 = this
      let ?img = "synced_image (fb_durability fb2) (fb_files fb2 ?sp)"
      have "stored ?sp ?img fb fb3"
        by (rule stored_trans[OF stored_trans[OF img(1)] ok3(2)]) (rule \<open>stored ?sp _ fb1 fb2\<close>)
      moreover have "visible ?img = log_header_encode h2 @ ?F" "durable ?img = visible ?img"
        using vis dur s1 s2 by (cases "fb_durability fb"; simp)+
      ultimately show ?thesis
        using that(1) ok3(1) \<open>write_at ?sp (log_header_encode h2) 0 fb1 = (fb2, Inr ())\<close> by (simp add: io_bind_def)
    qed
  qed
qed

lemma retire_outcome:
  assumes run: "running fb live h a m" and f: "fits (1 - live) h2 a2" "h_generation h < h_generation h2"
    and img: "stored (1 - live) img fb fb2" "visible img = log_header_encode h2 @ frames (a_entries a2) @ replicate 4 0"
      "durable img = visible img"
  obtains (ok) fb3 where "io_bind (file_set_len live 0) (\<lambda>_. file_sync_all live) fb2 = (fb3, Inr ())"
      "running fb3 (1 - live) h2 a2 (length (a_entries a2))" "fb_plan fb3 = fb_plan fb" "fb_durability fb3 = fb_durability fb"
  | (fault) fb3 e where "io_bind (file_set_len live 0) (\<lambda>_. file_sync_all live) fb2 = (fb3, Inl e)"
      "fb_crashed fb3" "fb_plan fb \<noteq> None" "on_disk (disk fb3) (1 - live) h2 a2"
proof -
  let ?sp = "1 - live"
  note s2 = stored_facts[OF img(1)]
  have lv: "live \<le> 1" and ne: "live \<noteq> ?sp" "?sp \<noteq> live"
    using other_file[of live] running_facts(4)[OF run] by auto
  have h2: "healthy fb2" using running_facts(1)[OF run] s2 by simp
  from h2 show ?thesis
  proof (cases rule: set_len_cases[where f = live and n = 0])
    case (fault fb3 e)
    have "disk fb3 live = disk fb live" "disk fb3 ?sp = log_header_encode h2 @ frames (a_entries a2) @ replicate 4 0"
      using fault(3) ne img by (simp_all add: stopped_def disk_def s2)
    then have "on_disk (disk fb3) ?sp h2 a2" by (rule new_on_disk[OF run f])
    with fault s2 show ?thesis using that(2) by (auto simp: io_bind_def stopped_def)
  next
    case (ok fb3)
    note s3 = stored_facts[OF ok(2)]
    have d3: "disk fb3 ?sp = log_header_encode h2 @ frames (a_entries a2) @ replicate 4 0"
      "disk fb3 live = (if fb_durability fb = WriteThrough then [] else disk fb live)"
      using ne img by (simp_all add: s2 s3 disk_def resize_def)
    have h3: "healthy fb3" using h2 s3 by simp
    then show ?thesis
    proof (cases rule: sync_all_cases[where f = live])
      case (fault fb4 e)
      have d4: "disk fb4 = disk fb3" using fault(3) by (auto simp: stopped_def disk_def fun_eq_iff)
      have "on_disk (disk fb4) ?sp h2 a2"
      proof (cases "fb_durability fb = WriteThrough")
        case False
        with d3 d4 show ?thesis by (intro new_on_disk[OF run f]) simp_all
      next
        case True
        have "no_rival [] g" for g by (rule blank_header) (simp add: blank_def)
        with True d3 d4 f(1) other_file[OF lv] show ?thesis by (auto simp: on_disk_def intro: stops_short)
      qed
      with fault ok s2 s3 show ?thesis using that(2) by (auto simp: io_bind_def stopped_def)
    next
      case (ok fb4)
      note s4 = stored_facts[OF ok(2)]
      have "disk fb4 live = []" by (cases "fb_durability fb") (simp_all add: disk_def s4 s3 s2 resize_def)
      then have nr: "no_rival (disk fb4 (1 - ?sp)) (h_generation h2)"
        using other_file[OF lv] by (simp add: blank_header blank_def)
      have "running fb4 ?sp h2 a2 (length (a_entries a2))"
      proof (rule runningI[where tv = "replicate 4 0" and td = "replicate 4 0"])
        show "no_rival (disk fb4 (1 - ?sp)) (h_generation h2)" by (rule nr)
      qed (use running_facts[OF run] f(1) ne img in \<open>simp_all add: s2 s3 s4\<close>)
      with ok(1) \<open>file_set_len live 0 fb2 = (fb3, Inr ())\<close> s2 s3 s4 show ?thesis
        using that(1) by (simp add: io_bind_def)
    qed
  qed
qed

lemma switch_outcome:
  assumes run: "running fb live h a m" and l: "l = handle_of live h a dr"
    and v: "a_entries a = xs @ a_entries a2" and off: "off = 36 + length (frames xs)"
    and h2: "h2 = \<lparr>h_version = ver, h_generation = h_generation h + 1, h_snapshot_round = a_floor a2, h_snapshot_term = a_floor_term a2\<rparr>"
    and f: "fits (1 - live) h2 a2"
  obtains (ok) fb' where "log_switch (index_of off (a_entries a2)) (a_floor a2) (a_floor_term a2) ver fb l =
        (fb', handle_of (1 - live) h2 a2 (a_last a2), Inr ())"
      "running fb' (1 - live) h2 a2 (length (a_entries a2))" "fb_plan fb' = fb_plan fb" "fb_durability fb' = fb_durability fb"
  | (fault) fb' l' e where "log_switch (index_of off (a_entries a2)) (a_floor a2) (a_floor_term a2) ver fb l = (fb', l', Inl e)"
      "fb_crashed fb'" "fb_plan fb \<noteq> None"
      "tear_safe fb h2 \<Longrightarrow> (rl_durable_round l' = dr \<and> on_disk (disk fb') live h (cut m a)) \<or>
       (rl_durable_round l' \<in> {dr, a_last a2} \<and> on_disk (disk fb') (1 - live) h2 a2)"
proof -
  let ?sp = "1 - live" and ?es2 = "a_entries a2"
  note rf = running_facts[OF run]
  obtain tv where "visible (fb_files fb live) = log_header_encode h @ frames (a_entries a) @ tv" using run by (auto simp: running_def)
  then have vl: "visible (fb_files fb (rl_live l)) = (log_header_encode h @ frames xs) @ frames ?es2 @ tv"
    by (simp add: l handle_of_def v)
  have off': "off = length (log_header_encode h @ frames xs)" using off by simp
  have lv: "rl_live l = live" and ne: "rl_live l \<noteq> ?sp" using other_file[OF rf(4)] by (auto simp: l handle_of_def)
  have gen: "h_generation h < h_generation h2" and hg: "rl_generation l + 1 = h_generation h2"
    by (simp_all add: h2 l handle_of_def)
  have hdr: "\<lparr>h_version = ver, h_generation = rl_generation l + 1, h_snapshot_round = a_floor a2,
      h_snapshot_term = a_floor_term a2\<rparr> = h2" by (simp add: h2 l handle_of_def)
  let ?l2 = "l\<lparr>rl_live := ?sp, rl_generation := h_generation h2, rl_version := ver, rl_snapshot_round := a_floor a2,
      rl_snapshot_term := a_floor_term a2, rl_index := index_of 36 ?es2,
      rl_end_offset := 36 + length (frames ?es2), rl_durable_round := a_floor a2 + length (index_of 36 ?es2)\<rparr>"
  have l2: "?l2 = handle_of ?sp h2 a2 (a_last a2)" by (simp add: l handle_of_def h2 a_last_def)
  note sw = log_switch_def[of "index_of off ?es2" "a_floor a2" "a_floor_term a2" ver fb l, unfolded lv Let_def hdr]
  from rf(1,2) ne vl show ?thesis
  proof (cases rule: fill_spare_outcome)
    case (fault fb1 e)
    have "on_disk (disk fb1) live h (cut m a)"
    proof -
      obtain bs where bs: "disk fb1 = (disk fb)(?sp := bs)" "blank bs \<or> bs = disk fb ?sp"
        using fault(3) by (auto simp: spare_crash_def)
      have "no_rival bs (h_generation h)" using bs(2) rf(7) blank_header by blast
      then show ?thesis by (rule old_on_disk[OF run bs(1)])
    qed
    moreover have "rl_durable_round l = dr" by (simp add: l handle_of_def)
    moreover have "fb_crashed fb1" using fault(3) by (simp add: spare_crash_def)
    moreover have "log_switch (index_of off ?es2) (a_floor a2) (a_floor_term a2) ver fb l = (fb1, l, Inl e)"
      by (simp only: sw fault(1)[folded off'] prod.case sum.case)
    ultimately show ?thesis using that(2) fault(2) by blast
  next
    case (ok fb1)
    note fill = ok
    from run fill(2) f gen show ?thesis
    proof (cases rule: header_write_outcome)
      case (fault fb2 e)
      have "log_switch (index_of off ?es2) (a_floor a2) (a_floor_term a2) ver fb l = poison fb2 l"
        by (simp only: sw fill(1)[folded off'] fault(1) prod.case sum.case)
      then show ?thesis using that(2)[of fb2 "l\<lparr>rl_poisoned := True\<rparr>"] fault(2-4)
        by (auto simp: poison_def l handle_of_def)
    next
      case (ok fb2 img)
      note wr = ok
      from run f gen wr(2-4) show ?thesis
      proof (cases rule: retire_outcome)
        case (fault fb3 e)
        have "log_switch (index_of off ?es2) (a_floor a2) (a_floor_term a2) ver fb l = poison fb3 ?l2"
          by (simp only: sw fill(1)[folded off'] wr(1) fault(1) prod.case sum.case)
        then show ?thesis using that(2)[of fb3 "?l2\<lparr>rl_poisoned := True\<rparr>"] fault(2-4)
          by (auto simp: poison_def a_last_def)
      next
        case (ok fb3)
        have "log_switch (index_of off ?es2) (a_floor a2) (a_floor_term a2) ver fb l = (fb3, ?l2, Inr ())"
          by (simp only: sw fill(1)[folded off'] wr(1) ok(1) prod.case sum.case)
        then show ?thesis using that(1) ok(2-4) l2 by simp
      qed
    qed
  qed
qed

end
