(* ===== verification/Log_Contract.thy ===== *)
theory Log_Contract
  imports Log_Recovery
begin

text \<open>
  The contract of \<open>RoundLog\<close>, stated on the abstract log, and the two theorems that the operations of
  \<open>consensus/log.rs\<close> keep it: while the device lives every call answers as the contract says, and when the
  device dies, under any call, reopening finds the log as it was before or after that call, cut at most above the
  round the handle had promised.
\<close>

section \<open>The contract\<close>

definition spec_readable :: "alog \<Rightarrow> nat \<Rightarrow> unit log_result" where
  "spec_readable a r =
     (if r = 0 then Inl (NotFound 0 (a_floor a + 1) (a_last a))
      else if r \<le> a_floor a then Inl (Compacted r (a_floor a)) else Inr ())"

definition spec_entry :: "alog \<Rightarrow> nat \<Rightarrow> entry log_result" where
  "spec_entry a r =
     rbind (spec_readable a r) (\<lambda>_.
       if a_last a < r then Inl (NotFound r (a_floor a + 1) (a_last a))
       else Inr (a_entries a ! (r - a_floor a - 1)))"

definition spec_term_at :: "alog \<Rightarrow> nat \<Rightarrow> nat log_result" where
  "spec_term_at a r =
     (if r = 0 then Inr 0 else if r = a_floor a then Inr (a_floor_term a)
      else rbind (spec_entry a r) (\<lambda>e. Inr (e_term e)))"

text \<open>How many of the entries a budget of frames and bytes admits: always one, if there is one.\<close>

fun spec_budget :: "nat \<Rightarrow> nat \<Rightarrow> nat \<Rightarrow> nat \<Rightarrow> entry list \<Rightarrow> entry list" where
  "spec_budget max_entries max_bytes n bytes [] = []"
| "spec_budget max_entries max_bytes n bytes (e # es) =
     (if 0 < n \<and> (max_entries \<le> n \<or> max_bytes < bytes + length (frame_bytes e)) then []
      else e # spec_budget max_entries max_bytes (n + 1) (bytes + length (frame_bytes e)) es)"

definition spec_range :: "alog \<Rightarrow> nat \<Rightarrow> nat \<Rightarrow> nat \<Rightarrow> entry list log_result" where
  "spec_range a start max_entries max_bytes =
     rbind (spec_readable a start) (\<lambda>_.
       if a_last a + 1 < start then Inl (NotFound start (a_floor a + 1) (a_last a))
       else if max_entries = 0 then Inr []
       else Inr (spec_budget max_entries max_bytes 0 0 (drop (start - a_floor a - 1) (a_entries a))))"

definition spec_append :: "alog \<Rightarrow> entry list \<Rightarrow> alog \<times> unit log_result" where
  "spec_append a es =
     (case check_batch es (a_last a + 1) (a_last_term a) of
        Inl e \<Rightarrow> (a, Inl e)
      | Inr _ \<Rightarrow> (extend a es, Inr ()))"

definition spec_truncate :: "alog \<Rightarrow> nat \<Rightarrow> alog \<times> unit log_result" where
  "spec_truncate a start =
     (case spec_readable a start of
        Inl e \<Rightarrow> (a, Inl e)
      | Inr _ \<Rightarrow>
          if a_last a + 1 < start then (a, Inl (NotFound start (a_floor a + 1) (a_last a)))
          else (cut (start - a_floor a - 1) a, Inr ()))"

definition spec_discard :: "alog \<Rightarrow> nat \<Rightarrow> nat \<Rightarrow> alog \<times> unit log_result" where
  "spec_discard a through trm =
     (if through < a_floor a then (a, Inr ())
      else if through = a_floor a then
        (if trm = a_floor_term a then (a, Inr ()) else (a, Inl (TermMismatch through (a_floor_term a) trm)))
      else
        let held = e_term (a_entries a ! (through - a_floor a - 1)) in
        if through \<le> a_last a \<and> held \<noteq> trm then (a, Inl (TermMismatch through held trm))
        else (\<lparr>a_floor = through, a_floor_term = trm, a_entries = drop (through - a_floor a) (a_entries a)\<rparr>, Inr ()))"

datatype log_call =
    CAppend "entry list" | CSync | CTruncate nat | CDiscard nat nat | CEntry nat | CRange nat nat nat | CTermAt nat

datatype log_answer =
    Done "unit log_result" | Synced "nat log_result" | Got "entry log_result"
  | GotRange "entry list log_result" | GotTerm "nat log_result"

fun do_log_call :: "log_call \<Rightarrow> fabric \<Rightarrow> round_log \<Rightarrow> fabric \<times> round_log \<times> log_answer" where
  "do_log_call (CAppend es) fb l = (let (fb, l, r) = log_append es fb l in (fb, l, Done r))"
| "do_log_call CSync fb l = (let (fb, l, r) = log_sync fb l in (fb, l, Synced r))"
| "do_log_call (CTruncate start) fb l = (let (fb, l, r) = log_truncate_from start fb l in (fb, l, Done r))"
| "do_log_call (CDiscard through trm) fb l =
     (let (fb, l, r) = log_discard_prefix through trm fb l in (fb, l, Done r))"
| "do_log_call (CEntry rnd) fb l = (let (fb, r) = log_entry l rnd fb in (fb, l, Got r))"
| "do_log_call (CRange start n b) fb l = (let (fb, r) = log_range l start n b fb in (fb, l, GotRange r))"
| "do_log_call (CTermAt rnd) fb l = (fb, l, GotTerm (log_term_at l rnd))"

fun spec_call :: "log_call \<Rightarrow> alog \<Rightarrow> alog \<times> log_answer" where
  "spec_call (CAppend es) a = (let (a, r) = spec_append a es in (a, Done r))"
| "spec_call CSync a = (a, Synced (Inr (a_last a)))"
| "spec_call (CTruncate start) a = (let (a, r) = spec_truncate a start in (a, Done r))"
| "spec_call (CDiscard through trm) a = (let (a, r) = spec_discard a through trm in (a, Done r))"
| "spec_call (CEntry rnd) a = (a, Got (spec_entry a rnd))"
| "spec_call (CRange start n b) a = (a, GotRange (spec_range a start n b))"
| "spec_call (CTermAt rnd) a = (a, GotTerm (spec_term_at a rnd))"

text \<open>Arguments of the Rust types.\<close>

fun call_typed :: "log_call \<Rightarrow> bool" where
  "call_typed (CAppend es) = list_all entry_typed es"
| "call_typed (CDiscard through trm) = (through < 2 ^ 64 \<and> trm < 2 ^ 64)"
| "call_typed _ = True"

text \<open>The header a call would write if it switched files.\<close>

fun switch_header :: "log_call \<Rightarrow> round_log \<Rightarrow> log_header" where
  "switch_header (CDiscard through trm) l =
     \<lparr>h_version = rl_version l, h_generation = rl_generation l + 1, h_snapshot_round = through, h_snapshot_term = trm\<rparr>"
| "switch_header _ l =
     \<lparr>h_version = VERSION, h_generation = rl_generation l + 1,
      h_snapshot_round = rl_snapshot_round l, h_snapshot_term = rl_snapshot_term l\<rparr>"

text \<open>Every round up to \<open>d\<close> is below the new floor or still reads as it did.\<close>

definition retains :: "alog \<Rightarrow> alog \<Rightarrow> nat \<Rightarrow> bool" where
  "retains a a' d \<longleftrightarrow> (\<forall>r \<le> d. r \<le> a_floor a' \<or> spec_entry a' r = spec_entry a r)"

section \<open>The handle shows the log\<close>

lemma handle_simps [simp]:
  "rl_live (handle_of live h a dr) = live" "rl_generation (handle_of live h a dr) = h_generation h"
  "rl_version (handle_of live h a dr) = h_version h" "rl_snapshot_round (handle_of live h a dr) = a_floor a"
  "rl_snapshot_term (handle_of live h a dr) = a_floor_term a"
  "rl_index (handle_of live h a dr) = index_of 36 (a_entries a)"
  "rl_end_offset (handle_of live h a dr) = 36 + length (frames (a_entries a))"
  "rl_durable_round (handle_of live h a dr) = dr" "\<not> rl_poisoned (handle_of live h a dr)"
  "log_last_round (handle_of live h a dr) = a_last a" "log_first_round (handle_of live h a dr) = a_floor a + 1"
  by (simp_all add: handle_of_def log_last_round_def log_first_round_def a_last_def)

lemma handle_live [simp]: "check_live (handle_of live h a dr) = Inr ()"
  "(handle_of live h a dr)\<lparr>rl_durable_round := d\<rparr> = handle_of live h a d"
  by (simp_all add: check_live_def handle_of_def)

lemma index_of_Nil [simp]: "index_of at es = [] \<longleftrightarrow> es = []"
  by (cases es) auto

lemma last_index_of: "es \<noteq> [] \<Longrightarrow> f_term (last (index_of at es)) = e_term (last es)"
  by (induction es arbitrary: at) auto

lemma handle_last_term [simp]: "log_last_term (handle_of live h a dr) = a_last_term a"
  by (auto simp: log_last_term_def a_last_term_def last_index_of)

lemma handle_readable [simp]: "check_readable (handle_of live h a dr) r = spec_readable a r"
  by (simp add: check_readable_def spec_readable_def)

lemma spec_readable_Inr: "spec_readable a r = Inr u \<longleftrightarrow> a_floor a < r"
  by (auto simp: spec_readable_def)

lemma frame_at_spec:
  "frame_at (handle_of live h a dr) r =
     rbind (spec_readable a r) (\<lambda>_.
       if a_last a < r then Inl (NotFound r (a_floor a + 1) (a_last a))
       else Inr \<lparr>f_offset = 36 + length (frames (take (r - a_floor a - 1) (a_entries a))),
         f_len = length (frame_bytes (a_entries a ! (r - a_floor a - 1))),
         f_term = e_term (a_entries a ! (r - a_floor a - 1))\<rparr>)"
proof (cases "spec_readable a r")
  case (Inr u)
  then have "a_floor a < r" by (simp add: spec_readable_Inr)
  with Inr show ?thesis by (auto simp: frame_at_def index_of_nth a_last_def)
qed (simp add: frame_at_def)

lemma running_ticked: "running fb live h a m \<Longrightarrow> ticked fb fb' \<Longrightarrow> running fb' live h a m"
  using ticked_facts[of fb fb'] by (auto simp: running_def)

lemma running_reads:
  assumes run: "running fb live h a m" and i: "i < length (a_entries a)" and l: "rl_live l = live"
  shows "\<exists>fb'. read_frame l \<lparr>f_offset = 36 + length (frames (take i (a_entries a))),
      f_len = length (frame_bytes (a_entries a ! i)), f_term = t\<rparr> fb = (fb', Inr (frame_bytes (a_entries a ! i))) \<and> ticked fb fb'"
proof -
  obtain tv where "visible (fb_files fb live) = log_header_encode h @ frames (a_entries a) @ tv" using run by (auto simp: running_def)
  also have "a_entries a = take i (a_entries a) @ a_entries a ! i # drop (Suc i) (a_entries a)"
    using i by (rule id_take_nth_drop)
  finally have v: "visible (fb_files fb (rl_live l)) = (log_header_encode h @ frames (take i (a_entries a))) @
      frame_bytes (a_entries a ! i) @ (frames (drop (Suc i) (a_entries a)) @ tv)"
    by (simp add: l)
  have "healthy fb" using running_facts[OF run] by simp
  from read_frame_at[OF this v, of t] show ?thesis by simp
qed

lemma running_entry:
  assumes run: "running fb live h a m" and i: "i < length (a_entries a)"
  shows "frame_ok (a_entries a ! i)" "e_round (a_entries a ! i) = a_floor a + 1 + i"
  using chained_nth[of "Suc (a_floor a)" "a_floor_term a" "a_entries a" i] i running_facts(3)[OF run]
  by (auto simp: fits_def a_ok_def)

lemma log_entry_spec:
  assumes run: "running fb live h a m"
  shows "\<exists>fb'. log_entry (handle_of live h a dr) r fb = (fb', spec_entry a r) \<and> ticked fb fb'"
proof (cases "a_floor a < r \<and> r \<le> a_last a")
  case False
  then show ?thesis
    by (auto simp: log_entry_def io_bind_def io_of_def frame_at_spec spec_entry_def spec_readable_def)
next
  case True
  let ?i = "r - a_floor a - 1"
  have i: "?i < length (a_entries a)" using True by (auto simp: a_last_def)
  obtain fb' where rd: "read_frame (handle_of live h a dr) \<lparr>f_offset = 36 + length (frames (take ?i (a_entries a))),
      f_len = length (frame_bytes (a_entries a ! ?i)), f_term = e_term (a_entries a ! ?i)\<rparr> fb =
      (fb', Inr (frame_bytes (a_entries a ! ?i)))" "ticked fb fb'"
    using running_reads[OF run i, of "handle_of live h a dr"] by auto
  have "r = e_round (a_entries a ! ?i)" using running_entry(2)[OF run i] True by simp
  then have "decode_frame (frame_bytes (a_entries a ! ?i)) r (e_term (a_entries a ! ?i)) = Inr (a_entries a ! ?i)"
    using decode_frame_bytes[OF running_entry(1)[OF run i]] by simp
  with True rd show ?thesis
    by (auto simp: log_entry_def io_bind_def io_of_def frame_at_spec spec_entry_def spec_readable_def)
qed

lemma log_term_at_spec: "log_term_at (handle_of live h a dr) r = spec_term_at a r"
  by (auto simp: log_term_at_def spec_term_at_def frame_at_spec spec_entry_def spec_readable_def)

lemma range_loop_spec:
  assumes "running fb live h a m" "i \<le> length (a_entries a)" "r = a_floor a + 1 + i"
  shows "\<exists>fb'. range_loop (handle_of live h a dr) n b (index_of (36 + length (frames (take i (a_entries a)))) (drop i (a_entries a)))
      r bytes out fb = (fb', Inr (out @ spec_budget n b (length out) bytes (drop i (a_entries a)))) \<and> ticked fb fb'"
  using assms
proof (induction "length (a_entries a) - i" arbitrary: i r bytes out fb)
  case 0
  then show ?case by (simp add: io_ok_def)
next
  case (Suc k)
  let ?es = "a_entries a"
  let ?e = "?es ! i"
  let ?f = "\<lparr>f_offset = 36 + length (frames (take i ?es)), f_len = length (frame_bytes ?e), f_term = e_term ?e\<rparr>"
  have i: "i < length ?es" using Suc.hyps(2) by simp
  have d: "drop i ?es = ?e # drop (Suc i) ?es" using i by (simp add: Cons_nth_drop_Suc)
  have ix: "index_of (36 + length (frames (take i ?es))) (drop i ?es) =
      ?f # index_of (36 + length (frames (take (Suc i) ?es))) (drop (Suc i) ?es)"
    using i by (simp add: d take_Suc_conv_app_nth add.assoc)
  show ?case
  proof (cases "out \<noteq> [] \<and> (n \<le> length out \<or> b < bytes + length (frame_bytes ?e))")
    case True
    then show ?thesis unfolding ix unfolding d by (simp add: io_ok_def)
  next
    case False
    obtain fb1 where rd: "read_frame (handle_of live h a dr) ?f fb = (fb1, Inr (frame_bytes ?e))" "ticked fb fb1"
      using running_reads[OF Suc.prems(1) i, of "handle_of live h a dr"] by auto
    have "decode_frame (frame_bytes ?e) r (e_term ?e) = Inr ?e"
      using decode_frame_bytes[OF running_entry(1)[OF Suc.prems(1) i]] running_entry(2)[OF Suc.prems(1) i] Suc.prems(3) by simp
    then have "range_loop (handle_of live h a dr) n b (?f # index_of (36 + length (frames (take (Suc i) ?es))) (drop (Suc i) ?es)) r bytes out fb =
        range_loop (handle_of live h a dr) n b (index_of (36 + length (frames (take (Suc i) ?es))) (drop (Suc i) ?es))
          (r + 1) (bytes + length (frame_bytes ?e)) (out @ [?e]) fb1"
      using False rd(1) by (auto simp: io_bind_def io_of_def)
    moreover have k: "k = length ?es - Suc i" and i1: "Suc i \<le> length ?es" and r1: "r + 1 = a_floor a + 1 + Suc i"
      using Suc.hyps(2) Suc.prems(3) i by simp_all
    have run1: "running fb1 live h a m" by (rule running_ticked[OF Suc.prems(1) rd(2)])
    obtain fb2 where "range_loop (handle_of live h a dr) n b (index_of (36 + length (frames (take (Suc i) ?es))) (drop (Suc i) ?es))
          (r + 1) (bytes + length (frame_bytes ?e)) (out @ [?e]) fb1 =
        (fb2, Inr ((out @ [?e]) @ spec_budget n b (length (out @ [?e])) (bytes + length (frame_bytes ?e)) (drop (Suc i) ?es)))" "ticked fb1 fb2"
      using Suc.hyps(1)[OF k run1 i1 r1, of "bytes + length (frame_bytes ?e)" "out @ [?e]"] by blast
    moreover have "spec_budget n b (length out) bytes (drop i ?es) =
        ?e # spec_budget n b (length (out @ [?e])) (bytes + length (frame_bytes ?e)) (drop (Suc i) ?es)"
      using False by (auto simp: d)
    ultimately show ?thesis unfolding ix using ticked_trans[OF rd(2)] by auto
  qed
qed

lemma log_range_spec:
  assumes run: "running fb live h a m"
  shows "\<exists>fb'. log_range (handle_of live h a dr) start n b fb = (fb', spec_range a start n b) \<and> ticked fb fb'"
proof (cases "a_floor a < start \<and> start \<le> a_last a \<and> n \<noteq> 0")
  case False
  then consider "start \<le> a_floor a" | "a_floor a < start" "a_last a < start" | "a_floor a < start" "start \<le> a_last a" "n = 0"
    by linarith
  then show ?thesis
    by cases (auto simp: log_range_def spec_range_def io_bind_def io_of_def io_ok_def spec_readable_def a_last_def)
next
  case True
  let ?i = "start - a_floor a - 1"
  have i: "?i \<le> length (a_entries a)" "start = a_floor a + 1 + ?i" using True by (auto simp: a_last_def)
  have "log_range (handle_of live h a dr) start n b fb =
      range_loop (handle_of live h a dr) n b (index_of (36 + length (frames (take ?i (a_entries a)))) (drop ?i (a_entries a))) start 0 [] fb"
    using True by (simp add: log_range_def io_bind_def io_of_def spec_readable_def drop_index_of)
  moreover have "spec_range a start n b = Inr (spec_budget n b 0 0 (drop ?i (a_entries a)))"
    using True by (simp add: spec_range_def spec_readable_def)
  ultimately show ?thesis using range_loop_spec[OF run i, where out = "[]" and bytes = 0] by simp
qed

section \<open>What each mutating call does\<close>

lemma check_batch_Inr:
  assumes "check_batch es r t = Inr fs" "list_all entry_typed es"
  shows "fs = map frame_bytes es \<and> chained r t es"
  using assms
proof (induction es arbitrary: r t fs)
  case (Cons e es)
  then show ?case
    by (auto simp: rbind_Inr dest!: encode_frame_Inr split: if_splits)
qed simp

lemma spec_entry_cut:
  "r \<le> a_floor a + n \<Longrightarrow> r \<le> a_last a \<Longrightarrow> a_floor a < r \<Longrightarrow> spec_entry (cut n a) r = spec_entry a r"
  by (auto simp: spec_entry_def spec_readable_def cut_def a_last_def)

lemma spec_entry_extend:
  "a_floor a < r \<Longrightarrow> r \<le> a_last a \<Longrightarrow> spec_entry (extend a es) r = spec_entry a r"
  by (auto simp: spec_entry_def spec_readable_def extend_def a_last_def nth_append)

lemma retains_cut: "d \<le> a_floor a + n \<Longrightarrow> n \<le> length (a_entries a) \<Longrightarrow> retains a (cut n a) d"
  unfolding retains_def
proof (intro allI impI)
  fix r
  assume "d \<le> a_floor a + n" "n \<le> length (a_entries a)" "r \<le> d"
  moreover have "a_floor (cut n a) = a_floor a" by (simp add: cut_def)
  ultimately show "r \<le> a_floor (cut n a) \<or> spec_entry (cut n a) r = spec_entry a r"
    using spec_entry_cut[of r a n] by (cases "a_floor a < r") (auto simp: a_last_def)
qed

text \<open>The device died under the call and holds the log of before or of after, cut above what was promised.\<close>

definition crash_ok :: "alog \<Rightarrow> alog \<Rightarrow> fabric \<Rightarrow> round_log \<Rightarrow> bool" where
  "crash_ok a b fb l \<longleftrightarrow> (\<exists>live h c n. on_disk (disk fb) live h c \<and> (c = cut n a \<or> c = cut n b) \<and>
     retains a c (rl_durable_round l))"

lemma crash_okI:
  assumes "on_disk (disk fb) live h (cut n a)" "rl_durable_round l \<le> a_floor a + n" "n \<le> length (a_entries a)"
  shows "crash_ok a b fb l"
  using assms retains_cut unfolding crash_ok_def by blast

lemma cut_all [simp]: "cut (length (a_entries a)) a = a"
  by (simp add: cut_def)

text \<open>
  The outcome of one call: the device lives and the handle shows the contract's next log with the contract's
  answer, or the device died. \<open>g\<close> bounds the generation.
\<close>

definition call_ok ::
    "fabric \<Rightarrow> alog \<Rightarrow> nat \<Rightarrow> fabric \<times> round_log \<times> 'r \<Rightarrow> alog \<times> 'r \<Rightarrow> bool" where
  "call_ok fb a g res spec \<longleftrightarrow> (\<exists>fb' live h m dr. res = (fb', handle_of live h (fst spec) dr, snd spec) \<and>
     running fb' live h (fst spec) m \<and> dr \<le> a_floor (fst spec) + m \<and> retains a (fst spec) dr \<and>
     h_generation h \<le> g + 1 \<and> fb_plan fb' = fb_plan fb \<and> fb_durability fb' = fb_durability fb)"

definition call_dead ::
    "fabric \<Rightarrow> alog \<Rightarrow> log_header \<Rightarrow> fabric \<times> round_log \<times> 'r \<Rightarrow> alog \<times> 'r \<Rightarrow> bool" where
  "call_dead fb a h2 res spec \<longleftrightarrow> fb_crashed (fst res) \<and> fb_plan fb \<noteq> None \<and>
     (tear_safe fb h2 \<longrightarrow> crash_ok a (fst spec) (fst res) (fst (snd res)))"

lemma call_okI:
  assumes "res = (fb', handle_of live h b dr', r)" "running fb' live h b m" "dr' \<le> a_floor b + m" "retains a b dr'"
    and "h_generation h \<le> g + 1" "fb_plan fb' = fb_plan fb" "fb_durability fb' = fb_durability fb"
  shows "call_ok fb a g res (b, r)"
  using assms unfolding call_ok_def by auto

lemma unchanged_ok:
  assumes "running fb live h a m" "dr \<le> a_floor a + m" "h_generation h \<le> g"
  shows "call_ok fb a g (fb, handle_of live h a dr, r) (a, r)"
  using assms unfolding call_ok_def retains_def by fastforce

lemma sync_outcome_spec:
  assumes run: "running fb live h a m" and dr: "dr \<le> a_floor a + m" and l: "l = handle_of live h a dr"
  shows "call_ok fb a (h_generation h) (log_sync fb l) (a, Inr (a_last a)) \<or>
    call_dead fb a h2 (log_sync fb l) (a, Inr (a_last a))"
proof -
  note rf = running_facts[OF run]
  from rf(1) show ?thesis
  proof (cases rule: sync_data_cases[where f = live])
    case (ok fb')
    note s = stored_facts[OF ok(2)]
    have "log_sync fb l = (fb', handle_of live h a (a_last a), Inr (a_last a))"
      by (simp add: log_sync_def l ok(1))
    moreover have "running fb' live h a (length (a_entries a))"
      using run other_file[OF rf(4)] by (cases "fb_durability fb") (auto simp: running_def s)
    moreover have "retains a a (a_last a)" by (simp add: retains_def)
    ultimately have "call_ok fb a (h_generation h) (log_sync fb l) (a, Inr (a_last a))"
      by (rule call_okI[OF _ _ eq_refl[OF a_last_def]]) (simp_all add: s)
    then show ?thesis ..
  next
    case (fault fb' e)
    have "disk fb' = disk fb" using fault(3) by (auto simp: stopped_def disk_def fun_eq_iff)
    then have "crash_ok a a fb' (l\<lparr>rl_poisoned := True\<rparr>)"
      using running_disk[OF run] dr rf(6) by (intro crash_okI[where n = m]) (auto simp: l)
    moreover have "log_sync fb l = poison fb' l" by (simp add: log_sync_def l fault(1))
    ultimately show ?thesis using fault(2,3) by (simp add: call_dead_def poison_def stopped_def)
  qed
qed

lemma truncate_outcome_spec:
  assumes run: "running fb live h a m" and dr: "dr \<le> a_floor a + m" and l: "l = handle_of live h a dr"
  shows "call_ok fb a (h_generation h) (log_truncate_from start fb l) (spec_truncate a start) \<or>
    call_dead fb a h2 (log_truncate_from start fb l) (spec_truncate a start)"
proof (cases "a_floor a < start \<and> start \<le> a_last a")
  case False
  then have "\<exists>r. log_truncate_from start fb l = (fb, l, r) \<and> spec_truncate a start = (a, r)"
    by (auto simp: log_truncate_from_def spec_truncate_def l spec_readable_def cut_def a_last_def)
  then show ?thesis using unchanged_ok[OF run dr order_refl] by (auto simp: l)
next
  case True
  note rf = running_facts[OF run]
  define i where "i = start - a_floor a - 1"
  define dr' where "dr' = min dr (start - 1)"
  let ?es = "a_entries a"
  let ?stop = "36 + length (frames (take i ?es))" and ?a' = "cut i a" and ?l' = "handle_of live h (cut i a) dr'"
  have i: "i < length ?es" "start - 1 = a_floor a + i" using True by (auto simp: a_last_def i_def)
  have sp: "spec_truncate a start = (?a', Inr ())" using True by (simp add: spec_truncate_def spec_readable_def i_def)
  have step: "log_truncate_from start fb l =
      (case io_bind (file_set_len live ?stop) (\<lambda>_. file_sync_all live) fb of
         (fb, Inl e) \<Rightarrow> poison fb ?l' | (fb, Inr _) \<Rightarrow> (fb, ?l', Inr ()))"
    using True i(1) unfolding i_def dr'_def
    by (simp add: log_truncate_from_def l spec_readable_def index_of_nth Let_def split: prod.split sum.split)
      (simp add: handle_of_def cut_def take_index_of)
  obtain tv where tv: "visible (fb_files fb live) = log_header_encode h @ frames ?es @ tv"
    using run by (auto simp: running_def)
  have "frames ?es = frames (take i ?es) @ frames (drop i ?es)"
    unfolding concat_append[symmetric] map_append[symmetric] by simp
  then have cutv: "resize (visible (fb_files fb live)) ?stop = log_header_encode h @ frames (take i ?es)"
    unfolding tv by (simp add: resize_shrink)
  have dead: "call_dead fb a h2 (poison fb' ?l') (?a', Inr ())"
    if "fb_crashed fb'" "fb_plan fb \<noteq> None" "on_disk (disk fb') live h (cut n a)" "dr' \<le> a_floor a + n" "n \<le> length ?es" for fb' n
    using that crash_okI[OF that(3), of "?l'\<lparr>rl_poisoned := True\<rparr>"] by (simp add: call_dead_def poison_def)
  from rf(1) show ?thesis
  proof (cases rule: set_len_cases[where f = live and n = ?stop])
    case (fault fb1 e)
    have "disk fb1 = disk fb" using fault(3) by (auto simp: stopped_def disk_def fun_eq_iff)
    then have "call_dead fb a h2 (poison fb1 ?l') (?a', Inr ())"
      using dead[of fb1 m] running_disk[OF run] fault(2,3) dr rf(6) by (simp add: stopped_def dr'_def)
    then show ?thesis by (simp add: step sp io_bind_def fault(1))
  next
    case (ok fb1)
    note s1 = stored_facts[OF ok(2)]
    have h1: "healthy fb1" using rf(1) s1 by simp
    from h1 show ?thesis
    proof (cases rule: sync_all_cases[where f = live])
      case (fault fb2 e)
      have d2: "disk fb2 = disk fb1" using fault(3) by (auto simp: stopped_def disk_def fun_eq_iff)
      have "\<exists>n. on_disk (disk fb2) live h (cut n a) \<and> dr' \<le> a_floor a + n \<and> n \<le> length ?es"
      proof (cases "fb_durability fb")
        case SyncOnly
        then have "disk fb2 = disk fb" by (auto simp: d2 disk_def s1 fun_eq_iff)
        then show ?thesis using running_disk[OF run] dr rf(6) by (intro exI[of _ m]) (auto simp: dr'_def)
      next
        case WriteThrough
        then have "disk fb2 live = log_header_encode h @ frames (a_entries (cut i a)) @ []"
            "disk fb2 (1 - live) = disk fb (1 - live)"
          using run cutv other_file[OF rf(4)] by (simp_all add: d2 disk_def s1 running_def cut_def)
        then have "on_disk (disk fb2) live h (cut i a)"
          using fits_cut[OF rf(3)] rf(7) unfolding on_disk_def by (metis stops_short list.size(3) zero_le)
        then show ?thesis using i by (intro exI[of _ i]) (auto simp: dr'_def)
      qed
      then have "call_dead fb a h2 (poison fb2 ?l') (?a', Inr ())"
        using dead fault(2,3) s1 by (auto simp: stopped_def)
      then show ?thesis by (simp add: step sp io_bind_def ok(1) fault(1))
    next
      case (ok fb2)
      note s2 = stored_facts[OF ok(2)]
      have "running fb2 live h ?a' i"
      proof (rule runningI[where tv = "[]" and td = "[]"])
        show "durable (fb_files fb2 live) = log_header_encode h @ frames (take i (a_entries ?a')) @ []"
          using run cutv by (cases "fb_durability fb") (auto simp: s1 s2 cut_def running_def)
        show "fb_durability fb2 = WriteThrough \<Longrightarrow> i = length (a_entries ?a') \<and>
            durable (fb_files fb2 live) = visible (fb_files fb2 live)"
          using run cutv i(1) by (simp add: s1 s2 cut_def running_def)
        show "no_rival (disk fb2 (1 - live)) (h_generation h)"
          using rf(7) other_file[OF rf(4)] by (simp add: disk_def s1 s2)
      qed (use rf fits_cut[OF rf(3)] cutv i(1) in \<open>auto simp: s1 s2 cut_def\<close>)
      moreover have "dr' \<le> a_floor a + i" using i(2) by (simp add: dr'_def)
      moreover have "retains a ?a' dr'" using i by (intro retains_cut) (auto simp: dr'_def)
      moreover have "log_truncate_from start fb l = (fb2, ?l', Inr ())"
        by (simp add: step io_bind_def \<open>file_set_len live ?stop fb = (fb1, Inr ())\<close> ok(1))
      ultimately have "call_ok fb a (h_generation h) (log_truncate_from start fb l) (?a', Inr ())"
        by (intro call_okI[where m = i and fb' = fb2 and live = live and h = h and dr' = dr']) (simp_all add: s1 s2, simp add: cut_def)
      then show ?thesis by (simp add: sp)
    qed
  qed
qed

lemma crash_ok_extend:
  assumes "on_disk (disk fb) live h (cut n (extend a es))" "rl_durable_round l \<le> a_floor a + m"
    "m \<le> n" "m \<le> length (a_entries a)"
  shows "crash_ok a (extend a es) fb l"
proof -
  have "retains a (cut n (extend a es)) (rl_durable_round l)"
    unfolding retains_def
  proof (intro allI impI)
    fix r
    assume r: "r \<le> rl_durable_round l"
    have f: "a_floor (cut n (extend a es)) = a_floor a" "a_floor (extend a es) = a_floor a" by (simp_all add: cut_def extend_def)
    have "a_last (extend a es) = a_last a + length es" by (simp add: a_last_def extend_def)
    with r assms f have "spec_entry (cut n (extend a es)) r = spec_entry a r" if "a_floor a < r"
      using that spec_entry_cut[of r "extend a es" n] spec_entry_extend[of a r es] by (simp add: a_last_def)
    with f show "r \<le> a_floor (cut n (extend a es)) \<or> spec_entry (cut n (extend a es)) r = spec_entry a r"
      by (cases "a_floor a < r") auto
  qed
  with assms(1) show ?thesis unfolding crash_ok_def by blast
qed

lemma retains_extend: "d \<le> a_last a \<Longrightarrow> retains a (extend a es) d"
  unfolding retains_def
proof (intro allI impI)
  fix r
  assume "d \<le> a_last a" "r \<le> d"
  then show "r \<le> a_floor (extend a es) \<or> spec_entry (extend a es) r = spec_entry a r"
    using spec_entry_extend[of a r es] by (cases "a_floor a < r") (auto simp: extend_def)
qed

lemma write_frames_spec:
  assumes run: "running fb live h a m" and dr: "dr \<le> a_floor a + m" and g: "h_generation h \<le> g + 1"
    and ch: "chained (Suc (a_last a)) (a_last_term a) es" and leg: "legacy_ok h es"
  defines "res \<equiv> write_frames (map frame_bytes es) es fb (handle_of live h a dr)"
  shows "call_ok fb a g res (extend a es, Inr ()) \<or> call_dead fb a h2 res (extend a es, Inr ())"
  using run ch leg refl[of "handle_of live h a dr"]
proof (cases rule: write_frames_outcome)
  case (ok fb' m')
  have "call_ok fb a g res (extend a es, Inr ())"
    using ok dr g running_facts(6)[OF run]
    by (intro call_okI[where m = m' and fb' = fb' and live = live and h = h and dr' = dr])
      (auto simp: res_def extend_def[of a] a_last_def intro: retains_extend[unfolded extend_def])
  then show ?thesis ..
next
  case (fault fb' e j)
  have "crash_ok a (extend a es) fb' (handle_of live h a dr)"
    using crash_ok_extend[OF fault(4) _ fault(5)] dr running_facts(6)[OF run] by simp
  then have "call_dead fb a h2 res (extend a es, Inr ())"
    using fault(1-3) by (simp add: call_dead_def res_def)
  then show ?thesis ..
qed

lemma append_outcome_spec:
  assumes run: "running fb live h a m" and dr: "dr \<le> a_floor a + m" and l: "l = handle_of live h a dr"
    and ty: "list_all entry_typed es" and gen: "h_generation h + 1 < 2 ^ 64"
  defines "h2 \<equiv> switch_header (CAppend es) l"
  shows "call_ok fb a (h_generation h) (log_append es fb l) (spec_append a es) \<or>
    call_dead fb a h2 (log_append es fb l) (spec_append a es)"
proof (cases "check_batch es (a_last a + 1) (a_last_term a)")
  case (Inl e)
  then have "es \<noteq> []" by auto
  with Inl have "log_append es fb l = (fb, l, Inl e)" "spec_append a es = (a, Inl e)"
    by (simp_all add: log_append_def l spec_append_def)
  then show ?thesis using unchanged_ok[OF run dr order_refl, of "Inl e :: unit log_result"] by (simp add: l)
next
  case (Inr fs)
  have fs: "fs = map frame_bytes es" and ch: "chained (Suc (a_last a)) (a_last_term a) es"
    using check_batch_Inr[OF Inr ty] by auto
  have sp: "spec_append a es = (extend a es, Inr ())" using Inr by (simp add: spec_append_def)
  show ?thesis
  proof (cases "es = []")
    case True
    then have "log_append es fb l = (fb, l, Inr ())" "extend a es = a" by (simp_all add: log_append_def l extend_def)
    then show ?thesis using unchanged_ok[OF run dr order_refl, of "Inr () :: unit log_result"] by (simp add: l sp)
  next
    case ne: False
    note rf = running_facts[OF run]
    show ?thesis
    proof (cases "h_version h = LEGACY_VERSION \<and> list_ex (\<lambda>f. LEGACY_READ_BOUND < length f) fs")
      case False
      then have "log_append es fb l = write_frames (map frame_bytes es) es fb l"
        using ne Inr by (auto simp: log_append_def l fs)
      moreover have "legacy_ok h es"
        using False rf(5) by (auto simp: legacy_ok_def header_ok_def fs list_ex_iff list_all_iff not_less)
      ultimately show ?thesis using write_frames_spec[OF run dr _ ch, of "h_generation h" h2] by (simp add: sp l)
    next
      case True
      have h2: "h2 = \<lparr>h_version = VERSION, h_generation = h_generation h + 1, h_snapshot_round = a_floor a, h_snapshot_term = a_floor_term a\<rparr>"
        by (simp add: h2_def l)
      have fit: "fits (1 - live) h2 a"
        using rf(3) gen by (auto simp: fits_def h2 header_ok_def legacy_ok_def)
      have step: "log_append es fb l = (case log_switch (index_of 36 (a_entries a)) (a_floor a) (a_floor_term a) VERSION fb l of
          (fb, l, Inl e) \<Rightarrow> (fb, l, Inl e) | (fb, l, Inr _) \<Rightarrow> write_frames (map frame_bytes es) es fb l)"
        using ne Inr True by (simp add: log_append_def l fs log_raise_version_def)
      have off: "36 = 36 + length (frames [])" and xs: "a_entries a = [] @ a_entries a" by simp_all
      from run l xs off h2 fit show ?thesis
      proof (cases rule: switch_outcome)
        case (fault fb1 l1 e)
        have "crash_ok a (extend a es) fb1 l1" if "tear_safe fb h2"
          using fault(4)[OF that] dr rf(6) crash_okI[of fb1 live h m a l1] crash_okI[of fb1 "1 - live" h2 "length (a_entries a)" a l1]
          by (auto simp: a_last_def)
        then have "call_dead fb a h2 (log_append es fb l) (extend a es, Inr ())"
          using fault(1-3) by (simp add: call_dead_def step)
        then show ?thesis by (simp add: sp)
      next
        case (ok fb1)
        have "legacy_ok h2 es" by (simp add: legacy_ok_def h2)
        moreover have "h_generation h2 \<le> h_generation h + 1" by (simp add: h2)
        ultimately have "call_ok fb1 a (h_generation h) (log_append es fb l) (extend a es, Inr ()) \<or>
            call_dead fb1 a h2 (log_append es fb l) (extend a es, Inr ())"
          using write_frames_spec[OF ok(2), of "a_last a" "h_generation h" es h2] ch by (simp add: step ok(1) a_last_def)
        then show ?thesis using ok(3,4) by (simp add: sp call_ok_def call_dead_def tear_safe_def)
      qed
    qed
  qed
qed

definition raised :: "nat \<Rightarrow> nat \<Rightarrow> alog \<Rightarrow> alog" where
  "raised through trm a =
     \<lparr>a_floor = through, a_floor_term = trm, a_entries = drop (through - a_floor a) (a_entries a)\<rparr>"

lemma retains_raised:
  assumes "a_floor a < through" "d \<le> max (a_last a) (a_last (raised through trm a))"
  shows "retains a (raised through trm a) d"
  unfolding retains_def
proof (intro allI impI)
  fix r
  assume r: "r \<le> d"
  show "r \<le> a_floor (raised through trm a) \<or> spec_entry (raised through trm a) r = spec_entry a r"
  proof (cases "r \<le> through")
    case False
    then have "through < a_last a" "a_last (raised through trm a) = a_last a" "r \<le> a_last a"
      using assms r by (auto simp: raised_def a_last_def max_def split: if_splits)
    with False assms(1) show ?thesis
      by (auto simp: spec_entry_def spec_readable_def raised_def a_last_def)
  qed (simp add: raised_def)
qed

lemma fits_raised:
  assumes fit: "fits live h a" and thr: "a_floor a < through" "through < 2 ^ 64" "trm < 2 ^ 64" and gen: "h_generation h + 1 < 2 ^ 64"
    and held: "through \<le> a_last a \<Longrightarrow> e_term (a_entries a ! (through - a_floor a - 1)) = trm"
  shows "fits (1 - live) \<lparr>h_version = h_version h, h_generation = h_generation h + 1, h_snapshot_round = through,
      h_snapshot_term = trm\<rparr> (raised through trm a)"
proof -
  let ?i = "through - a_floor a - 1" and ?es = "a_entries a"
  have ch: "chained (Suc (a_floor a)) (a_floor_term a) ?es" using fit by (simp add: fits_def a_ok_def)
  have "chained (Suc through) trm (drop (through - a_floor a) ?es)"
  proof (cases "through \<le> a_last a")
    case True
    then have i: "?i < length ?es" "Suc ?i = through - a_floor a" "Suc (a_floor a) + ?i = through"
      using thr(1) by (auto simp: a_last_def)
    show ?thesis using chained_drop[OF ch i(1)] held[OF True] unfolding i(2,3) by simp
  qed (simp add: a_last_def)
  then show ?thesis
    using fit thr gen by (auto simp: fits_def raised_def a_ok_def header_ok_def legacy_ok_def list_all_iff dest: in_set_dropD)
qed

lemma discard_outcome_spec:
  assumes run: "running fb live h a m" and dr: "dr \<le> a_floor a + m" and l: "l = handle_of live h a dr"
    and ty: "through < 2 ^ 64" "trm < 2 ^ 64" and gen: "h_generation h + 1 < 2 ^ 64"
  defines "h2 \<equiv> switch_header (CDiscard through trm) l"
  shows "call_ok fb a (h_generation h) (log_discard_prefix through trm fb l) (spec_discard a through trm) \<or>
    call_dead fb a h2 (log_discard_prefix through trm fb l) (spec_discard a through trm)"
proof -
  let ?held = "e_term (a_entries a ! (through - a_floor a - 1))" and ?a2 = "raised through trm a"
  note rf = running_facts[OF run]
  show ?thesis
  proof (cases "a_floor a < through \<and> (through \<le> a_last a \<longrightarrow> ?held = trm)")
    case False
    then have "\<exists>r. log_discard_prefix through trm fb l = (fb, l, r) \<and> spec_discard a through trm = (a, r)"
      by (auto simp: log_discard_prefix_def spec_discard_def l frame_at_spec spec_readable_def Let_def)
    then show ?thesis using unchanged_ok[OF run dr order_refl] by (auto simp: l)
  next
    case True
    let ?xs = "take (through - a_floor a) (a_entries a)"
    let ?off = "36 + length (frames ?xs)"
    have sp: "spec_discard a through trm = (?a2, Inr ())" using True by (simp add: spec_discard_def raised_def Let_def)
    have sv: "(if through < a_last a then drop (through - a_floor a) (index_of 36 (a_entries a)) else []) =
        index_of ?off (a_entries ?a2)"
      by (simp add: drop_index_of raised_def a_last_def)
    have step: "log_discard_prefix through trm fb l =
        log_switch (index_of ?off (a_entries ?a2)) (a_floor ?a2) (a_floor_term ?a2) (h_version h) fb l"
      using True sv by (auto simp: log_discard_prefix_def l frame_at_spec spec_readable_def Let_def raised_def)
    have h2: "h2 = \<lparr>h_version = h_version h, h_generation = h_generation h + 1, h_snapshot_round = a_floor ?a2, h_snapshot_term = a_floor_term ?a2\<rparr>"
      by (simp add: h2_def l raised_def)
    have fit: "fits (1 - live) h2 ?a2"
      using fits_raised[OF rf(3) _ ty gen] True by (simp add: h2 raised_def)
    have xs: "a_entries a = ?xs @ a_entries ?a2" by (simp add: raised_def)
    from run l xs refl h2 fit show ?thesis
    proof (cases rule: switch_outcome)
      case (ok fb')
      have "retains a ?a2 (a_last ?a2)" using True by (intro retains_raised) auto
      then have "call_ok fb a (h_generation h) (log_discard_prefix through trm fb l) (?a2, Inr ())"
        using ok(2-4) unfolding step ok(1)
        by (intro call_okI[where fb' = fb' and live = "1 - live" and h = h2 and m = "length (a_entries ?a2)"]) (auto simp: a_last_def h2)
      then show ?thesis by (simp add: sp)
    next
      case (fault fb' l' e)
      have "crash_ok a ?a2 fb' l'" if "tear_safe fb h2"
        using fault(4)[OF that]
      proof
        assume "rl_durable_round l' = dr \<and> on_disk (disk fb') live h (cut m a)"
        then show ?thesis using dr rf(6) by (intro crash_okI[where n = m]) auto
      next
        assume d: "rl_durable_round l' \<in> {dr, a_last ?a2} \<and> on_disk (disk fb') (1 - live) h2 ?a2"
        then have "rl_durable_round l' \<le> max (a_last a) (a_last ?a2)" using dr rf(6) by (auto simp: a_last_def)
        with True have "retains a ?a2 (rl_durable_round l')" by (intro retains_raised) auto
        then show ?thesis using d cut_all[of ?a2] unfolding crash_ok_def by metis
      qed
      then have "call_dead fb a h2 (log_discard_prefix through trm fb l) (?a2, Inr ())"
        using fault(1-3) by (simp add: call_dead_def step)
      then show ?thesis by (simp add: sp)
    qed
  qed
qed

text \<open>Naming the answer changes nothing else.\<close>

lemma named_answer:
  assumes "call_ok fb a g x y \<or> call_dead fb a h2 x y"
  shows "call_ok fb a g (let (fb, l, r) = x in (fb, l, f r)) (let (a, r) = y in (a, f r)) \<or>
    call_dead fb a h2 (let (fb, l, r) = x in (fb, l, f r)) (let (a, r) = y in (a, f r))"
  using assms by (cases x; cases y) (auto simp: call_ok_def call_dead_def)

lemma call_outcome:
  assumes run: "running fb live h a m" and dr: "dr \<le> a_floor a + m" and l: "l = handle_of live h a dr"
    and ty: "call_typed c" and gen: "h_generation h + 1 < 2 ^ 64"
  shows "call_ok fb a (h_generation h) (do_log_call c fb l) (spec_call c a) \<or>
    call_dead fb a (switch_header c l) (do_log_call c fb l) (spec_call c a)"
proof -
  have read: "call_ok fb a (h_generation h) (fb', l, r) (a, r)" if "ticked fb fb'" for fb' and r :: log_answer
    by (rule call_okI[OF _ running_ticked[OF run that] dr]) (simp_all add: l retains_def ticked_facts[OF that])
  show ?thesis
  proof (cases c)
    case (CAppend es)
    then show ?thesis
      using named_answer[OF append_outcome_spec[OF run dr l _ gen, of es], where f = Done] ty by simp
  next
    case CSync
    then show ?thesis using named_answer[OF sync_outcome_spec[OF run dr l, of "switch_header CSync l"], where f = Synced] by simp
  next
    case (CTruncate start)
    then show ?thesis
      using named_answer[OF truncate_outcome_spec[OF run dr l, of start "switch_header c l"], where f = Done] by simp
  next
    case (CDiscard through trm)
    then show ?thesis
      using named_answer[OF discard_outcome_spec[OF run dr l _ _ gen, of through trm], where f = Done] ty by simp
  next
    case (CEntry rnd)
    obtain fb' where e: "log_entry l rnd fb = (fb', spec_entry a rnd)" "ticked fb fb'" using log_entry_spec[OF run] l by blast
    show ?thesis using read[OF e(2), of "Got (spec_entry a rnd)"] by (simp add: CEntry e(1))
  next
    case (CRange start n b)
    obtain fb' where e: "log_range l start n b fb = (fb', spec_range a start n b)" "ticked fb fb'"
      using log_range_spec[OF run] l by blast
    show ?thesis using read[OF e(2), of "GotRange (spec_range a start n b)"] by (simp add: CRange e(1))
  next
    case (CTermAt rnd)
    show ?thesis using read[OF ticked_refl, of "GotTerm (spec_term_at a rnd)"] by (simp add: CTermAt l log_term_at_spec)
  qed
qed

section \<open>Lives of a log\<close>

text \<open>
  Opening after a power loss, as often as it takes: each attempt runs under a fault plan of its own and may itself
  be cut off.
\<close>

abbreviation powered :: "fabric \<Rightarrow> fault_plan option \<Rightarrow> fabric" where
  "powered fb p \<equiv> (restart fb)\<lparr>fb_plan := p\<rparr>"

inductive boots :: "fabric \<Rightarrow> fabric \<Rightarrow> round_log \<Rightarrow> bool" where
  boot: "plain (powered fb p) \<Longrightarrow> with_storage (powered fb p) = (fb', Inr l) \<Longrightarrow> boots fb fb' l"
| boot_again: "plain (powered fb p) \<Longrightarrow> with_storage (powered fb p) = (fb1, Inl e) \<Longrightarrow> boots fb1 fb' l \<Longrightarrow>
    boots fb fb' l"

text \<open>What a handle shows: its floor, and what every round reads as.\<close>

definition shows_log :: "fabric \<Rightarrow> round_log \<Rightarrow> alog \<Rightarrow> bool" where
  "shows_log fb l a \<longleftrightarrow> rl_snapshot_round l = a_floor a \<and> rl_snapshot_term l = a_floor_term a \<and>
     (\<forall>r. snd (log_entry l r fb) = spec_entry a r)"

definition empty_log :: alog where
  "empty_log = \<lparr>a_floor = 0, a_floor_term = 0, a_entries = []\<rparr>"

definition blank_device :: "durability \<Rightarrow> fabric" where
  "blank_device d = from_images (\<lambda>_. []) None d"

text \<open>
  Every way a log can come to be open: created on empty files, after a call the device survived, and reopened
  after the power failed during a call or after it.
\<close>

inductive alive :: "fabric \<Rightarrow> round_log \<Rightarrow> alog \<Rightarrow> bool" where
  born: "boots (blank_device d) fb l \<Longrightarrow> alive fb l empty_log"
| called: "alive fb l a \<Longrightarrow> call_typed c \<Longrightarrow> rl_generation l + 1 < 2 ^ 64 \<Longrightarrow>
    do_log_call c fb l = (fb', l', ans) \<Longrightarrow> \<not> fb_crashed fb' \<Longrightarrow> alive fb' l' (fst (spec_call c a))"
| rebooted: "alive fb l a \<Longrightarrow> call_typed c \<Longrightarrow> rl_generation l + 1 < 2 ^ 64 \<Longrightarrow>
    tear_safe fb (switch_header c l) \<Longrightarrow> do_log_call c fb l = (fb', l', ans) \<Longrightarrow> boots fb' fb'' l'' \<Longrightarrow>
    shows_log fb'' l'' b \<Longrightarrow> alive fb'' l'' b"

lemma powered_facts [simp]:
  "healthy (powered fb p)" "visible (fb_files (powered fb p) f) = disk fb f" "durable (fb_files (powered fb p) f) = disk fb f"
  "fb_durability (powered fb p) = fb_durability fb" "fb_plan (powered fb p) = p"
  using restart_facts[of fb] by (simp_all add: healthy_def disk_def del: restart_facts)

lemma boots_on_disk:
  assumes "boots fb fb' l" "on_disk (disk fb) live h a"
  shows "l = handle_of live h a (a_last a) \<and> running fb' live h a (length (a_entries a))"
  using assms
proof (induction rule: boots.induct)
  case (boot fb p fb' l)
  from boot.prems powered_facts(1) boot.hyps(1) powered_facts(2,3) show ?case
    by (cases rule: open_disk) (use boot.hyps(2) in auto)
next
  case (boot_again fb p fb1 e fb' l)
  have "on_disk (\<lambda>f. durable (fb_files fb1 f)) live h a"
    using boot_again.prems powered_facts(1) boot_again.hyps(1) powered_facts(2,3)
    by (cases rule: open_disk) (use boot_again.hyps(2) in auto)
  then have "on_disk (disk fb1) live h a" by (simp add: disk_def[abs_def])
  then show ?case by (rule boot_again.IH)
qed

lemma boots_exists:
  assumes "on_disk (disk fb) live h a"
  shows "\<exists>fb'. boots fb fb' (handle_of live h a (a_last a))"
proof -
  have pl: "plain (powered fb None)" by (simp add: plain_def)
  from assms powered_facts(1) pl powered_facts(2,3) show ?thesis
    by (cases rule: open_disk) (use boot[OF pl] in auto)
qed

lemma running_shows: "running fb live h a m \<Longrightarrow> shows_log fb (handle_of live h a dr) a"
  using log_entry_spec[of fb live h a m dr] unfolding shows_log_def by (metis handle_simps(4,5) snd_conv)

lemma shows_log_unique:
  assumes "shows_log fb l a" "shows_log fb l b"
  shows "a = b"
proof -
  have f: "a_floor a = a_floor b" "a_floor_term a = a_floor_term b" and
    e: "spec_entry a r = spec_entry b r" for r using assms by (auto simp: shows_log_def)
  have isr: "isOk (spec_entry x r) \<longleftrightarrow> a_floor x < r \<and> r \<le> a_last x" for x r
    by (auto simp: spec_entry_def spec_readable_def)
  have "a_last a = a_last b"
    using isr[of a "a_last a"] isr[of b "a_last a"] isr[of a "a_last b"] isr[of b "a_last b"] e f
    by (metis a_last_def le_add1 le_antisym le_neq_implies_less order_refl)
  then have len: "length (a_entries a) = length (a_entries b)" using f by (simp add: a_last_def)
  have "a_entries a ! i = a_entries b ! i" if "i < length (a_entries a)" for i
    using e[of "a_floor a + 1 + i"] that len f by (simp add: spec_entry_def spec_readable_def a_last_def)
  with len have "a_entries a = a_entries b" by (rule nth_equalityI)
  with f show ?thesis by (cases a; cases b) simp
qed

lemma io_bind_assoc: "io_bind (io_bind m k) k' = io_bind m (\<lambda>x. io_bind (k x) k')"
proof
  fix fb
  show "io_bind (io_bind m k) k' fb = io_bind m (\<lambda>x. io_bind (k x) k') fb"
    by (cases "m fb"; cases "snd (m fb)") (simp_all add: io_bind_def)
qed

lemma io_bind_ok: "io_bind (io_ok x) k = k x"
  by (rule ext) (simp add: io_bind_def io_ok_def)

text \<open>Files that have held nothing but part of the first header.\<close>

definition unborn :: "(nat \<Rightarrow> byte list) \<Rightarrow> bool" where
  "unborn d \<longleftrightarrow> d 1 = [] \<and> (\<exists>k < 36. d 0 = take k (log_header_encode newborn_header))"

lemma newborn_fits: "fits 0 newborn_header empty_log"
  by (simp add: fits_def newborn_header_def header_ok_def a_ok_def legacy_ok_def empty_log_def)

lemma newborn_on_disk:
  assumes "d 0 = log_header_encode newborn_header" "d 1 = []"
  shows "on_disk d 0 newborn_header empty_log"
proof -
  have "stops []" by (rule stops_short) simp
  moreover have "no_rival [] 1" by (simp add: blank_header blank_def)
  ultimately show ?thesis
    using assms newborn_fits by (auto simp: on_disk_def empty_log_def newborn_header_def)
qed

lemma open_unborn:
  assumes un: "unborn d" and hl: "healthy fb" "plain fb"
    and im: "\<And>f. visible (fb_files fb f) = d f" "\<And>f. durable (fb_files fb f) = d f"
  obtains (ok) fb' where "with_storage fb = (fb', Inr (handle_of 0 newborn_header empty_log 0))"
      "running fb' 0 newborn_header empty_log 0" "fb_plan fb' = fb_plan fb" "fb_durability fb' = fb_durability fb"
  | (fault) fb' e where "with_storage fb = (fb', Inl e)" "fb_plan fb \<noteq> None" "unborn (disk fb') \<or> on_disk (disk fb') 0 newborn_header empty_log"
proof -
  let ?h = "log_header_encode newborn_header"
  obtain k where k: "k < 36" "d 0 = take k ?h" and d1: "d 1 = []" using un by (auto simp: unborn_def)
  obtain fb1 where 1: "load_header 0 fb = (fb1, Inr (length (d 0), None))" "ticked fb fb1"
    using load_header_reads[OF hl(1), of 0 None] k by (auto simp: im file_header_def)
  note f1 = ticked_facts[OF 1(2)]
  obtain fb2 where 2: "load_header 1 fb1 = (fb2, Inr (0, None))" "ticked fb1 fb2"
    using load_header_reads[of fb1 1 None] hl f1 d1 by (auto simp: im file_header_def)
  note f2 = ticked_facts[OF 2(2)]
  have step: "with_storage fb = io_bind (write_at 0 ?h 0) (\<lambda>_. io_bind (file_sync_all 0) (\<lambda>_. open_live (length (d 0)) 0 newborn_header)) fb2"
    using k by (simp add: with_storage_def pick_live_def io_bind_assoc io_bind_ok io_bind_def[of "load_header 0"] 1(1)
        io_bind_def[of "load_header (Suc 0)"] 2(1)[simplified] choose_live_def LOG_HEADER_SIZE_def)
  have full: "overwrite (d 0) 0 ?h = ?h" using k by (simp add: overwrite_start)
  have torn: "overwrite (d 0) 0 (take j ?h) = take (max j k) ?h" if "j < 36" for j
  proof -
    have "drop j (take k ?h) = take (k - j) (drop j ?h)" by (simp add: drop_take)
    then have "overwrite (d 0) 0 (take j ?h) = take j ?h @ take (k - j) (drop j ?h)"
      using that k by (simp add: overwrite_start)
    also have "\<dots> = take (j + (k - j)) ?h" by (rule take_add[symmetric])
    also have "j + (k - j) = max j k" by simp
    finally show ?thesis .
  qed
  have h2: "healthy fb2" "plain fb2" using hl f1 f2 by auto
  have ff: "fb_files fb2 = fb_files fb" "fb_durability fb2 = fb_durability fb" "fb_plan fb2 = fb_plan fb" using f1 f2 by auto
  have "?h \<noteq> []" by (metis length_log_header_encode list.size(3) zero_neq_numeral)
  with h2 show ?thesis
  proof (cases rule: write_at_outcome[where f = 0 and off = 0])
    case (fault fb3 e j)
    have "disk fb3 1 = []" using fault(4) d1 by (simp add: stopped_def disk_def ff im)
    moreover have "disk fb3 0 = take (if fb_durability fb = WriteThrough then max j k else k) ?h"
      using fault(3,4) torn k(2) by (auto simp: stopped_def disk_def ff im)
    moreover have "(if fb_durability fb = WriteThrough then max j k else k) < 36" using fault(3) k(1) by simp
    ultimately have "unborn (disk fb3)" unfolding unborn_def by blast
    then show ?thesis using that(2) fault(1,2) ff by (simp add: step io_bind_def)
  next
    case (ok fb3)
    note s3 = stored_facts[OF ok(2)]
    have d3: "visible (fb_files fb3 0) = ?h" "disk fb3 1 = []"
        "disk fb3 0 = (if fb_durability fb = WriteThrough then ?h else d 0)"
      using full d1 by (simp_all add: s3 ff im disk_def)
    have "healthy fb3" using h2 s3 by simp
    then show ?thesis
    proof (cases rule: sync_all_cases[where f = 0])
      case (fault fb4 e)
      have d4: "disk fb4 = disk fb3" using fault(3) by (auto simp: stopped_def disk_def fun_eq_iff)
      have "unborn (disk fb4) \<or> on_disk (disk fb4) 0 newborn_header empty_log"
        using newborn_on_disk[of "disk fb4"] un d3 d1 by (auto simp: d4 unborn_def)
      then show ?thesis using that(2) ok(1) fault(1,2) s3 ff by (simp add: step io_bind_def)
    next
      case (ok fb4)
      note s4 = stored_facts[OF ok(2)]
      have "scan_frames 0 0 0 (length (d 0)) fb4 = (fb4, Inr ([], 36))"
        using k by (simp add: scan_frames_def scan_loop.simps[of 0] LOG_HEADER_SIZE_def)
      then have "open_live (length (d 0)) 0 newborn_header fb4 = (fb4, Inr (handle_of 0 newborn_header empty_log 0))"
        using k by (simp add: open_live_def io_bind_def io_ok_def newborn_header_def handle_of_def empty_log_def)
      then have "with_storage fb = (fb4, Inr (handle_of 0 newborn_header empty_log 0))"
        by (simp add: step io_bind_def ok(1) \<open>write_at 0 ?h 0 fb2 = (fb3, Inr ())\<close>)
      moreover have "running fb4 0 newborn_header empty_log 0"
      proof (rule runningI[where tv = "[]" and td = "[]"])
        show "durable (fb_files fb4 0) = log_header_encode newborn_header @ frames (take 0 (a_entries empty_log)) @ []"
          using d3 by (cases "fb_durability fb") (simp_all add: s4 s3 ff disk_def)
        show "no_rival (disk fb4 (1 - 0)) (h_generation newborn_header)"
          using d3(2) by (simp add: blank_header blank_def disk_def s4)
        show "fb_durability fb4 = WriteThrough \<Longrightarrow> 0 = length (a_entries empty_log) \<and>
            durable (fb_files fb4 0) = visible (fb_files fb4 0)"
          using d3 by (simp add: empty_log_def disk_def s4 s3 ff)
      qed (use h2 newborn_fits d3(1) in \<open>auto simp: s3 s4 empty_log_def\<close>)
      ultimately show ?thesis using that(1) s3 s4 ff by simp
    qed
  qed
qed

lemma boots_unborn:
  assumes "boots fb fb' l" "unborn (disk fb)"
  shows "\<exists>m. l = handle_of 0 newborn_header empty_log 0 \<and> running fb' 0 newborn_header empty_log m"
  using assms
proof (induction rule: boots.induct)
  case (boot fb p fb' l)
  from boot.prems powered_facts(1) boot.hyps(1) powered_facts(2,3) show ?case
    by (cases rule: open_unborn) (use boot.hyps(2) in auto)
next
  case (boot_again fb p fb1 e fb' l)
  have "unborn (disk fb1) \<or> on_disk (disk fb1) 0 newborn_header empty_log"
    using boot_again.prems powered_facts(1) boot_again.hyps(1) powered_facts(2,3)
    by (cases rule: open_unborn) (use boot_again.hyps(2) in auto)
  then show ?case
  proof
    assume "on_disk (disk fb1) 0 newborn_header empty_log"
    then show ?thesis using boots_on_disk[OF boot_again.hyps(3)] by (auto simp: empty_log_def a_last_def)
  qed (rule boot_again.IH)
qed

section \<open>The invariant of a log's life\<close>

lemma call_ok_crash:
  assumes "call_ok fb a g (fb', l', r) spec"
  shows "crash_ok a (fst spec) fb' l'"
proof -
  obtain live h m dr where l': "l' = handle_of live h (fst spec) dr" and run: "running fb' live h (fst spec) m"
      and dr: "dr \<le> a_floor (fst spec) + m" "retains a (fst spec) dr"
    using assms by (auto simp: call_ok_def)
  have "retains (fst spec) (cut m (fst spec)) dr" using dr running_facts(6)[OF run] by (intro retains_cut)
  then have "retains a (cut m (fst spec)) dr"
    using dr(2) unfolding retains_def by (metis cut_def alog.select_convs(1) alog.surjective alog.update_convs(3))
  then show ?thesis using running_disk[OF run] unfolding crash_ok_def l' by auto
qed

lemma outcome_crash:
  assumes "call_ok fb a g (fb', l', r) spec \<or> call_dead fb a h2 (fb', l', r) spec" "tear_safe fb h2"
  shows "crash_ok a (fst spec) fb' l'"
  using assms call_ok_crash[of fb a g fb' l' r spec] by (auto simp: call_dead_def)

lemma alive_inv:
  assumes "alive fb l a"
  shows "\<exists>live h m dr. l = handle_of live h a dr \<and> running fb live h a m \<and> dr \<le> a_floor a + m"
  using assms
proof (induction rule: alive.induct)
  case (born d fb l)
  have "unborn (disk (blank_device d))"
    by (simp add: unborn_def disk_def blank_device_def from_images_def image_new_def) (rule exI[of _ 0], simp)
  then show ?case using boots_unborn[OF born] by auto
next
  case (called fb l a c fb' l' ans)
  then obtain live h m dr where s: "l = handle_of live h a dr" "running fb live h a m" "dr \<le> a_floor a + m" by blast
  have "call_ok fb a (h_generation h) (fb', l', ans) (spec_call c a)"
    using call_outcome[OF s(2,3,1) called.hyps(2)] called.hyps(3-5) s(1) by (simp add: call_dead_def)
  then show ?case by (auto simp: call_ok_def)
next
  case (rebooted fb l a c fb' l' ans fb'' l'' b)
  then obtain live h m dr where s: "l = handle_of live h a dr" "running fb live h a m" "dr \<le> a_floor a + m" by blast
  have "crash_ok a (fst (spec_call c a)) fb' l'"
    using outcome_crash[OF call_outcome[OF s(2,3,1) rebooted.hyps(2), unfolded rebooted.hyps(5)]] rebooted.hyps(3,4) s(1)
    by simp
  then obtain live' h' c' where d: "on_disk (disk fb') live' h' c'" by (auto simp: crash_ok_def)
  then have b: "l'' = handle_of live' h' c' (a_last c')" "running fb'' live' h' c' (length (a_entries c'))"
    using boots_on_disk[OF rebooted.hyps(6)] by auto
  then have "b = c'" using shows_log_unique[OF rebooted.hyps(7)] running_shows by blast
  with b show ?case by (auto simp: a_last_def)
qed

text \<open>On a device that never fails, every call goes through.\<close>

lemma quiet_call:
  assumes "alive fb l a" "call_typed c" "rl_generation l + 1 < 2 ^ 64" "fb_plan fb = None"
  shows "\<exists>fb' l'. do_log_call c fb l = (fb', l', snd (spec_call c a)) \<and> \<not> fb_crashed fb' \<and>
    alive fb' l' (fst (spec_call c a)) \<and> fb_plan fb' = None \<and> fb_durability fb' = fb_durability fb \<and>
    rl_generation l' \<le> rl_generation l + 1"
proof -
  obtain live h m dr where s: "l = handle_of live h a dr" "running fb live h a m" "dr \<le> a_floor a + m"
    using alive_inv[OF assms(1)] by blast
  have "call_ok fb a (h_generation h) (do_log_call c fb l) (spec_call c a)"
    using call_outcome[OF s(2,3,1) assms(2)] assms(3,4) s(1) by (simp add: call_dead_def)
  then obtain fb' live' h' m' dr' where r: "do_log_call c fb l = (fb', handle_of live' h' (fst (spec_call c a)) dr', snd (spec_call c a))"
      "running fb' live' h' (fst (spec_call c a)) m'" "h_generation h' \<le> h_generation h + 1"
      "fb_plan fb' = fb_plan fb" "fb_durability fb' = fb_durability fb"
    by (auto simp: call_ok_def)
  have "\<not> fb_crashed fb'" using running_facts(1)[OF r(2)] by (simp add: healthy_def)
  with r called[OF assms(1-3) r(1)] s(1) assms(4) show ?thesis by auto
qed

lemma fresh_alive:
  "\<exists>fb l. alive fb l empty_log \<and> fb_plan fb = None \<and> fb_durability fb = d \<and> rl_generation l = 1"
proof -
  have un: "unborn (disk (blank_device d))"
    by (simp add: unborn_def disk_def blank_device_def from_images_def image_new_def) (rule exI[of _ 0], simp)
  have pl: "plain (powered (blank_device d) None)" by (simp add: plain_def)
  from un powered_facts(1) pl powered_facts(2,3) show ?thesis
  proof (cases rule: open_unborn)
    case (ok fb')
    then have "alive fb' (handle_of 0 newborn_header empty_log 0) empty_log" by (intro born[OF boot[OF pl]])
    moreover have "fb_plan fb' = None" "fb_durability fb' = d"
      using ok(3,4) by (simp_all add: blank_device_def from_images_def)
    moreover have "rl_generation (handle_of 0 newborn_header empty_log 0) = 1" by (simp add: newborn_header_def)
    ultimately show ?thesis by blast
  qed simp
qed

section \<open>Below the ceiling\<close>

text \<open>
  The sums of the source are sums of \<open>u64\<close>. \<open>call_fits\<close> keeps the rounds a call brings below the last of them (the
  code computes the round after the floor and after every entry), and \<open>log_room\<close> the generation and the byte
  offsets of what it writes. \<open>alive_below\<close> is \<open>alive\<close> for a log all of whose calls stay within these bounds; there
  the round after its last one is still a \<open>u64\<close>.
\<close>

fun call_fits :: "log_call \<Rightarrow> bool" where
  "call_fits (CAppend es) = list_all (\<lambda>e. entry_typed e \<and> e_round e < u64_max) es"
| "call_fits CSync = True"
| "call_fits (CTruncate start) = (start \<le> u64_max)"
| "call_fits (CDiscard through trm) = (through < u64_max \<and> trm \<le> u64_max)"
| "call_fits (CEntry rnd) = (rnd \<le> u64_max)"
| "call_fits (CRange start n b) = (start \<le> u64_max)"
| "call_fits (CTermAt rnd) = (rnd \<le> u64_max)"

definition log_room :: "log_call \<Rightarrow> round_log \<Rightarrow> bool" where
  "log_room c l \<longleftrightarrow> rl_generation l < u64_max \<and>
     rl_end_offset l + (case c of CAppend es \<Rightarrow> length (frames es) | _ \<Rightarrow> 0) + 4 \<le> u64_max"

inductive alive_below :: "fabric \<Rightarrow> round_log \<Rightarrow> alog \<Rightarrow> bool" where
  born_below: "boots (blank_device d) fb l \<Longrightarrow> alive_below fb l empty_log"
| called_below: "alive_below fb l a \<Longrightarrow> call_fits c \<Longrightarrow> log_room c l \<Longrightarrow>
    do_log_call c fb l = (fb', l', ans) \<Longrightarrow> \<not> fb_crashed fb' \<Longrightarrow> alive_below fb' l' (fst (spec_call c a))"
| rebooted_below: "alive_below fb l a \<Longrightarrow> call_fits c \<Longrightarrow> log_room c l \<Longrightarrow>
    tear_safe fb (switch_header c l) \<Longrightarrow> do_log_call c fb l = (fb', l', ans) \<Longrightarrow> boots fb' fb'' l'' \<Longrightarrow>
    shows_log fb'' l'' b \<Longrightarrow> alive_below fb'' l'' b"

lemma call_fits_typed: "call_fits c \<Longrightarrow> call_typed c"
  by (cases c) (auto simp: list_all_iff)

lemma log_room_generation: "log_room c l \<Longrightarrow> rl_generation l + 1 < 2 ^ 64"
  by (simp add: log_room_def)

lemma below_typed:
  assumes "call_fits c" "log_room c l"
  shows "call_typed c" "rl_generation l + 1 < 2 ^ 64"
  using call_fits_typed[OF assms(1)] log_room_generation[OF assms(2)] by simp_all

lemma alive_below_alive: "alive_below fb l a \<Longrightarrow> alive fb l a"
proof (induction rule: alive_below.induct)
  case (born_below d fb l)
  then show ?case by (rule born)
next
  case (called_below fb l a c fb' l' ans)
  show ?case by (rule called[OF called_below.IH below_typed[OF called_below.hyps(2,3)] called_below.hyps(4,5)])
next
  case (rebooted_below fb l a c fb' l' ans fb'' l'' b)
  show ?case by (rule rebooted[OF rebooted_below.IH below_typed[OF rebooted_below.hyps(2,3)] rebooted_below.hyps(4-7)])
qed

lemma crash_recovers:
  assumes "alive fb l a" "call_typed c" "rl_generation l + 1 < 2 ^ 64" "tear_safe fb (switch_header c l)"
    and "do_log_call c fb l = (fb', l', ans)"
  shows "\<exists>b n. (b = cut n a \<or> b = cut n (fst (spec_call c a))) \<and> retains a b (rl_durable_round l') \<and>
    (\<exists>fb'' l''. boots fb' fb'' l'') \<and> (\<forall>fb'' l''. boots fb' fb'' l'' \<longrightarrow> shows_log fb'' l'' b)"
proof -
  obtain live h m dr where s: "l = handle_of live h a dr" "running fb live h a m" "dr \<le> a_floor a + m"
    using alive_inv[OF assms(1)] by blast
  have "crash_ok a (fst (spec_call c a)) fb' l'"
    using outcome_crash[OF call_outcome[OF s(2,3,1) assms(2), unfolded assms(5)]] assms(3,4) s(1) by simp
  then obtain live' h' b n where d: "on_disk (disk fb') live' h' b" "b = cut n a \<or> b = cut n (fst (spec_call c a))"
      "retains a b (rl_durable_round l')"
    by (auto simp: crash_ok_def)
  have "shows_log fb'' l'' b" if "boots fb' fb'' l''" for fb'' l''
    using boots_on_disk[OF that d(1)] running_shows by auto
  moreover have "\<exists>fb'' l''. boots fb' fb'' l''" using boots_exists[OF d(1)] by blast
  ultimately show ?thesis using d(2,3) by blast
qed

definition rounds_below :: "alog \<Rightarrow> bool" where
  "rounds_below a \<longleftrightarrow> a_floor a < u64_max \<and> list_all (\<lambda>e. e_round e < u64_max) (a_entries a)"

lemma rounds_below_cut: "rounds_below a \<Longrightarrow> rounds_below (cut n a)"
  by (auto simp: rounds_below_def cut_def list_all_iff dest: in_set_takeD)

lemma rounds_below_call:
  assumes "rounds_below a" "call_fits c"
  shows "rounds_below (fst (spec_call c a))"
proof (cases c)
  case (CAppend es)
  then show ?thesis
    using assms by (auto simp: spec_append_def rounds_below_def extend_def list_all_iff split: sum.splits)
next
  case (CTruncate start)
  then show ?thesis
    using assms(1) rounds_below_cut[OF assms(1)] by (auto simp: spec_truncate_def split: sum.splits)
next
  case (CDiscard through trm)
  then show ?thesis
    using assms by (auto simp: spec_discard_def rounds_below_def Let_def list_all_iff dest: in_set_dropD)
qed (use assms in simp_all)

lemma alive_below_rounds: "alive_below fb l a \<Longrightarrow> rounds_below a"
proof (induction rule: alive_below.induct)
  case (born_below d fb l)
  show ?case by (simp add: rounds_below_def empty_log_def)
next
  case (called_below fb l a c fb' l' ans)
  then show ?case using rounds_below_call by blast
next
  case (rebooted_below fb l a c fb' l' ans fb'' l'' b)
  obtain b' n where b': "b' = cut n a \<or> b' = cut n (fst (spec_call c a))" "shows_log fb'' l'' b'"
    using crash_recovers[OF alive_below_alive[OF rebooted_below.hyps(1)] below_typed[OF rebooted_below.hyps(2,3)]
        rebooted_below.hyps(4,5)] rebooted_below.hyps(6) by blast
  have "b = b'" by (rule shows_log_unique[OF rebooted_below.hyps(7) b'(2)])
  then show ?case
    using b'(1) rounds_below_cut rebooted_below.IH rounds_below_call[OF rebooted_below.IH rebooted_below.hyps(2)] by blast
qed

lemma alive_last_below:
  assumes "alive fb l a" "rounds_below a"
  shows "a_last a < u64_max"
proof (cases "a_entries a = []")
  case False
  obtain live h m dr where "running fb live h a m" using alive_inv[OF assms(1)] by blast
  then have "chained (Suc (a_floor a)) (a_floor_term a) (a_entries a)"
    using running_facts(3) by (auto simp: fits_def a_ok_def)
  from chained_nth[OF this, of "length (a_entries a) - 1"] False
  have "a_last a = e_round (a_entries a ! (length (a_entries a) - 1))" by (simp add: a_last_def)
  then show ?thesis using assms(2) False by (auto simp: rounds_below_def list_all_iff)
qed (use assms(2) in \<open>simp add: rounds_below_def a_last_def\<close>)

lemma fresh_below:
  "\<exists>fb l. alive_below fb l empty_log \<and> fb_plan fb = None \<and> fb_durability fb = d \<and> rl_generation l = 1 \<and>
    rl_end_offset l = 36"
proof -
  have un: "unborn (disk (blank_device d))"
    by (simp add: unborn_def disk_def blank_device_def from_images_def image_new_def) (rule exI[of _ 0], simp)
  have pl: "plain (powered (blank_device d) None)" by (simp add: plain_def)
  from un powered_facts(1) pl powered_facts(2,3) show ?thesis
  proof (cases rule: open_unborn)
    case (ok fb')
    let ?l = "handle_of 0 newborn_header empty_log 0"
    have "alive_below fb' ?l empty_log" using ok by (intro born_below[OF boot[OF pl]])
    moreover have "fb_plan fb' = None" "fb_durability fb' = d"
      using ok(3,4) by (simp_all add: blank_device_def from_images_def)
    moreover have "rl_generation ?l = 1" "rl_end_offset ?l = 36" by (simp_all add: newborn_header_def handle_of_def empty_log_def)
    ultimately show ?thesis by blast
  qed simp
qed

section \<open>Properties\<close>

text \<open>
  (C6) The log implements its contract: on any log, whatever calls, power losses and reopenings brought it about --
  all with rounds below the last \<open>u64\<close>, so that the round after each is one -- a call with such rounds that the
  device survives answers exactly as the contract says, errors included, and leaves a handle that shows exactly the
  contract's next log, whose last round is again below the last \<open>u64\<close>. So an append is all or nothing, a round below
  the floor is always \<open>Compacted\<close> and one that was never written \<open>NotFound\<close>, a read returns the entry appended, and
  the version raise, the copy to the other file and the index of offsets are invisible.
\<close>

theorem round_log_refinement:
  assumes "alive_below fb l a" "call_fits c" "log_room c l"
    and "do_log_call c fb l = (fb', l', ans)" "\<not> fb_crashed fb'"
  shows "ans = snd (spec_call c a) \<and> shows_log fb' l' (fst (spec_call c a)) \<and>
    log_last_round l' = a_last (fst (spec_call c a)) \<and> log_last_term l' = a_last_term (fst (spec_call c a)) \<and>
    log_last_round l' < u64_max"
proof -
  note al = alive_below_alive[OF assms(1)] and ty = below_typed[OF assms(2,3)]
  obtain live h m dr where s: "l = handle_of live h a dr" "running fb live h a m" "dr \<le> a_floor a + m"
    using alive_inv[OF al] by blast
  have "call_ok fb a (h_generation h) (fb', l', ans) (spec_call c a)"
    using call_outcome[OF s(2,3,1) ty(1)] ty(2) assms(4,5) s(1) by (simp add: call_dead_def)
  then obtain live' h' m' dr' where "l' = handle_of live' h' (fst (spec_call c a)) dr'" "ans = snd (spec_call c a)"
      "running fb' live' h' (fst (spec_call c a)) m'"
    by (auto simp: call_ok_def)
  moreover have "a_last (fst (spec_call c a)) < u64_max"
    by (rule alive_last_below[OF called[OF al ty assms(4,5)] rounds_below_call[OF alive_below_rounds[OF assms(1)] assms(2)]])
  ultimately show ?thesis using running_shows by auto
qed

theorem round_log_refinement_witness:
  "let e = \<lparr>e_term = 1, e_round = 1, e_command = NoOp\<rparr> in
   \<exists>fb l fb' l'. alive_below fb l empty_log \<and> do_log_call (CAppend [e]) fb l = (fb', l', Done (Inr ())) \<and>
     shows_log fb' l' \<lparr>a_floor = 0, a_floor_term = 0, a_entries = [e]\<rparr> \<and> log_last_round l' = 1"
proof -
  let ?e = "\<lparr>e_term = 1, e_round = 1, e_command = NoOp\<rparr>"
  let ?c = "CAppend [?e]"
  have ty: "call_fits ?c" by (simp add: entry_typed_def)
  have sp: "spec_call ?c empty_log = (\<lparr>a_floor = 0, a_floor_term = 0, a_entries = [?e]\<rparr>, Done (Inr ()))"
    by (simp add: spec_append_def empty_log_def a_last_def a_last_term_def encode_frame_def Let_def extend_def
        MAX_ENTRY_BYTES_def MAX_FRAME_BYTES_def)
  obtain fb l where a: "alive_below fb l empty_log" "fb_plan fb = None" "rl_generation l = 1" "rl_end_offset l = 36"
    using fresh_below[of SyncOnly] by blast
  have g: "log_room ?c l" using a(3,4) by (simp add: log_room_def length_frame_bytes)
  obtain fb' l' where c: "do_log_call ?c fb l = (fb', l', snd (spec_call ?c empty_log))" "\<not> fb_crashed fb'"
    using quiet_call[OF alive_below_alive[OF a(1)] below_typed[OF ty g] a(2)] by blast
  from round_log_refinement[OF a(1) ty g c] a(1) c(1) show ?thesis
    unfolding sp Let_def by (auto simp: a_last_def)
qed

text \<open>
  (C5) Nothing promised is lost: whatever call is under way when the device fails -- by a write cut short or not
  made at all, a sync refused or a truncation lost, but not by a write that lands as other bytes than it was given
  -- and also when the power goes between calls, reopening succeeds and finds the log of before that call or of
  after it, shortened at most at its end, with every round the handle had promised durable either below the floor or
  unchanged. That holds however often the reopening is itself cut off, and all reopenings agree. Two conditions: the
  rounds of the log's calls are below the last \<open>u64\<close>, so that the reopening can name the round after each (the log
  found is below it again); and on a device that writes through, a header caught half written must fail its checksum
  (\<open>tear_safe\<close>; a device that keeps nothing before a sync needs no such condition).
\<close>

theorem round_log_crash_recovery:
  assumes "alive_below fb l a" "call_fits c" "log_room c l" "tear_safe fb (switch_header c l)"
    and "do_log_call c fb l = (fb', l', ans)"
  shows "\<exists>b n. (b = cut n a \<or> b = cut n (fst (spec_call c a))) \<and> retains a b (rl_durable_round l') \<and>
    a_last b < u64_max \<and>
    (\<exists>fb'' l''. boots fb' fb'' l'') \<and> (\<forall>fb'' l''. boots fb' fb'' l'' \<longrightarrow> shows_log fb'' l'' b)"
proof -
  note al = alive_below_alive[OF assms(1)] and ty = below_typed[OF assms(2,3)]
  obtain b n where b: "b = cut n a \<or> b = cut n (fst (spec_call c a))" "retains a b (rl_durable_round l')"
      "\<exists>fb'' l''. boots fb' fb'' l''" "\<forall>fb'' l''. boots fb' fb'' l'' \<longrightarrow> shows_log fb'' l'' b"
    using crash_recovers[OF al ty assms(4,5)] by blast
  obtain fb'' l'' where "alive_below fb'' l'' b"
    using rebooted_below[OF assms(1-5)] b(3,4) by blast
  then have "a_last b < u64_max" using alive_last_below alive_below_alive alive_below_rounds by blast
  with b show ?thesis by blast
qed

theorem round_log_crash_recovery_witness:
  "\<exists>fb l fb' l' ans b. alive_below fb l empty_log \<and> do_log_call (CDiscard 7 2) fb l = (fb', l', ans) \<and>
     retains empty_log b (rl_durable_round l') \<and> (\<exists>fb'' l''. boots fb' fb'' l'' \<and> shows_log fb'' l'' b)"
proof -
  obtain fb l where a: "alive_below fb l empty_log" "fb_durability fb = SyncOnly" "rl_generation l = 1" "rl_end_offset l = 36"
    using fresh_below[of SyncOnly] by blast
  have ty: "call_fits (CDiscard 7 2)" and g: "log_room (CDiscard 7 2) l" using a(3,4) by (simp_all add: log_room_def)
  have "tear_safe fb (switch_header (CDiscard 7 2) l)" using a(2) by (simp add: tear_safe_def)
  moreover obtain fb' l' ans where c: "do_log_call (CDiscard 7 2) fb l = (fb', l', ans)" by (metis prod_cases3)
  ultimately obtain b where "retains empty_log b (rl_durable_round l')" "\<exists>fb'' l''. boots fb' fb'' l''"
      "\<forall>fb'' l''. boots fb' fb'' l'' \<longrightarrow> shows_log fb'' l'' b"
    using round_log_crash_recovery[OF a(1) ty g _ c] by blast
  with a(1) c show ?thesis by blast
qed

text \<open>
  (C21) An older build never trims what this one wrote: at every moment of a log's life, after every crash too, a log
  whose header still carries the version older builds open holds no frame above the length they read.
\<close>

theorem version_guards_old_readers:
  assumes "alive fb l a"
  shows "rl_version l = VERSION \<or>
    (rl_version l = LEGACY_VERSION \<and> list_all (\<lambda>f. f_len f \<le> LEGACY_READ_BOUND) (rl_index l))"
proof -
  obtain live h m dr where s: "l = handle_of live h a dr" "running fb live h a m"
    using alive_inv[OF assms(1)] by blast
  have *: "list_all (\<lambda>f. f_len f \<le> n) (index_of at es) \<longleftrightarrow> list_all (\<lambda>e. length (frame_bytes e) \<le> n) es" for n at es
    by (induction es arbitrary: at) auto
  have "legacy_ok h (a_entries a)" "header_ok h" using running_facts(3,5)[OF s(2)] by (simp_all add: fits_def)
  then show ?thesis by (auto simp: s(1) * legacy_ok_def header_ok_def)
qed

theorem version_guards_old_readers_witness:
  "\<exists>fb l. alive fb l empty_log \<and> (rl_version l = VERSION \<or>
    (rl_version l = LEGACY_VERSION \<and> list_all (\<lambda>f. f_len f \<le> LEGACY_READ_BOUND) (rl_index l)))"
proof -
  obtain fb l where "alive fb l empty_log" using fresh_alive[of WriteThrough] by blast
  with version_guards_old_readers[OF this] show ?thesis by blast
qed

end
