(* ===== verification/Persistent_Map.thy ===== *)
theory Persistent_Map
  imports Ferro_Prelude "HOL-Library.Monad_Syntax"
begin

text \<open>
  \<open>agent_sql/persistent_map.rs\<close>: the immutable ordered map a forked task shares with its parent, a
  weight-balanced search tree rebuilt along one path by a write. An \<open>expect\<close> that fails and a subtraction below
  zero are \<open>None\<close>. Nodes are values, so a clone is the map itself and no write can reach a handle other than its
  own; the one place the source compares pointers (\<open>same\<close>) is the flag \<open>ins\<close> returns beside the subtree, true
  when it handed back the link it was given. The two iterators are their stacks.
\<close>

section \<open>Nodes and balancing\<close>

definition DELTA :: nat where "DELTA = 3"
definition RATIO :: nat where "RATIO = 2"

datatype ('k, 'v) link = NoLink | Link (entry: "'k \<times> 'v") (size_field: nat) (left: "('k, 'v) link") (right: "('k, 'v) link")

fun link_size :: "('k, 'v) link \<Rightarrow> nat" where
  "link_size NoLink = 0"
| "link_size (Link _ n _ _) = n"

definition mk_node :: "'k \<times> 'v \<Rightarrow> ('k, 'v) link \<Rightarrow> ('k, 'v) link \<Rightarrow> ('k, 'v) link" where
  "mk_node e l r = Link e (1 + link_size l + link_size r) l r"

fun rotate_left :: "'k \<times> 'v \<Rightarrow> ('k, 'v) link \<Rightarrow> ('k, 'v) link \<Rightarrow> ('k, 'v) link option" where
  "rotate_left e l NoLink = None"
| "rotate_left e l (Link re _ rl rr) =
     (if link_size rl < RATIO * link_size rr then Some (mk_node re (mk_node e l rl) rr)
      else case rl of
        NoLink \<Rightarrow> None
      | Link me _ ml mr \<Rightarrow> Some (mk_node me (mk_node e l ml) (mk_node re mr rr)))"

fun rotate_right :: "'k \<times> 'v \<Rightarrow> ('k, 'v) link \<Rightarrow> ('k, 'v) link \<Rightarrow> ('k, 'v) link option" where
  "rotate_right e NoLink r = None"
| "rotate_right e (Link le _ ll lr) r =
     (if link_size lr < RATIO * link_size ll then Some (mk_node le ll (mk_node e lr r))
      else case lr of
        NoLink \<Rightarrow> None
      | Link me _ ml mr \<Rightarrow> Some (mk_node me (mk_node le ll ml) (mk_node e mr r)))"

definition balance :: "'k \<times> 'v \<Rightarrow> ('k, 'v) link \<Rightarrow> ('k, 'v) link \<Rightarrow> ('k, 'v) link option" where
  "balance e l r =
     (let ls = link_size l; rs = link_size r in
      if ls + rs \<le> 1 then Some (mk_node e l r)
      else if DELTA * ls < rs then rotate_left e l r
      else if DELTA * rs < ls then rotate_right e l r
      else Some (mk_node e l r))"

section \<open>Reading and writing\<close>

fun pm_get :: "('k::linorder, 'v) link \<Rightarrow> 'k \<Rightarrow> 'v option" where
  "pm_get NoLink k = None"
| "pm_get (Link e _ l r) k =
     (if k < fst e then pm_get l k else if fst e < k then pm_get r k else Some (snd e))"

definition contains_key :: "('k::linorder, 'v) link \<Rightarrow> 'k \<Rightarrow> bool" where
  "contains_key m k \<longleftrightarrow> pm_get m k \<noteq> None"

fun ins :: "('k::linorder, 'v) link \<Rightarrow> 'k \<Rightarrow> 'v \<Rightarrow> bool \<Rightarrow> (('k, 'v) link \<times> bool) option" where
  "ins NoLink k v replace = Some (mk_node (k, v) NoLink NoLink, False)"
| "ins (Link e n l r) k v replace =
     (if k < fst e then do {
        (l', same) \<leftarrow> ins l k v replace;
        if same then Some (Link e n l r, True)
        else map_option (\<lambda>t. (t, False)) (balance e l' r)
      }
      else if fst e < k then do {
        (r', same) \<leftarrow> ins r k v replace;
        if same then Some (Link e n l r, True)
        else map_option (\<lambda>t. (t, False)) (balance e l r')
      }
      else if replace then Some (mk_node (k, v) l r, False)
      else Some (Link e n l r, True))"

definition pm_new :: "('k, 'v) link" where "pm_new = NoLink"

definition pm_len :: "('k, 'v) link \<Rightarrow> nat" where "pm_len m = link_size m"

definition pm_is_empty :: "('k, 'v) link \<Rightarrow> bool" where "pm_is_empty m \<longleftrightarrow> m = NoLink"

definition pm_insert :: "('k::linorder) \<Rightarrow> 'v \<Rightarrow> ('k, 'v) link \<Rightarrow> ('k, 'v) link option" where
  "pm_insert k v m = map_option fst (ins m k v True)"

definition insert_if_absent :: "('k::linorder) \<Rightarrow> 'v \<Rightarrow> ('k, 'v) link \<Rightarrow> ('k, 'v) link option" where
  "insert_if_absent k v m = map_option fst (ins m k v False)"

fun insert_all :: "('k::linorder \<times> 'v) list \<Rightarrow> ('k, 'v) link \<Rightarrow> ('k, 'v) link option" where
  "insert_all [] m = Some m"
| "insert_all ((k, v) # es) m = do { m \<leftarrow> pm_insert k v m; insert_all es m }"

definition pm_from_iter :: "('k::linorder \<times> 'v) list \<Rightarrow> ('k, 'v) link option" where
  "pm_from_iter es = insert_all es pm_new"

section \<open>The iterators\<close>

text \<open>A stack of nodes, its top first. Only links that are nodes are ever pushed.\<close>

type_synonym ('k, 'v) spine = "('k, 'v) link list"

fun push_left_spine :: "('k, 'v) link \<Rightarrow> ('k, 'v) spine \<Rightarrow> ('k, 'v) spine" where
  "push_left_spine NoLink stack = stack"
| "push_left_spine (Link e n l r) stack = push_left_spine l (Link e n l r # stack)"

fun push_left_spine_from :: "('k::linorder, 'v) link \<Rightarrow> 'k \<Rightarrow> ('k, 'v) spine \<Rightarrow> ('k, 'v) spine" where
  "push_left_spine_from NoLink lo stack = stack"
| "push_left_spine_from (Link e n l r) lo stack =
     (if fst e < lo then push_left_spine_from r lo stack
      else push_left_spine_from l lo (Link e n l r # stack))"

record ('k, 'v) iter =
  it_stack :: "('k, 'v) spine"
  it_remaining :: nat

definition pm_iter :: "('k, 'v) link \<Rightarrow> ('k, 'v) iter" where
  "pm_iter m = \<lparr>it_stack = push_left_spine m [], it_remaining = pm_len m\<rparr>"

text \<open>\<open>Iter::next\<close>: the entry and the iterator after it. Decrementing \<open>remaining\<close> at zero is a panic.\<close>

fun iter_next :: "('k, 'v) iter \<Rightarrow> (('k, 'v) iter \<times> ('k \<times> 'v) option) option" where
  "iter_next it =
     (case it_stack it of
        [] \<Rightarrow> Some (it, None)
      | NoLink # _ \<Rightarrow> None
      | Link e _ _ r # stack \<Rightarrow>
          if it_remaining it = 0 then None
          else Some (it\<lparr>it_stack := push_left_spine r stack, it_remaining := it_remaining it - 1\<rparr>, Some e))"

record ('k, 'v) range =
  rg_stack :: "('k, 'v) spine"
  rg_hi :: 'k

definition pm_range :: "('k::linorder, 'v) link \<Rightarrow> 'k \<Rightarrow> 'k \<Rightarrow> ('k, 'v) range" where
  "pm_range m lo hi = \<lparr>rg_stack = push_left_spine_from m lo [], rg_hi = hi\<rparr>"

fun range_next :: "('k::linorder, 'v) range \<Rightarrow> (('k, 'v) range \<times> ('k \<times> 'v) option) option" where
  "range_next rg =
     (case rg_stack rg of
        [] \<Rightarrow> Some (rg, None)
      | NoLink # _ \<Rightarrow> None
      | Link e _ _ r # stack \<Rightarrow>
          if rg_hi rg < fst e then Some (rg\<lparr>rg_stack := []\<rparr>, None)
          else Some (rg\<lparr>rg_stack := push_left_spine r stack\<rparr>, Some e))"

section \<open>What a tree stands for\<close>

fun entries :: "('k, 'v) link \<Rightarrow> ('k \<times> 'v) list" where
  "entries NoLink = []"
| "entries (Link e _ l r) = entries l @ e # entries r"

text \<open>The size fields are right, and no side outweighs the other by more than \<open>DELTA\<close>.\<close>

fun sized :: "('k, 'v) link \<Rightarrow> bool" where
  "sized NoLink \<longleftrightarrow> True"
| "sized (Link _ n l r) \<longleftrightarrow> n = 1 + link_size l + link_size r \<and> sized l \<and> sized r"

definition even_weights :: "nat \<Rightarrow> nat \<Rightarrow> bool" where
  "even_weights ls rs \<longleftrightarrow> ls + rs \<le> 1 \<or> (rs \<le> 3 * ls \<and> ls \<le> 3 * rs)"

fun balanced :: "('k, 'v) link \<Rightarrow> bool" where
  "balanced NoLink \<longleftrightarrow> True"
| "balanced (Link _ _ l r) \<longleftrightarrow> even_weights (link_size l) (link_size r) \<and> balanced l \<and> balanced r"

fun link_height :: "('k, 'v) link \<Rightarrow> nat" where
  "link_height NoLink = 0"
| "link_height (Link _ _ l r) = Suc (max (link_height l) (link_height r))"

definition keys_sorted :: "('k::linorder \<times> 'v) list \<Rightarrow> bool" where
  "keys_sorted es \<longleftrightarrow> sorted_wrt (<) (map fst es)"

definition pm_ok :: "('k::linorder, 'v) link \<Rightarrow> bool" where
  "pm_ok m \<longleftrightarrow> sized m \<and> balanced m \<and> keys_sorted (entries m)"

text \<open>The specification of a write, on the ascending list of entries.\<close>

fun upd_entries :: "'k::linorder \<Rightarrow> 'v \<Rightarrow> bool \<Rightarrow> ('k \<times> 'v) list \<Rightarrow> ('k \<times> 'v) list" where
  "upd_entries k v replace [] = [(k, v)]"
| "upd_entries k v replace (e # es) =
     (if k < fst e then (k, v) # e # es
      else if fst e < k then e # upd_entries k v replace es
      else (if replace then (k, v) else e) # es)"

lemma keys_sorted_app:
  "keys_sorted (xs @ e # ys) \<longleftrightarrow> keys_sorted xs \<and> keys_sorted ys \<and>
     (\<forall>x\<in>set xs. fst x < fst e) \<and> (\<forall>y\<in>set ys. fst e < fst y)"
  by (fastforce simp: keys_sorted_def sorted_wrt_append)

lemma upd_entries_left:
  "\<forall>x\<in>set xs. fst x < fst e \<Longrightarrow> k < fst e \<Longrightarrow>
     upd_entries k v rep (xs @ e # ys) = upd_entries k v rep xs @ e # ys"
  by (induction xs) auto

lemma upd_entries_right:
  "\<forall>x\<in>set xs. fst x < fst e \<Longrightarrow> \<not> k < fst e \<Longrightarrow>
     upd_entries k v rep (xs @ e # ys) = xs @ upd_entries k v rep (e # ys)"
  by (induction xs) auto

lemma set_upd_entries: "x \<in> fst ` set (upd_entries k v rep es) \<longleftrightarrow> x = k \<or> x \<in> fst ` set es"
  by (induction es) auto

lemma upd_entries_sorted: "keys_sorted es \<Longrightarrow> keys_sorted (upd_entries k v rep es)"
proof (induction es)
  case (Cons e es)
  then show ?case using set_upd_entries[of _ k v rep es]
    by (auto simp: keys_sorted_def Ball_def image_iff)
qed (simp add: keys_sorted_def)

lemma upd_entries_noop:
  "keys_sorted es \<Longrightarrow> k \<in> fst ` set es \<Longrightarrow> upd_entries k v False es = es"
  by (induction es) (auto simp: keys_sorted_def)

lemma map_of_upd_entries:
  "keys_sorted es \<Longrightarrow> map_of (upd_entries k v rep es) =
     (if rep \<or> map_of es k = None then (map_of es)(k \<mapsto> v) else map_of es)"
proof (induction es)
  case (Cons e es)
  have "map_of es k = None" if "k < fst e"
    using Cons.prems that by (force simp: keys_sorted_def map_of_eq_None_iff)
  with Cons show ?case by (cases e) (auto simp: keys_sorted_def fun_eq_iff)
qed (simp add: fun_eq_iff)

lemma length_upd_entries:
  "length es \<le> length (upd_entries k v rep es)" "length (upd_entries k v rep es) \<le> Suc (length es)"
  by (induction es) auto

section \<open>Balancing\<close>

lemma size_entries: "sized m \<Longrightarrow> link_size m = length (entries m)"
  by (induction m) auto

lemma mk_node_simps [simp]:
  "link_size (mk_node e l r) = 1 + link_size l + link_size r" "entries (mk_node e l r) = entries l @ e # entries r"
  "sized (mk_node e l r) \<longleftrightarrow> sized l \<and> sized r"
  "balanced (mk_node e l r) \<longleftrightarrow> even_weights (link_size l) (link_size r) \<and> balanced l \<and> balanced r"
  by (simp_all add: mk_node_def)

lemma rotate_left_ok:
  assumes "sized l" "sized r" "balanced l" "balanced r" "1 < link_size l + link_size r"
    and "3 * link_size l < link_size r" "even_weights (link_size l) (link_size r - 1)"
  shows "\<exists>t. rotate_left e l r = Some t \<and> sized t \<and> balanced t \<and> entries t = entries l @ e # entries r"
proof (cases r)
  case (Link re n rl rr)
  show ?thesis
  proof (cases "link_size rl < 2 * link_size rr")
    case True
    with assms Link show ?thesis by (auto simp: RATIO_def even_weights_def)
  next
    case False
    with assms Link obtain me k ml mr where "rl = Link me k ml mr" by (cases rl) auto
    with False assms Link show ?thesis by (auto simp: RATIO_def even_weights_def)
  qed
qed (use assms in simp)

lemma rotate_right_ok:
  assumes "sized l" "sized r" "balanced l" "balanced r" "1 < link_size l + link_size r"
    and "3 * link_size r < link_size l" "even_weights (link_size l - 1) (link_size r)"
  shows "\<exists>t. rotate_right e l r = Some t \<and> sized t \<and> balanced t \<and> entries t = entries l @ e # entries r"
proof (cases l)
  case (Link le n ll lr)
  show ?thesis
  proof (cases "link_size lr < 2 * link_size ll")
    case True
    with assms Link show ?thesis by (auto simp: RATIO_def even_weights_def)
  next
    case False
    with assms Link obtain me k ml mr where "lr = Link me k ml mr" by (cases lr) auto
    with False assms Link show ?thesis by (auto simp: RATIO_def even_weights_def)
  qed
qed (use assms in simp)

lemma balance_ok:
  assumes "sized l" "sized r" "balanced l" "balanced r"
    and "even_weights (link_size l - 1) (link_size r) \<and> 0 < link_size l \<or>
      even_weights (link_size l) (link_size r - 1) \<and> 0 < link_size r \<or> even_weights (link_size l) (link_size r)"
  shows "\<exists>t. balance e l r = Some t \<and> sized t \<and> balanced t \<and> entries t = entries l @ e # entries r"
proof -
  let ?ls = "link_size l" and ?rs = "link_size r"
  consider "?ls + ?rs \<le> 1 \<or> \<not> 3 * ?ls < ?rs \<and> \<not> 3 * ?rs < ?ls"
    | "1 < ?ls + ?rs" "3 * ?ls < ?rs" | "1 < ?ls + ?rs" "\<not> 3 * ?ls < ?rs" "3 * ?rs < ?ls" by linarith
  then show ?thesis
  proof cases
    case 1
    then have "even_weights ?ls ?rs" by (auto simp: even_weights_def)
    moreover from 1 have "balance e l r = Some (mk_node e l r)" by (auto simp: balance_def DELTA_def Let_def)
    ultimately show ?thesis using assms by simp
  next
    case 2
    then have "even_weights ?ls (?rs - 1)" using assms(5) by (auto simp: even_weights_def)
    with rotate_left_ok[OF assms(1-4) 2] 2 show ?thesis by (simp add: balance_def DELTA_def Let_def)
  next
    case 3
    then have "even_weights (?ls - 1) ?rs" using assms(5) by (auto simp: even_weights_def)
    with rotate_right_ok[OF assms(1-4) 3(1,3)] 3 show ?thesis by (simp add: balance_def DELTA_def Let_def)
  qed
qed

lemma ins_ok:
  assumes "pm_ok m"
  shows "\<exists>t same. ins m k v rep = Some (t, same) \<and> pm_ok t \<and> entries t = upd_entries k v rep (entries m) \<and>
    (same \<longrightarrow> t = m)"
  using assms
proof (induction m)
  case NoLink
  show ?case by (intro exI[of _ "mk_node (k, v) NoLink NoLink"] exI[of _ False])
      (simp add: pm_ok_def even_weights_def keys_sorted_def)
next
  case (Link e n l r)
  have ks: "keys_sorted (entries l)" "keys_sorted (entries r)"
    "\<forall>x\<in>set (entries l). fst x < fst e" "\<forall>y\<in>set (entries r). fst e < fst y"
    and wf: "sized l" "sized r" "balanced l" "balanced r" "even_weights (link_size l) (link_size r)"
    using Link.prems by (simp_all add: pm_ok_def keys_sorted_app)
  have sub: "pm_ok l" "pm_ok r" using ks(1,2) wf by (simp_all add: pm_ok_def)
  have srt: "keys_sorted (upd_entries k v rep (entries (Link e n l r)))"
    using Link.prems by (intro upd_entries_sorted) (simp add: pm_ok_def)
  consider "k < fst e" | "fst e < k" | "k = fst e" by fastforce
  then show ?case
  proof cases
    case 1
    obtain t same where t: "ins l k v rep = Some (t, same)" "pm_ok t"
        "entries t = upd_entries k v rep (entries l)" "same \<longrightarrow> t = l"
      using Link.IH(1)[OF sub(1)] by blast
    have "link_size t = link_size l \<or> 0 < link_size t \<and> link_size t - 1 = link_size l"
      using t(2,3) wf(1) length_upd_entries[where es = "entries l" and k = k and v = v and rep = rep] by (auto simp: pm_ok_def size_entries)
    then have "even_weights (link_size t - 1) (link_size r) \<and> 0 < link_size t \<or> even_weights (link_size t) (link_size r)"
      using wf(5) by auto
    then obtain u where "balance e t r = Some u \<and> sized u \<and> balanced u \<and> entries u = entries t @ e # entries r"
      using balance_ok[of t r e] t(2) wf(2,4) unfolding pm_ok_def by blast
    with 1 t Link.prems srt ks(3) show ?thesis
      by (cases same) (auto simp: pm_ok_def upd_entries_left)
  next
    case 2
    obtain t same where t: "ins r k v rep = Some (t, same)" "pm_ok t"
        "entries t = upd_entries k v rep (entries r)" "same \<longrightarrow> t = r"
      using Link.IH(2)[OF sub(2)] by blast
    have "link_size t = link_size r \<or> 0 < link_size t \<and> link_size t - 1 = link_size r"
      using t(2,3) wf(2) length_upd_entries[where es = "entries r" and k = k and v = v and rep = rep] by (auto simp: pm_ok_def size_entries)
    then have "even_weights (link_size l) (link_size t - 1) \<and> 0 < link_size t \<or> even_weights (link_size l) (link_size t)"
      using wf(5) by auto
    then obtain u where "balance e l t = Some u \<and> sized u \<and> balanced u \<and> entries u = entries l @ e # entries t"
      using balance_ok[of l t e] t(2) wf(1,3) unfolding pm_ok_def by blast
    with 2 t Link.prems srt ks(3) show ?thesis
      by (cases same) (auto simp: pm_ok_def upd_entries_right)
  next
    case 3
    with Link.prems srt ks(3) show ?thesis by (auto simp: pm_ok_def upd_entries_right)
  qed
qed

lemma pm_get_entries: "keys_sorted (entries m) \<Longrightarrow> pm_get m k = map_of (entries m) k"
proof (induction m)
  case (Link e n l r)
  have ks: "keys_sorted (entries l)" "keys_sorted (entries r)"
    "\<forall>x\<in>set (entries l). fst x < fst e" "\<forall>y\<in>set (entries r). fst e < fst y"
    using Link.prems by (simp_all add: keys_sorted_app)
  have "map_of (entries l) k = None" if "\<not> k < fst e" using ks(3) that by (force simp: map_of_eq_None_iff)
  moreover have "map_of (entries r) k = None" if "\<not> fst e < k" using ks(4) that by (force simp: map_of_eq_None_iff)
  ultimately show ?case using Link.IH ks(1,2) by (cases e) (auto simp: map_add_def split: option.split)
qed simp

text \<open>A descent is logarithmic: a side holds at most three quarters of a node's entries and one.\<close>

lemma balanced_height: "sized m \<Longrightarrow> balanced m \<Longrightarrow> 4 ^ link_height m \<le> 3 ^ link_height m * (link_size m + 1)"
proof (induction m)
  case (Link e n l r)
  have *: "4 * (link_size s + 1) \<le> 3 * (n + 1)" if "s = l \<or> s = r" for s
    using Link.prems that by (auto simp: even_weights_def)
  obtain s where s: "link_height (Link e n l r) = Suc (link_height s)" "s = l \<or> s = r"
    by (metis link_height.simps(2) max_def)
  define h where "h = link_height s"
  have "4 ^ h \<le> 3 ^ h * (link_size s + 1)" using Link s(2) by (auto simp: h_def)
  then have "4 ^ Suc h \<le> 3 ^ h * (4 * (link_size s + 1))"
    using mult_le_mono2[of "4 ^ h" _ 4] by (metis mult.left_commute power_Suc)
  also have "\<dots> \<le> 3 ^ h * (3 * (n + 1))" using *[OF s(2)] by (rule mult_le_mono2)
  also have "\<dots> = 3 ^ Suc h * (n + 1)" by (metis mult.assoc mult.commute power_Suc)
  finally show ?case unfolding s(1) h_def by simp
qed simp

section \<open>Iterating\<close>

definition todo :: "('k, 'v) spine \<Rightarrow> ('k \<times> 'v) list" where
  "todo stack = concat (map (\<lambda>n. entry n # entries (right n)) stack)"

definition nodes_only :: "('k, 'v) spine \<Rightarrow> bool" where
  "nodes_only stack \<longleftrightarrow> NoLink \<notin> set stack"

lemma todo_push: "todo (push_left_spine m stack) = entries m @ todo stack"
  by (induction m arbitrary: stack) (simp_all add: todo_def)

lemma nodes_push: "nodes_only (push_left_spine m stack) = nodes_only stack"
  by (induction m arbitrary: stack) (simp_all add: nodes_only_def)

lemma nodes_push_from: "nodes_only (push_left_spine_from m lo stack) = nodes_only stack"
  by (induction m arbitrary: stack) (simp_all add: nodes_only_def)

lemma filter_none: "(\<And>x. x \<in> set xs \<Longrightarrow> \<not> P x) \<Longrightarrow> filter P xs = []"
  by (simp add: filter_empty_conv)

lemma todo_push_from:
  "keys_sorted (entries m) \<Longrightarrow>
     todo (push_left_spine_from m lo stack) = filter (\<lambda>e. lo \<le> fst e) (entries m) @ todo stack"
proof (induction m arbitrary: stack)
  case (Link e n l r)
  have ks: "keys_sorted (entries l)" "keys_sorted (entries r)"
    "\<forall>x\<in>set (entries l). fst x < fst e" "\<forall>y\<in>set (entries r). fst e < fst y"
    using Link.prems by (simp_all add: keys_sorted_app)
  have "filter (\<lambda>e. lo \<le> fst e) (entries l) = []" if "fst e < lo"
    using ks(3) that by (intro filter_none) force
  moreover have "filter (\<lambda>e. lo \<le> fst e) (entries r) = entries r" if "lo \<le> fst e"
    using ks(4) that by (intro filter_True) force
  ultimately show ?case using Link.IH ks(1,2) by (auto simp: todo_def not_less)
qed (simp add: todo_def)

text \<open>The loop \<open>for (k, v) in iter\<close> of a caller: \<open>next\<close> until it answers \<open>None\<close>.\<close>

lemma iter_next_smaller:
  "iter_next it = Some (it', Some e) \<Longrightarrow> length (todo (it_stack it')) < length (todo (it_stack it))"
  by (auto simp: todo_push split: list.splits link.splits if_splits) (simp add: todo_def)

lemma range_next_smaller:
  "range_next rg = Some (rg', Some e) \<Longrightarrow> length (todo (rg_stack rg')) < length (todo (rg_stack rg))"
  by (auto simp: todo_push split: list.splits link.splits if_splits) (simp add: todo_def)

function iter_all :: "('k, 'v) iter \<Rightarrow> ('k \<times> 'v) list option" where
  "iter_all it =
     (case iter_next it of
        None \<Rightarrow> None
      | Some (it', None) \<Rightarrow> Some []
      | Some (it', Some e) \<Rightarrow> map_option ((#) e) (iter_all it'))"
  by pat_completeness auto
termination
  by (relation "measure (\<lambda>it. length (todo (it_stack it)))")
    (auto dest: iter_next_smaller simp del: iter_next.simps)

function range_all :: "('k::linorder, 'v) range \<Rightarrow> ('k \<times> 'v) list option" where
  "range_all rg =
     (case range_next rg of
        None \<Rightarrow> None
      | Some (rg', None) \<Rightarrow> Some []
      | Some (rg', Some e) \<Rightarrow> map_option ((#) e) (range_all rg'))"
  by pat_completeness auto
termination
  by (relation "measure (\<lambda>rg. length (todo (rg_stack rg)))")
    (auto dest: range_next_smaller simp del: range_next.simps)

declare iter_all.simps [simp del] range_all.simps [simp del] iter_next.simps [simp del] range_next.simps [simp del]

lemma todo_Cons: "todo (Link e n l r # stack) = e # entries r @ todo stack"
  by (simp add: todo_def)

lemma iter_all_todo:
  "nodes_only (it_stack it) \<Longrightarrow> it_remaining it = length (todo (it_stack it)) \<Longrightarrow>
     iter_all it = Some (todo (it_stack it))"
proof (induction it rule: iter_all.induct)
  case (1 it)
  show ?case
  proof (cases "it_stack it")
    case Nil
    then show ?thesis by (subst iter_all.simps) (simp add: iter_next.simps todo_def)
  next
    case (Cons s stack)
    with 1(2) obtain e n l r where s: "s = Link e n l r" by (cases s) (auto simp: nodes_only_def)
    let ?it = "it\<lparr>it_stack := push_left_spine r stack, it_remaining := it_remaining it - 1\<rparr>"
    have n: "iter_next it = Some (?it, Some e)" using 1(3) Cons s by (simp add: iter_next.simps todo_Cons)
    have "iter_all ?it = Some (todo (it_stack ?it))"
      using 1(2,3) Cons s by (intro 1(1)[OF n refl refl]) (simp_all add: nodes_push[unfolded nodes_only_def] todo_push todo_Cons nodes_only_def)
    with n Cons s show ?thesis by (subst iter_all.simps) (simp add: todo_push todo_Cons)
  qed
qed

lemma range_all_todo:
  "nodes_only (rg_stack rg) \<Longrightarrow> keys_sorted (todo (rg_stack rg)) \<Longrightarrow>
     range_all rg = Some (filter (\<lambda>e. fst e \<le> rg_hi rg) (todo (rg_stack rg)))"
proof (induction rg rule: range_all.induct)
  case (1 rg)
  show ?case
  proof (cases "rg_stack rg")
    case Nil
    then show ?thesis by (subst range_all.simps) (simp add: range_next.simps todo_def)
  next
    case (Cons s stack)
    with 1(2) obtain e n l r where s: "s = Link e n l r" by (cases s) (auto simp: nodes_only_def)
    have above: "\<forall>y\<in>set (entries r @ todo stack). fst e < fst y"
      using 1(3) Cons s keys_sorted_app[of "[]" e] by (simp add: todo_Cons)
    show ?thesis
    proof (cases "rg_hi rg < fst e")
      case True
      then have "filter (\<lambda>e. fst e \<le> rg_hi rg) (entries r @ todo stack) = []"
        using above by (intro filter_none) (auto dest: less_trans bspec)
      with True Cons s show ?thesis by (subst range_all.simps) (simp add: range_next.simps todo_Cons)
    next
      case False
      let ?rg = "rg\<lparr>rg_stack := push_left_spine r stack\<rparr>"
      have n: "range_next rg = Some (?rg, Some e)" using False Cons s by (simp add: range_next.simps)
      have "range_all ?rg = Some (filter (\<lambda>e. fst e \<le> rg_hi ?rg) (todo (rg_stack ?rg)))"
        using 1(2,3) Cons s keys_sorted_app[of "[]" e]
        by (intro 1(1)[OF n refl refl]) (simp_all add: nodes_push[unfolded nodes_only_def] todo_push todo_Cons nodes_only_def)
      with n False Cons s show ?thesis by (subst range_all.simps) (simp add: todo_push todo_Cons)
    qed
  qed
qed

section \<open>A map of its own writes\<close>

datatype ('k, 'v) pm_call = Insert 'k 'v | InsertIfAbsent 'k 'v

fun do_pm_call :: "('k::linorder, 'v) pm_call \<Rightarrow> ('k, 'v) link \<Rightarrow> ('k, 'v) link option" where
  "do_pm_call (Insert k v) m = pm_insert k v m"
| "do_pm_call (InsertIfAbsent k v) m = insert_if_absent k v m"

fun pm_calls :: "('k::linorder, 'v) pm_call list \<Rightarrow> ('k, 'v) link \<Rightarrow> ('k, 'v) link option" where
  "pm_calls [] m = Some m"
| "pm_calls (c # cs) m = do { m \<leftarrow> do_pm_call c m; pm_calls cs m }"

fun spec_pm_call :: "('k, 'v) pm_call \<Rightarrow> ('k \<rightharpoonup> 'v) \<Rightarrow> ('k \<rightharpoonup> 'v)" where
  "spec_pm_call (Insert k v) f = f(k \<mapsto> v)"
| "spec_pm_call (InsertIfAbsent k v) f = (if f k = None then f(k \<mapsto> v) else f)"

definition spec_pm :: "('k, 'v) pm_call list \<Rightarrow> ('k \<rightharpoonup> 'v)" where
  "spec_pm cs = fold spec_pm_call cs Map.empty"

lemma do_pm_call_ok:
  assumes "pm_ok m"
  shows "\<exists>t. do_pm_call c m = Some t \<and> pm_ok t \<and> map_of (entries t) = spec_pm_call c (map_of (entries m))"
proof -
  have ks: "keys_sorted (entries m)" using assms by (simp add: pm_ok_def)
  show ?thesis
  proof (cases c)
    case (Insert k v)
    then show ?thesis using ins_ok[OF assms, of k v True] map_of_upd_entries[OF ks, of k v True]
      by (auto simp: pm_insert_def)
  next
    case (InsertIfAbsent k v)
    then show ?thesis using ins_ok[OF assms, of k v False] map_of_upd_entries[OF ks, of k v False]
      by (auto simp: insert_if_absent_def)
  qed
qed

lemma pm_calls_ok:
  "pm_ok m \<Longrightarrow> \<exists>t. pm_calls cs m = Some t \<and> pm_ok t \<and> map_of (entries t) = fold spec_pm_call cs (map_of (entries m))"
proof (induction cs arbitrary: m)
  case (Cons c cs)
  obtain t where t: "do_pm_call c m = Some t" "pm_ok t" "map_of (entries t) = spec_pm_call c (map_of (entries m))"
    using do_pm_call_ok[OF Cons.prems] by blast
  with Cons.IH[OF t(2)] show ?case by simp
qed simp

lemma pm_ok_new: "pm_ok pm_new"
  by (simp add: pm_ok_def pm_new_def keys_sorted_def)

lemma pm_iter_ok: "sized m \<Longrightarrow> iter_all (pm_iter m) = Some (entries m)"
  using iter_all_todo[of "pm_iter m"]
  by (simp add: pm_iter_def todo_push nodes_push pm_len_def size_entries) (simp add: todo_def nodes_only_def)

lemma pm_range_ok:
  assumes "keys_sorted (entries m)"
  shows "range_all (pm_range m lo hi) = Some (filter (\<lambda>e. lo \<le> fst e \<and> fst e \<le> hi) (entries m))"
proof -
  have "todo (rg_stack (pm_range m lo hi)) = filter (\<lambda>e. lo \<le> fst e) (entries m)"
    using todo_push_from[OF assms, of lo "[]"] by (simp add: pm_range_def todo_def)
  moreover have "keys_sorted (filter (\<lambda>e. lo \<le> fst e) (entries m))"
    using assms by (induction "entries m") (auto simp: keys_sorted_def sorted_wrt_map sorted_wrt_filter)
  ultimately show ?thesis
    using range_all_todo[of "pm_range m lo hi"] nodes_push_from[of m lo "[]"]
    by (simp add: pm_range_def nodes_only_def conj_commute)
qed

lemma pm_from_iter_calls: "pm_from_iter es = pm_calls (map (\<lambda>(k, v). Insert k v) es) pm_new"
proof -
  have "insert_all es m = pm_calls (map (\<lambda>(k, v). Insert k v) es) m" for m
    by (induction es m rule: insert_all.induct) (auto split: Option.bind_split)
  then show ?thesis by (simp add: pm_from_iter_def)
qed

text \<open>
  (C12) The persistent map is a map. Any sequence of \<open>insert\<close> and \<open>insert_if_absent\<close> on a new map returns (no
  \<open>expect\<close> of the rotations fails), \<open>get\<close> then answers the last value written to a key, or the first when every later
  write was absent-only, \<open>len\<close> counts the keys, iterating gives each key once in ascending order without a panic,
  \<open>range\<close> exactly those between its two bounds, and the tree stays logarithmically low: its height \<open>h\<close> satisfies
  \<open>(4/3)^h \<le> len + 1\<close>.
\<close>

theorem persistent_map_refinement:
  "\<exists>m es. pm_calls cs pm_new = Some m \<and> iter_all (pm_iter m) = Some es \<and>
     sorted_wrt (<) (map fst es) \<and> map_of es = spec_pm cs \<and> pm_len m = length es \<and>
     pm_get m = spec_pm cs \<and>
     range_all (pm_range m lo hi) = Some (filter (\<lambda>e. lo \<le> fst e \<and> fst e \<le> hi) es) \<and>
     4 ^ link_height m \<le> 3 ^ link_height m * (pm_len m + 1)"
proof -
  obtain m where m: "pm_calls cs pm_new = Some m" "pm_ok m" "map_of (entries m) = spec_pm cs"
    using pm_calls_ok[OF pm_ok_new, of cs] by (auto simp: spec_pm_def pm_new_def)
  have ok: "sized m" "balanced m" "keys_sorted (entries m)" using m(2) by (simp_all add: pm_ok_def)
  have "pm_get m = spec_pm cs" using m(3) pm_get_entries[OF ok(3)] by (auto simp: fun_eq_iff)
  with m ok show ?thesis
    using pm_iter_ok[OF ok(1)] pm_range_ok[OF ok(3), of lo hi] balanced_height[OF ok(1,2)]
    by (intro exI[of _ m] exI[of _ "entries m"]) (simp add: keys_sorted_def pm_len_def size_entries)
qed

end
