(* ===== verification/Heap_Page.thy ===== *)
theory Heap_Page
  imports Wal_Record "HOL-Library.Monad_Syntax"
begin

text \<open>
  \<open>storage/heap_page.rs\<close>, the slotted page a table's rows live on, and what the rest of the engine does to one page
  image: \<open>HeapFileManager\<close> reads, inserts and updates (\<open>storage/heap_file_manager.rs\<close>), the undo of
  \<open>wal/txn.rs\<close>, and \<open>redo_one\<close> of \<open>wal/recovery.rs\<close>. Each of them deserializes the image, calls one method of \<open>Page\<close>,
  sets the page's LSN and serializes it back, and that round is what is modelled; the buffer pool around it is not.
  A panic (an index out of range, a subtraction below zero, an \<open>unwrap\<close>) is \<open>None\<close>; \<open>as u16\<close> is \<open>mod 65536\<close>.
\<close>

section \<open>The page\<close>

record slot_entry =
  se_offset :: nat
  se_length :: nat

record heap_page =
  pg_type :: nat
  pg_id :: nat
  pg_lsn :: nat
  pg_checksum :: nat
  pg_slots :: "slot_entry list"
  pg_tuples :: "byte list"

definition PAGE_HEADER_SIZE :: nat where "PAGE_HEADER_SIZE = 23"
definition SLOT_ENTRY_SIZE :: nat where "SLOT_ENTRY_SIZE = 4"
definition MAX_TUPLE_SIZE :: nat where "MAX_TUPLE_SIZE = PAGE_SIZE - PAGE_HEADER_SIZE - SLOT_ENTRY_SIZE"

definition slot_new :: "nat \<Rightarrow> nat \<Rightarrow> slot_entry" where
  "slot_new off len = \<lparr>se_offset = off, se_length = len\<rparr>"

definition page_empty :: "nat \<Rightarrow> heap_page" where
  "page_empty pid = \<lparr>pg_type = 0, pg_id = pid, pg_lsn = 0, pg_checksum = 0, pg_slots = [], pg_tuples = []\<rparr>"

definition slot_dead :: "slot_entry \<Rightarrow> bool" where
  "slot_dead s \<longleftrightarrow> se_offset s = 0 \<and> se_length s = 0"

definition get_free_space_start :: "heap_page \<Rightarrow> nat" where
  "get_free_space_start p = (PAGE_HEADER_SIZE + length (pg_slots p) * SLOT_ENTRY_SIZE) mod 65536"

definition lower_offset :: "nat \<Rightarrow> slot_entry \<Rightarrow> nat" where
  "lower_offset m s = (if slot_dead s then m else if se_offset s < m then se_offset s else m)"

definition get_free_space_end :: "heap_page \<Rightarrow> nat" where
  "get_free_space_end p = foldl lower_offset PAGE_SIZE (pg_slots p)"

section \<open>Its image\<close>

text \<open>\<open>buffer[a..b].copy_from_slice(..)\<close>; \<open>&bytes[a..b]\<close> is \<open>get_range\<close>.\<close>

definition copy_at :: "nat \<Rightarrow> byte list \<Rightarrow> byte list \<Rightarrow> byte list option" where
  "copy_at off bs buf =
     (if off + length bs \<le> length buf then Some (take off buf @ bs @ drop (off + length bs) buf) else None)"

fun copy_slots :: "nat \<Rightarrow> slot_entry list \<Rightarrow> byte list \<Rightarrow> byte list option" where
  "copy_slots i [] buf = Some buf"
| "copy_slots i (s # ss) buf = do {
     buf \<leftarrow> copy_at (PAGE_HEADER_SIZE + i * SLOT_ENTRY_SIZE) (be_bytes 2 (se_offset s)) buf;
     buf \<leftarrow> copy_at (PAGE_HEADER_SIZE + i * SLOT_ENTRY_SIZE + SLOT_ENTRY_SIZE div 2) (be_bytes 2 (se_length s)) buf;
     copy_slots (Suc i) ss buf
   }"

definition page_serialize :: "heap_page \<Rightarrow> byte list option" where
  "page_serialize p = do {
     buf \<leftarrow> copy_at 0 (be_bytes 1 (pg_type p)) (replicate PAGE_SIZE 0);
     buf \<leftarrow> copy_at 1 (be_bytes 4 (pg_id p)) buf;
     buf \<leftarrow> copy_at 5 (be_bytes 2 (length (pg_slots p) mod 65536)) buf;
     buf \<leftarrow> copy_at 7 (be_bytes 2 ((PAGE_HEADER_SIZE + length (pg_slots p) * SLOT_ENTRY_SIZE) mod 65536)) buf;
     buf \<leftarrow> copy_at 9 (be_bytes 2 (get_free_space_end p)) buf;
     buf \<leftarrow> copy_at 11 (be_bytes 8 (pg_lsn p)) buf;
     buf \<leftarrow> copy_at 19 (be_bytes 4 (pg_checksum p)) buf;
     buf \<leftarrow> copy_slots 0 (pg_slots p) buf;
     if length (pg_tuples p) \<le> PAGE_SIZE then copy_at (PAGE_SIZE - length (pg_tuples p)) (pg_tuples p) buf else None
   }"

fun read_slots :: "byte list \<Rightarrow> slot_entry list option" where
  "read_slots [] = Some []"
| "read_slots (a # b # c # d # bs) =
     map_option ((#) (slot_new (from_be [a, b]) (from_be [c, d]))) (read_slots bs)"
| "read_slots _ = None"

definition page_deserialize :: "byte list \<Rightarrow> heap_page option" where
  "page_deserialize bs = do {
     t \<leftarrow> get_range bs 0 1;
     pid \<leftarrow> get_range bs 1 5;
     start \<leftarrow> get_range bs 7 9;
     stop \<leftarrow> get_range bs 9 11;
     lsn \<leftarrow> get_range bs 11 19;
     checksum \<leftarrow> get_range bs 19 23;
     raw \<leftarrow> get_range bs PAGE_HEADER_SIZE (from_be start);
     slots \<leftarrow> read_slots raw;
     tuples \<leftarrow> get_range bs (from_be stop) PAGE_SIZE;
     Some \<lparr>pg_type = from_be t, pg_id = from_be pid, pg_lsn = from_be lsn, pg_checksum = from_be checksum,
           pg_slots = slots, pg_tuples = tuples\<rparr>
   }"

section \<open>The operations of a page\<close>

text \<open>\<open>a - b\<close> on unsigned integers.\<close>

definition checked_minus :: "nat \<Rightarrow> nat \<Rightarrow> nat option" where
  "checked_minus a b = (if b \<le> a then Some (a - b) else None)"

definition page_insert :: "byte list \<Rightarrow> heap_page \<Rightarrow> (heap_page \<times> nat result) option" where
  "page_insert d p = do {
     room \<leftarrow> checked_minus (get_free_space_end p) (get_free_space_start p);
     if room < length d + SLOT_ENTRY_SIZE then Some (p, Inl NotEnoughSpace)
     else do {
       let tuples = d @ pg_tuples p;
       off \<leftarrow> checked_minus PAGE_SIZE (length tuples mod 65536);
       let slots = pg_slots p @ [slot_new off (length d mod 65536)];
       Some (p\<lparr>pg_tuples := tuples, pg_slots := slots\<rparr>, Inr ((length slots - 1) mod 65536))
     }
   }"

definition page_read :: "nat \<Rightarrow> heap_page \<Rightarrow> byte list result option" where
  "page_read n p =
     (if length (pg_slots p) \<le> n then Some (Inl (Io ''slot num out of bounds''))
      else
        let s = pg_slots p ! n in
        if se_length s = 0 \<and> se_offset s = 0 then Some (Inl SlotDeleted)
        else do {
          off \<leftarrow> checked_minus (se_offset s) (get_free_space_end p);
          raw \<leftarrow> get_range (pg_tuples p) off (off + se_length s);
          Some (Inr raw)
        })"

definition page_update :: "nat \<Rightarrow> byte list \<Rightarrow> heap_page \<Rightarrow> (heap_page \<times> unit result) option" where
  "page_update n d p =
     (case page_read n p of
        Some (Inr old) \<Rightarrow>
          let s = pg_slots p ! n; fse = get_free_space_end p in do {
            off \<leftarrow> checked_minus (se_offset s) fse;
            if length d \<le> length old then do {
              tuples \<leftarrow> copy_at off d (pg_tuples p);
              Some (p\<lparr>pg_tuples := tuples, pg_slots := (pg_slots p)[n := s\<lparr>se_length := length d mod 65536\<rparr>]\<rparr>, Inr ())
            }
            else do {
              room \<leftarrow> checked_minus fse (get_free_space_start p);
              if length d \<le> room then do {
                off \<leftarrow> checked_minus fse (length d mod 65536);
                Some (p\<lparr>pg_slots := (pg_slots p)[n := slot_new off (length d mod 65536)],
                        pg_tuples := d @ pg_tuples p\<rparr>, Inr ())
              }
              else Some (p, Inl NotEnoughSpace)
            }
          }
      | _ \<Rightarrow> None)"

definition page_delete :: "nat \<Rightarrow> heap_page \<Rightarrow> heap_page \<times> unit result" where
  "page_delete n p =
     (if length (pg_slots p) \<le> n then (p, Inl (Io ''slot num out of bounds''))
      else (p\<lparr>pg_slots := (pg_slots p)[n := slot_new 0 0]\<rparr>, Inr ()))"

definition restore_at :: "nat \<Rightarrow> byte list \<Rightarrow> heap_page \<Rightarrow> (heap_page \<times> unit result) option" where
  "restore_at n d p =
     (if length (pg_slots p) \<le> n then Some (p, Inl (Wal ''slot is past this page''))
      else do {
        tuples_start \<leftarrow> checked_minus PAGE_SIZE (length (pg_tuples p));
        let room = tuples_start - get_free_space_start p;
        if room < length d then Some (p, Inl NotEnoughSpace)
        else do {
          let tuples = d @ pg_tuples p;
          off \<leftarrow> checked_minus PAGE_SIZE (length tuples mod 65536);
          Some (p\<lparr>pg_tuples := tuples, pg_slots := (pg_slots p)[n := slot_new off (length d mod 65536)]\<rparr>, Inr ())
        }
      })"

text \<open>The loop of \<open>compact\<close>: the tuples copied to the end of a zeroed page, the first slot's last.\<close>

fun compact_slots ::
    "nat \<Rightarrow> byte list \<Rightarrow> slot_entry list \<Rightarrow> nat \<Rightarrow> byte list \<Rightarrow> (slot_entry list \<times> nat \<times> byte list) option" where
  "compact_slots base tuples [] off buf = Some ([], off, buf)"
| "compact_slots base tuples (s # ss) off buf =
     (if se_offset s \<noteq> 0 \<and> se_length s \<noteq> 0 then do {
        source \<leftarrow> checked_minus (se_offset s) base;
        raw \<leftarrow> get_range tuples source (source + se_length s);
        off \<leftarrow> checked_minus off (length raw);
        buf \<leftarrow> copy_at off raw buf;
        (ss, stop, buf) \<leftarrow> compact_slots base tuples ss off buf;
        Some (s\<lparr>se_offset := off mod 65536\<rparr> # ss, stop, buf)
      }
      else do {
        (ss, stop, buf) \<leftarrow> compact_slots base tuples ss off buf;
        Some (s # ss, stop, buf)
      })"

definition page_compact :: "heap_page \<Rightarrow> heap_page option" where
  "page_compact p = do {
     base \<leftarrow> checked_minus PAGE_SIZE (length (pg_tuples p));
     (slots, off, buf) \<leftarrow> compact_slots base (pg_tuples p) (pg_slots p) PAGE_SIZE (replicate PAGE_SIZE 0);
     tuples \<leftarrow> get_range buf off PAGE_SIZE;
     Some (p\<lparr>pg_slots := slots, pg_tuples := tuples\<rparr>)
   }"

section \<open>One operation on an image\<close>

text \<open>
  The four writes an image meets: \<open>insert_into\<close>, \<open>update\<close> (which reads the slot first) and the deletion of its
  relocating arm, and the undo of such a deletion. \<open>lsn\<close> is the LSN of the log record, \<open>None\<close> for a heap opened
  without a transaction. A write that is refused leaves the frame as it was.
\<close>

datatype page_write = WInsert "byte list" | WUpdate nat "byte list" | WDelete nat | WRestore nat "byte list"

fun write_on :: "page_write \<Rightarrow> heap_page \<Rightarrow> (heap_page \<times> nat result) option" where
  "write_on (WInsert d) p = page_insert d p"
| "write_on (WUpdate n d) p = do {
     old \<leftarrow> page_read n p;
     case old of
       Inl e \<Rightarrow> Some (p, Inl e)
     | Inr _ \<Rightarrow> do { (p, r) \<leftarrow> page_update n d p; Some (p, rbind r (\<lambda>_. Inr n)) }
   }"
| "write_on (WDelete n) p = do {
     old \<leftarrow> page_read n p;
     case old of
       Inl e \<Rightarrow> Some (p, Inl e)
     | Inr _ \<Rightarrow> (case page_delete n p of (p, r) \<Rightarrow> Some (p, rbind r (\<lambda>_. Inr n)))
   }"
| "write_on (WRestore n d) p = do { (p, r) \<leftarrow> restore_at n d p; Some (p, rbind r (\<lambda>_. Inr n)) }"

definition stamp :: "nat option \<Rightarrow> heap_page \<Rightarrow> heap_page" where
  "stamp lsn p = (case lsn of None \<Rightarrow> p | Some l \<Rightarrow> p\<lparr>pg_lsn := l\<rparr>)"

definition image_write :: "nat option \<Rightarrow> page_write \<Rightarrow> byte list \<Rightarrow> (byte list \<times> nat result) option" where
  "image_write lsn w img = do {
     p \<leftarrow> page_deserialize img;
     (p, r) \<leftarrow> write_on w p;
     case r of
       Inl e \<Rightarrow> Some (img, Inl e)
     | Inr n \<Rightarrow> do { img \<leftarrow> page_serialize (stamp lsn p); Some (img, Inr n) }
   }"

definition image_read :: "nat \<Rightarrow> byte list \<Rightarrow> byte list result option" where
  "image_read n img = do { p \<leftarrow> page_deserialize img; page_read n p }"

definition image_empty :: "nat \<Rightarrow> byte list option" where
  "image_empty pid = page_serialize (page_empty pid)"

section \<open>The layout of an image\<close>

text \<open>A page whose tuples end where its slots begin, every live slot inside the tuples and apart from the others.\<close>

definition apart :: "slot_entry \<Rightarrow> slot_entry \<Rightarrow> bool" where
  "apart a b \<longleftrightarrow> se_offset a + se_length a \<le> se_offset b \<or> se_offset b + se_length b \<le> se_offset a"

definition slots_apart :: "slot_entry list \<Rightarrow> bool" where
  "slots_apart ss \<longleftrightarrow> (\<forall>i<length ss. \<forall>j<length ss. i \<noteq> j \<longrightarrow> slot_dead (ss ! i) \<or> slot_dead (ss ! j) \<or> apart (ss ! i) (ss ! j))"

definition slot_in :: "nat \<Rightarrow> slot_entry \<Rightarrow> bool" where
  "slot_in t s \<longleftrightarrow> slot_dead s \<or> (4096 \<le> se_offset s + t \<and> se_offset s + se_length s \<le> 4096)"

definition page_ok :: "heap_page \<Rightarrow> bool" where
  "page_ok p \<longleftrightarrow> 23 + 4 * length (pg_slots p) + length (pg_tuples p) \<le> 4096 \<and>
     (\<forall>s\<in>set (pg_slots p). slot_in (length (pg_tuples p)) s) \<and> slots_apart (pg_slots p)"

definition tight :: "heap_page \<Rightarrow> bool" where
  "tight p \<longleftrightarrow> get_free_space_end p = 4096 - length (pg_tuples p)"

definition slot_row :: "byte list \<Rightarrow> slot_entry \<Rightarrow> byte list option" where
  "slot_row t s = (if slot_dead s then None else Some (take (se_length s) (drop (se_offset s + length t - 4096) t)))"

definition rows :: "heap_page \<Rightarrow> byte list option list" where
  "rows p = map (slot_row (pg_tuples p)) (pg_slots p)"

definition free_space :: "heap_page \<Rightarrow> nat" where
  "free_space p = 4096 - length (pg_tuples p) - (23 + 4 * length (pg_slots p))"

lemma sizes [simp]: "PAGE_SIZE = 4096" "PAGE_HEADER_SIZE = 23" "SLOT_ENTRY_SIZE = 4"
  by (simp_all add: PAGE_SIZE_def PAGE_HEADER_SIZE_def SLOT_ENTRY_SIZE_def)

lemma foldl_lower:
  "foldl lower_offset m ss \<le> m" "s \<in> set ss \<Longrightarrow> \<not> slot_dead s \<Longrightarrow> foldl lower_offset m ss \<le> se_offset s"
  "k \<le> m \<Longrightarrow> (\<And>s. s \<in> set ss \<Longrightarrow> \<not> slot_dead s \<Longrightarrow> k \<le> se_offset s) \<Longrightarrow> k \<le> foldl lower_offset m ss"
proof (induction ss arbitrary: m)
  case (Cons a ss)
  { case 1 show ?case using Cons.IH(1)[of "lower_offset m a"] by (auto simp: lower_offset_def split: if_splits) }
  { case 2 then show ?case using Cons.IH(1,2)[of "lower_offset m a"] by (auto simp: lower_offset_def split: if_splits) }
  { case 3 then show ?case using Cons.IH(3)[of "lower_offset m a"] by (auto simp: lower_offset_def) }
qed auto

lemma fse_ge: "page_ok p \<Longrightarrow> 4096 - length (pg_tuples p) \<le> get_free_space_end p"
  unfolding get_free_space_end_def
  by (rule foldl_lower(3)) (auto simp: page_ok_def slot_in_def)

lemma fse_le: "get_free_space_end p \<le> 4096"
  using foldl_lower(1)[of 4096 "pg_slots p"] by (simp add: get_free_space_end_def)

lemma fse_live: "s \<in> set (pg_slots p) \<Longrightarrow> \<not> slot_dead s \<Longrightarrow> get_free_space_end p \<le> se_offset s"
  using foldl_lower(2)[of s "pg_slots p" 4096] by (simp add: get_free_space_end_def)

lemma fss_ok: "page_ok p \<Longrightarrow> get_free_space_start p = 23 + 4 * length (pg_slots p)"
  by (simp add: get_free_space_start_def page_ok_def)

lemma tightI:
  assumes "page_ok p" "pg_tuples p = [] \<or> (\<exists>s\<in>set (pg_slots p). \<not> slot_dead s \<and> se_offset s + length (pg_tuples p) = 4096)"
  shows "tight p"
  using assms(2)
proof
  assume "pg_tuples p = []"
  then show ?thesis using fse_ge[OF assms(1)] fse_le[of p] by (simp add: tight_def)
next
  assume "\<exists>s\<in>set (pg_slots p). \<not> slot_dead s \<and> se_offset s + length (pg_tuples p) = 4096"
  then show ?thesis using fse_ge[OF assms(1)] fse_live[of _ p] by (fastforce simp: tight_def)
qed

section \<open>Serializing and reading back\<close>

definition padded :: "byte list \<Rightarrow> byte list" where
  "padded pre = pre @ replicate (4096 - length pre) 0"

definition slot_bytes :: "slot_entry \<Rightarrow> byte list" where
  "slot_bytes s = be_bytes 2 (se_offset s) @ be_bytes 2 (se_length s)"

definition header_bytes :: "heap_page \<Rightarrow> byte list" where
  "header_bytes p = be_bytes 1 (pg_type p) @ be_bytes 4 (pg_id p) @ be_bytes 2 (length (pg_slots p)) @
     be_bytes 2 (23 + 4 * length (pg_slots p)) @ be_bytes 2 (get_free_space_end p) @ be_bytes 8 (pg_lsn p) @
     be_bytes 4 (pg_checksum p)"

definition layout :: "heap_page \<Rightarrow> byte list" where
  "layout p = header_bytes p @ concat (map slot_bytes (pg_slots p)) @ replicate (free_space p) 0 @ pg_tuples p"

lemma length_slot_bytes [simp]: "length (slot_bytes s) = 4"
  by (simp add: slot_bytes_def)

lemma length_slots [simp]: "length (concat (map slot_bytes ss)) = 4 * length ss"
  by (induction ss) simp_all

lemma length_header_bytes [simp]: "length (header_bytes p) = 23"
  by (simp add: header_bytes_def)

lemma length_layout: "page_ok p \<Longrightarrow> length (layout p) = 4096"
  by (simp add: layout_def free_space_def page_ok_def)

lemma copy_padded:
  assumes "k = length pre" "k + length bs \<le> 4096"
  shows "copy_at k bs (padded pre) = Some (padded (pre @ bs))"
  using assms by (simp add: copy_at_def padded_def)

lemma copy_slots_padded:
  "length pre = 23 + 4 * i \<Longrightarrow> length pre + 4 * length ss \<le> 4096 \<Longrightarrow>
     copy_slots i ss (padded pre) = Some (padded (pre @ concat (map slot_bytes ss)))"
proof (induction ss arbitrary: i pre)
  case (Cons s ss)
  let ?a = "be_bytes 2 (se_offset s)" and ?b = "be_bytes 2 (se_length s)"
  have 1: "copy_at (23 + i * 4) ?a (padded pre) = Some (padded (pre @ ?a))"
    using Cons.prems by (intro copy_padded) simp_all
  have 2: "copy_at (23 + i * 4 + 2) ?b (padded (pre @ ?a)) = Some (padded ((pre @ ?a) @ ?b))"
    using Cons.prems by (intro copy_padded) simp_all
  have 3: "copy_slots (Suc i) ss (padded ((pre @ ?a) @ ?b)) = Some (padded (((pre @ ?a) @ ?b) @ concat (map slot_bytes ss)))"
    using Cons.prems by (intro Cons.IH) simp_all
  show ?case using 1 2 3 by (simp add: slot_bytes_def[of s])
qed simp

lemma copy_last:
  assumes "length pre + length t \<le> 4096"
  shows "copy_at (4096 - length t) t (padded pre) = Some (pre @ replicate (4096 - length pre - length t) 0 @ t)"
  using assms by (simp add: copy_at_def padded_def min_def diff_right_commute add.commute)

lemma page_serialize_ok:
  assumes "page_ok p"
  shows "page_serialize p = Some (layout p)"
proof -
  let ?n = "length (pg_slots p)"
  have n: "23 + 4 * ?n + length (pg_tuples p) \<le> 4096" using assms by (simp add: page_ok_def)
  have z: "replicate 4096 0 = padded []" by (simp add: padded_def)
  have m: "?n mod 65536 = ?n" "(23 + ?n * 4) mod 65536 = 23 + 4 * ?n" using n by simp_all
  have h: "copy_slots 0 (pg_slots p) (padded (header_bytes p)) =
      Some (padded (header_bytes p @ concat (map slot_bytes (pg_slots p))))"
    using n by (intro copy_slots_padded) simp_all
  have l: "copy_at (4096 - length (pg_tuples p)) (pg_tuples p) (padded (header_bytes p @ concat (map slot_bytes (pg_slots p)))) =
      Some (layout p)"
    using n copy_last[of "header_bytes p @ concat (map slot_bytes (pg_slots p))" "pg_tuples p"]
    by (simp add: layout_def free_space_def diff_commute)
  show ?thesis
    unfolding page_serialize_def sizes m z
    using h l n by (simp add: copy_padded header_bytes_def)
qed

lemma get_range_mid: "a = length pre \<Longrightarrow> b = a + length mid \<Longrightarrow> get_range (pre @ mid @ post) a b = Some mid"
  by (simp add: get_range_def)

lemma two_bytes: "\<exists>a b. be_bytes 2 v = [a, b]"
  using length_be_bytes[of 2 v] by (auto simp: numeral_2_eq_2 length_Suc_conv)

lemma read_slots_bytes:
  "\<forall>s\<in>set ss. se_offset s < 65536 \<and> se_length s < 65536 \<Longrightarrow> read_slots (concat (map slot_bytes ss)) = Some ss"
proof (induction ss)
  case (Cons s ss)
  obtain a b c d where *: "be_bytes 2 (se_offset s) = [a, b]" "be_bytes 2 (se_length s) = [c, d]"
    using two_bytes by metis
  have "from_be [a, b] = se_offset s" "from_be [c, d] = se_length s"
    using Cons.prems unfolding *[symmetric] by (simp_all add: from_be_be_bytes)
  then show ?case using Cons * by (simp add: slot_bytes_def[of s] slot_new_def)
qed simp

text \<open>What reading an image back gives: the fields at their widths, and the tuples from the lowest live one.\<close>

definition reloaded :: "heap_page \<Rightarrow> heap_page" where
  "reloaded p = p\<lparr>pg_type := pg_type p mod 256, pg_id := pg_id p mod 2 ^ 32, pg_lsn := pg_lsn p mod 2 ^ 64,
     pg_checksum := pg_checksum p mod 2 ^ 32,
     pg_tuples := drop (get_free_space_end p - (4096 - length (pg_tuples p))) (pg_tuples p)\<rparr>"

lemma layout_fields:
  assumes "page_ok p"
  shows "get_range (layout p) 0 1 = Some (be_bytes 1 (pg_type p))"
    "get_range (layout p) 1 5 = Some (be_bytes 4 (pg_id p))"
    "get_range (layout p) 7 9 = Some (be_bytes 2 (23 + 4 * length (pg_slots p)))"
    "get_range (layout p) 9 11 = Some (be_bytes 2 (get_free_space_end p))"
    "get_range (layout p) 11 19 = Some (be_bytes 8 (pg_lsn p))"
    "get_range (layout p) 19 23 = Some (be_bytes 4 (pg_checksum p))"
    "get_range (layout p) 23 (23 + 4 * length (pg_slots p)) = Some (concat (map slot_bytes (pg_slots p)))"
proof -
  have l: "length (layout p) = 4096" using assms by (rule length_layout)
  show "get_range (layout p) 0 1 = Some (be_bytes 1 (pg_type p))"
    "get_range (layout p) 1 5 = Some (be_bytes 4 (pg_id p))"
    "get_range (layout p) 7 9 = Some (be_bytes 2 (23 + 4 * length (pg_slots p)))"
    "get_range (layout p) 9 11 = Some (be_bytes 2 (get_free_space_end p))"
    "get_range (layout p) 11 19 = Some (be_bytes 8 (pg_lsn p))"
    "get_range (layout p) 19 23 = Some (be_bytes 4 (pg_checksum p))"
    using l by (simp_all add: get_range_def) (simp_all add: layout_def header_bytes_def)
  show "get_range (layout p) 23 (23 + 4 * length (pg_slots p)) = Some (concat (map slot_bytes (pg_slots p)))"
    unfolding layout_def by (rule get_range_mid) simp_all
qed

lemma layout_tuples:
  assumes "page_ok p"
  shows "get_range (layout p) (get_free_space_end p) 4096 = Some (pg_tuples (reloaded p))"
proof -
  obtain pre where pre: "layout p = pre @ pg_tuples p" "length pre = 4096 - length (pg_tuples p)"
    using assms that[of "header_bytes p @ concat (map slot_bytes (pg_slots p)) @ replicate (free_space p) 0"]
    by (simp add: page_ok_def free_space_def layout_def)
  then have "drop (get_free_space_end p) (layout p) = pg_tuples (reloaded p)"
    using fse_ge[OF assms] by (simp add: reloaded_def)
  moreover have "length (drop (get_free_space_end p) (layout p)) = 4096 - get_free_space_end p"
    using length_layout[OF assms] by simp
  ultimately show ?thesis
    using length_layout[OF assms] fse_le[of p] by (simp add: get_range_def)
qed

lemma slot_widths: "page_ok p \<Longrightarrow> s \<in> set (pg_slots p) \<Longrightarrow> se_offset s < 65536 \<and> se_length s < 65536"
  by (fastforce simp: page_ok_def slot_in_def slot_dead_def)

lemma page_deserialize_ok:
  assumes "page_ok p"
  shows "page_deserialize (layout p) = Some (reloaded p)"
proof -
  have w: "23 + 4 * length (pg_slots p) < 65536" "get_free_space_end p < 65536"
    using assms fse_le[of p] by (auto simp: page_ok_def)
  have "read_slots (concat (map slot_bytes (pg_slots p))) = Some (pg_slots p)"
    using slot_widths[OF assms] by (intro read_slots_bytes) blast
  with w show ?thesis
    unfolding page_deserialize_def sizes layout_fields(1,2)[OF assms]
    by (simp add: layout_fields[OF assms] layout_tuples[OF assms] from_be_be_bytes)
      (simp add: reloaded_def from_be_be_bytes_mod from_be_Cons unat_byte_of_nat)
qed

lemma reloaded_ok:
  assumes "page_ok p"
  shows "page_ok (reloaded p)" "tight (reloaded p)" "rows (reloaded p) = rows p" "pg_slots (reloaded p) = pg_slots p"
    "length (pg_tuples (reloaded p)) = 4096 - get_free_space_end p"
proof -
  let ?k = "get_free_space_end p - (4096 - length (pg_tuples p))"
  have T: "length (pg_tuples p) \<le> 4096" using assms by (simp add: page_ok_def)
  show len: "length (pg_tuples (reloaded p)) = 4096 - get_free_space_end p"
    using fse_ge[OF assms] T by (simp add: reloaded_def)
  show slots: "pg_slots (reloaded p) = pg_slots p" by (simp add: reloaded_def)
  have "slot_in (4096 - get_free_space_end p) s" if "s \<in> set (pg_slots p)" for s
    using assms that fse_live[OF that] by (auto simp: page_ok_def slot_in_def)
  then show ok: "page_ok (reloaded p)"
    using assms fse_ge[OF assms] T len slots by (auto simp: page_ok_def)
  show "tight (reloaded p)"
    using len fse_le[of p] slots by (simp add: tight_def get_free_space_end_def)
  have "slot_row (pg_tuples (reloaded p)) s = slot_row (pg_tuples p) s" if "s \<in> set (pg_slots p)" for s
    using fse_live[OF that] fse_ge[OF assms] fse_le[of p] T len
    by (auto simp: slot_row_def reloaded_def add.commute)
  then show "rows (reloaded p) = rows p" by (simp add: rows_def slots)
qed

section \<open>The operations on rows\<close>

lemma row_front: "4096 \<le> se_offset s + length t \<Longrightarrow> slot_row (d @ t) s = slot_row t s"
  by (simp add: slot_row_def)

lemma row_new:
  assumes "length t + length d \<le> 4096" "0 < off" "off + length (d @ t) = 4096"
  shows "slot_row (d @ t) (slot_new off (length d)) = Some d"
  using assms by (simp add: slot_row_def slot_new_def slot_dead_def)

text \<open>A slot put at the front of the tuples, over slot \<open>n\<close> or, where \<open>n\<close> is the number of slots, as a new one.\<close>

definition put_front :: "nat \<Rightarrow> byte list \<Rightarrow> heap_page \<Rightarrow> heap_page" where
  "put_front n d p =
     (let s = slot_new (4096 - length (pg_tuples p) - length d) (length d) in
      p\<lparr>pg_tuples := d @ pg_tuples p,
        pg_slots := (if n < length (pg_slots p) then (pg_slots p)[n := s] else pg_slots p @ [s])\<rparr>)"

lemma slots_apart_update:
  assumes "slots_apart ss" "\<And>j. j < length ss \<Longrightarrow> j \<noteq> n \<Longrightarrow> slot_dead (ss ! j) \<or> slot_dead s \<or> apart (ss ! j) s"
  shows "slots_apart (ss[n := s])"
  unfolding slots_apart_def
proof (intro allI impI)
  fix i j assume ij: "i < length (ss[n := s])" "j < length (ss[n := s])" "i \<noteq> j"
  have "apart a b \<longleftrightarrow> apart b a" for a b by (auto simp: apart_def)
  with ij assms(2)[of i] assms(2)[of j] assms(1)
  show "slot_dead (ss[n := s] ! i) \<or> slot_dead (ss[n := s] ! j) \<or> apart (ss[n := s] ! i) (ss[n := s] ! j)"
    by (cases "i = n"; cases "j = n") (auto simp: slots_apart_def)
qed

lemma slots_apart_snoc:
  assumes "slots_apart ss" "\<And>r. r \<in> set ss \<Longrightarrow> slot_dead r \<or> apart r s"
  shows "slots_apart (ss @ [s])"
  using assms unfolding slots_apart_def by (auto simp: nth_append apart_def less_Suc_eq) (metis nth_mem)+

lemma put_front_ok:
  assumes "page_ok p" "n \<le> length (pg_slots p)"
    and "length d + (if n = length (pg_slots p) then 4 else 0) \<le> free_space p"
  shows "page_ok (put_front n d p) \<and> tight (put_front n d p) \<and>
    rows (put_front n d p) = (if n < length (pg_slots p) then (rows p)[n := Some d] else rows p @ [Some d]) \<and>
    free_space (put_front n d p) = free_space p - (length d + (if n = length (pg_slots p) then 4 else 0))"
proof -
  let ?s = "slot_new (4096 - length (pg_tuples p) - length d) (length d)" and ?p = "put_front n d p"
  let ?ss = "if n < length (pg_slots p) then (pg_slots p)[n := ?s] else pg_slots p @ [?s]"
  have T: "23 + 4 * length (pg_slots p) + (if n = length (pg_slots p) then 4 else 0) + length (pg_tuples p) + length d \<le> 4096"
    using assms(1,3) by (auto simp: free_space_def page_ok_def)
  have f [simp]: "pg_tuples ?p = d @ pg_tuples p" "pg_slots ?p = ?ss" by (simp_all add: put_front_def Let_def)
  have new: "\<not> slot_dead ?s" "slot_in (length (d @ pg_tuples p)) ?s" "?s \<in> set ?ss"
    using T assms(2) by (auto simp: slot_dead_def slot_new_def slot_in_def set_update_memI)
  have old: "slot_in (length (d @ pg_tuples p)) r \<and> (slot_dead r \<or> apart r ?s) \<and>
      slot_row (d @ pg_tuples p) r = slot_row (pg_tuples p) r" if "r \<in> set (pg_slots p)" for r
    using assms(1) that T by (auto simp: page_ok_def slot_in_def apart_def slot_new_def row_front slot_row_def)
  have kept: "map (slot_row (d @ pg_tuples p)) (pg_slots p) = rows p"
    using old by (simp add: rows_def)
  have "slots_apart ?ss"
    using assms(1) old by (auto simp: page_ok_def intro!: slots_apart_update slots_apart_snoc dest: nth_mem)
  moreover have "slot_in (length (d @ pg_tuples p)) r" if "r \<in> set ?ss" for r
    using that new(2) old by (auto split: if_splits dest!: set_update_subset_insert[THEN subsetD])
  moreover have l: "length ?ss = length (pg_slots p) + (if n = length (pg_slots p) then 1 else 0)" using assms(2) by simp
  moreover have "23 + 4 * length ?ss + length (d @ pg_tuples p) \<le> 4096" unfolding l using T by auto
  ultimately have ok: "page_ok ?p" unfolding page_ok_def f by blast
  have "tight ?p"
    using ok new T by (intro tightI disjI2 bexI[of _ ?s]) (simp_all add: slot_new_def)
  moreover have "rows ?p = (if n < length (pg_slots p) then (rows p)[n := Some d] else rows p @ [Some d])"
    using T row_new[of "pg_tuples p" d "4096 - length (pg_tuples p) - length d"]
    by (simp add: rows_def[of ?p] map_update kept)
  moreover have "free_space ?p = free_space p - (length d + (if n = length (pg_slots p) then 4 else 0))"
    using T unfolding free_space_def f l by auto
  ultimately show ?thesis using ok by blast
qed

lemma tight_room:
  assumes "page_ok p" "tight p"
  shows "checked_minus (get_free_space_end p) (get_free_space_start p) = Some (free_space p)"
  using assms fss_ok[OF assms(1)] by (auto simp: checked_minus_def tight_def page_ok_def free_space_def)

lemma page_insert_ok:
  assumes "page_ok p" "tight p"
  shows "page_insert d p = Some (if free_space p < length d + 4 then (p, Inl NotEnoughSpace)
    else (put_front (length (pg_slots p)) d p, Inr (length (pg_slots p))))"
proof (cases "free_space p < length d + 4")
  case False
  then have T: "23 + 4 * length (pg_slots p) + length (pg_tuples p) + length d + 4 \<le> 4096"
    using assms(1) by (simp add: page_ok_def free_space_def)
  then have "checked_minus 4096 ((length d + length (pg_tuples p)) mod 65536) = Some (4096 - length (pg_tuples p) - length d)"
    by (simp add: checked_minus_def)
  with T False show ?thesis by (simp add: page_insert_def tight_room[OF assms] put_front_def Let_def)
qed (simp add: page_insert_def tight_room[OF assms])

lemma restore_at_ok:
  assumes "page_ok p"
  shows "restore_at n d p = Some (if length (pg_slots p) \<le> n then (p, Inl (Wal ''slot is past this page''))
    else if free_space p < length d then (p, Inl NotEnoughSpace) else (put_front n d p, Inr ()))"
proof -
  have c: "checked_minus 4096 (length (pg_tuples p)) = Some (4096 - length (pg_tuples p))"
    using assms by (simp add: checked_minus_def page_ok_def)
  show ?thesis
  proof (cases "free_space p < length d")
    case True
    then show ?thesis using c by (simp add: restore_at_def fss_ok[OF assms] free_space_def Let_def)
  next
    case False
    then have T: "23 + 4 * length (pg_slots p) + length (pg_tuples p) + length d \<le> 4096"
      using assms by (auto simp: page_ok_def free_space_def)
    then have "checked_minus 4096 ((length d + length (pg_tuples p)) mod 65536) = Some (4096 - length (pg_tuples p) - length d)"
      by (simp add: checked_minus_def)
    with T False c show ?thesis
      by (simp add: restore_at_def fss_ok[OF assms] put_front_def Let_def free_space_def)
  qed
qed

lemma page_read_ok:
  assumes "page_ok p" "tight p"
  shows "page_read n p = Some (if length (rows p) \<le> n then Inl (Io ''slot num out of bounds'')
    else case rows p ! n of None \<Rightarrow> Inl SlotDeleted | Some d \<Rightarrow> Inr d)"
proof (cases "n < length (pg_slots p)")
  case True
  let ?s = "pg_slots p ! n"
  have "slot_in (length (pg_tuples p)) ?s" "length (pg_tuples p) \<le> 4096"
    using assms(1) True by (auto simp: page_ok_def)
  moreover have "rows p ! n = slot_row (pg_tuples p) ?s" "length (rows p) = length (pg_slots p)"
    using True by (simp_all add: rows_def)
  ultimately show ?thesis
    using True assms(2)
    by (auto simp: page_read_def Let_def slot_row_def slot_in_def slot_dead_def checked_minus_def tight_def get_range_def)
qed (simp add: page_read_def rows_def)

text \<open>Bytes written over a stretch of the tuples leave every stretch apart from it as it was.\<close>

lemma overlay_apart:
  assumes "a + length d \<le> length t" "c + m \<le> a \<or> a + length d \<le> c"
  shows "take m (drop c (take a t @ d @ drop (a + length d) t)) = take m (drop c t)"
  using assms
proof (elim disjE)
  assume "c + m \<le> a"
  then show ?thesis using assms(1) by (simp add: take_drop min_def)
next
  assume "a + length d \<le> c"
  then show ?thesis using assms(1) by (simp add: min_def)
qed

text \<open>Slot \<open>n\<close> rewritten in place by bytes no longer than the ones it holds.\<close>

definition put_inside :: "nat \<Rightarrow> byte list \<Rightarrow> heap_page \<Rightarrow> heap_page" where
  "put_inside n d p =
     (let a = se_offset (pg_slots p ! n) + length (pg_tuples p) - 4096 in
      p\<lparr>pg_tuples := take a (pg_tuples p) @ d @ drop (a + length d) (pg_tuples p),
        pg_slots := (pg_slots p)[n := (pg_slots p ! n)\<lparr>se_length := length d\<rparr>]\<rparr>)"

lemma foldl_lower_update:
  "\<not> slot_dead (ss ! n) \<Longrightarrow> \<not> slot_dead s \<Longrightarrow> se_offset s = se_offset (ss ! n) \<Longrightarrow>
     foldl lower_offset m (ss[n := s]) = foldl lower_offset m ss"
proof (induction ss arbitrary: m n)
  case (Cons r ss)
  then show ?case by (cases n) (simp_all add: lower_offset_def)
qed simp

lemma put_inside_ok:
  assumes "page_ok p" "tight p" "n < length (pg_slots p)" "\<not> slot_dead (pg_slots p ! n)"
    and "length d \<le> se_length (pg_slots p ! n)"
  shows "page_ok (put_inside n d p) \<and> tight (put_inside n d p) \<and>
    rows (put_inside n d p) = (rows p)[n := Some d] \<and> free_space (put_inside n d p) = free_space p"
proof -
  let ?o = "pg_slots p ! n" and ?t = "pg_tuples p" and ?p = "put_inside n d p"
  let ?a = "se_offset ?o + length ?t - 4096" and ?s = "?o\<lparr>se_length := length d\<rparr>"
  let ?u = "take ?a ?t @ d @ drop (?a + length d) ?t"
  have in_page: "slot_in (length ?t) r" if "r \<in> set (pg_slots p)" for r using assms(1) that by (simp add: page_ok_def)
  have o: "4096 \<le> se_offset ?o + length ?t" "se_offset ?o + se_length ?o \<le> 4096" "0 < se_offset ?o"
    and T: "length ?t \<le> 4073"
    using in_page[OF nth_mem[OF assms(3)]] assms(1,4) by (auto simp: slot_in_def page_ok_def)
  have f [simp]: "pg_tuples ?p = ?u" "pg_slots ?p = (pg_slots p)[n := ?s]" by (simp_all add: put_inside_def Let_def)
  have u: "length ?u = length ?t" "?a + length d \<le> length ?t" using o assms(5) by auto
  have live: "\<not> slot_dead ?s" using o(3) by (simp add: slot_dead_def)
  have others: "slot_dead (pg_slots p ! j) \<or> apart (pg_slots p ! j) ?o" if "j < length (pg_slots p)" "j \<noteq> n" for j
    using assms(1,3,4) that by (auto simp: page_ok_def slots_apart_def)
  have "slots_apart (pg_slots ?p)"
    using assms(1,5) others unfolding f
    by (intro slots_apart_update) (fastforce simp: page_ok_def apart_def)+
  moreover have "\<forall>r\<in>set (pg_slots ?p). slot_in (length ?t) r"
    using in_page o assms(5) set_update_subset_insert[of "pg_slots p" n ?s] unfolding f by (fastforce simp: slot_in_def)
  ultimately have ok: "page_ok ?p" using assms(1) u(1) by (simp add: page_ok_def)
  have "get_free_space_end ?p = get_free_space_end p"
    using live assms(4) by (simp add: get_free_space_end_def foldl_lower_update)
  then have "tight ?p" using assms(2) u(1) by (simp add: tight_def)
  moreover have "rows ?p = (rows p)[n := Some d]"
  proof (rule nth_equalityI)
    fix j assume "j < length (rows ?p)"
    then have j: "j < length (pg_slots p)" by (simp add: rows_def)
    show "rows ?p ! j = (rows p)[n := Some d] ! j"
    proof (cases "j = n")
      case True
      have "take (length d) (drop ?a ?u) = d" using u(2) by (simp add: min_def)
      with True j live u(1) show ?thesis by (simp add: rows_def slot_row_def del: length_append drop_append take_append)
    next
      case False
      let ?r = "pg_slots p ! j"
      have "take (se_length ?r) (drop (se_offset ?r + length ?t - 4096) ?u) =
          take (se_length ?r) (drop (se_offset ?r + length ?t - 4096) ?t)" if "\<not> slot_dead ?r"
        using others[OF j False] that in_page[OF nth_mem[OF j]] o assms(5) u(2)
        by (intro overlay_apart) (auto simp: apart_def slot_in_def)
      with False j u(1) show ?thesis by (simp add: rows_def slot_row_def del: length_append drop_append take_append)
    qed
  qed (simp add: rows_def)
  moreover have "free_space ?p = free_space p" using u(1) by (simp add: free_space_def)
  ultimately show ?thesis using ok by blast
qed

lemma rows_nth:
  "n < length (pg_slots p) \<Longrightarrow> rows p ! n = slot_row (pg_tuples p) (pg_slots p ! n)" "length (rows p) = length (pg_slots p)"
  by (simp_all add: rows_def)

lemma page_update_ok:
  assumes "page_ok p" "tight p" "n < length (rows p)" "rows p ! n = Some old"
  shows "page_update n d p = Some
    (if length d \<le> length old then (put_inside n d p, Inr ())
     else if length d \<le> free_space p then (put_front n d p, Inr ()) else (p, Inl NotEnoughSpace))"
proof -
  let ?s = "pg_slots p ! n"
  have n: "n < length (pg_slots p)" using assms(3) by (simp add: rows_def)
  have live: "\<not> slot_dead ?s" and old: "old = take (se_length ?s) (drop (se_offset ?s + length (pg_tuples p) - 4096) (pg_tuples p))"
    using assms(4) n by (auto simp: rows_nth slot_row_def split: if_splits)
  have T: "23 + 4 * length (pg_slots p) + length (pg_tuples p) \<le> 4096" using assms(1) by (simp add: page_ok_def)
  have o: "4096 \<le> se_offset ?s + length (pg_tuples p)" "se_offset ?s + se_length ?s \<le> 4096"
    using assms(1) n live by (auto simp: page_ok_def slot_in_def)
  then have len: "length old = se_length ?s" unfolding old by simp
  have r: "page_read n p = Some (Inr old)" using page_read_ok[OF assms(1,2), of n] assms(3,4) by simp
  have off: "checked_minus (se_offset ?s) (get_free_space_end p) = Some (se_offset ?s + length (pg_tuples p) - 4096)"
    using o T assms(2) by (simp add: checked_minus_def tight_def)
  show ?thesis
  proof (cases "length d \<le> length old")
    case True
    with o len T have "copy_at (se_offset ?s + length (pg_tuples p) - 4096) d (pg_tuples p) = Some (pg_tuples (put_inside n d p))"
      "length d mod 65536 = length d"
      by (auto simp: copy_at_def put_inside_def Let_def)
    with True r off show ?thesis by (simp add: page_update_def Let_def put_inside_def)
  next
    case False
    have "checked_minus (get_free_space_end p) (length d mod 65536) = Some (4096 - length (pg_tuples p) - length d)"
      "length d mod 65536 = length d" if "length d \<le> free_space p"
      using that T assms(2) by (auto simp: checked_minus_def tight_def free_space_def)
    with False r off n show ?thesis
      by (simp add: page_update_def Let_def tight_room[OF assms(1,2)] put_front_def)
  qed
qed

lemma page_delete_ok:
  assumes "page_ok p" "n < length (rows p)"
  shows "\<exists>q. page_delete n p = (q, Inr ()) \<and> page_ok q \<and> rows q = (rows p)[n := None] \<and> free_space q = free_space p"
proof -
  let ?q = "p\<lparr>pg_slots := (pg_slots p)[n := slot_new 0 0]\<rparr>"
  have d: "slot_dead (slot_new 0 0)" by (simp add: slot_dead_def slot_new_def)
  have "slots_apart (pg_slots ?q)" using assms(1) d by (auto simp: page_ok_def intro: slots_apart_update)
  moreover have "\<forall>r\<in>set (pg_slots ?q). slot_in (length (pg_tuples p)) r"
    using assms(1) d set_update_subset_insert[of "pg_slots p" n "slot_new 0 0"] by (fastforce simp: page_ok_def slot_in_def)
  ultimately have "page_ok ?q" using assms(1) by (simp add: page_ok_def)
  moreover have "rows ?q = (rows p)[n := None]" using d by (simp add: rows_def map_update slot_row_def)
  ultimately show ?thesis using assms(2) by (auto simp: page_delete_def rows_nth free_space_def)
qed

section \<open>The contract: rows and room\<close>

type_synonym page_state = "byte list option list \<times> nat"

definition spec_read :: "nat \<Rightarrow> byte list option list \<Rightarrow> byte list result" where
  "spec_read n rs =
     (if length rs \<le> n then Inl (Io ''slot num out of bounds'')
      else case rs ! n of None \<Rightarrow> Inl SlotDeleted | Some d \<Rightarrow> Inr d)"

fun spec_write :: "page_write \<Rightarrow> page_state \<Rightarrow> page_state \<times> nat result" where
  "spec_write (WInsert d) (rs, room) =
     (if room < length d + 4 then ((rs, room), Inl NotEnoughSpace)
      else ((rs @ [Some d], room - (length d + 4)), Inr (length rs)))"
| "spec_write (WUpdate n d) (rs, room) =
     (case spec_read n rs of
        Inl e \<Rightarrow> ((rs, room), Inl e)
      | Inr old \<Rightarrow>
          if length d \<le> length old then ((rs[n := Some d], room), Inr n)
          else if length d \<le> room then ((rs[n := Some d], room - length d), Inr n)
          else ((rs, room), Inl NotEnoughSpace))"
| "spec_write (WDelete n) (rs, room) =
     (case spec_read n rs of Inl e \<Rightarrow> ((rs, room), Inl e) | Inr _ \<Rightarrow> ((rs[n := None], room), Inr n))"
| "spec_write (WRestore n d) (rs, room) =
     (if length rs \<le> n then ((rs, room), Inl (Wal ''slot is past this page''))
      else if room < length d then ((rs, room), Inl NotEnoughSpace)
      else ((rs[n := Some d], room - length d), Inr n))"

definition is_delete :: "page_write \<Rightarrow> bool" where
  "is_delete w \<longleftrightarrow> (case w of WDelete _ \<Rightarrow> True | _ \<Rightarrow> False)"

lemma write_on_ok:
  assumes "page_ok p" "tight p"
  shows "\<exists>q. write_on w p = Some (q, snd (spec_write w (rows p, free_space p))) \<and> page_ok q \<and>
    (rows q, free_space q) = fst (spec_write w (rows p, free_space p)) \<and> (is_delete w \<or> tight q)"
proof (cases w)
  case (WInsert d)
  with page_insert_ok[OF assms] put_front_ok[OF assms(1), of "length (pg_slots p)" d] assms show ?thesis
    by (auto simp: rows_nth(2))
next
  case (WUpdate n d)
  show ?thesis
  proof (cases "spec_read n (rows p)")
    case (Inl e)
    with WUpdate page_read_ok[OF assms, of n] assms show ?thesis by (simp add: spec_read_def)
  next
    case (Inr old)
    then have n: "n < length (rows p)" "rows p ! n = Some old" by (auto simp: spec_read_def split: if_splits option.splits)
    then have "n < length (pg_slots p)" "\<not> slot_dead (pg_slots p ! n)" "length old \<le> se_length (pg_slots p ! n)"
      by (auto simp: rows_nth slot_row_def split: if_splits)
    with WUpdate Inr n page_read_ok[OF assms, of n] page_update_ok[OF assms n, of d]
      put_inside_ok[OF assms, of n d] put_front_ok[OF assms(1), of n d] assms show ?thesis
      by (auto simp: spec_read_def)
  qed
next
  case (WDelete n)
  with page_read_ok[OF assms, of n] page_delete_ok[OF assms(1), of n] assms show ?thesis
    by (auto simp: spec_read_def is_delete_def split: option.splits)
next
  case (WRestore n d)
  with restore_at_ok[OF assms(1), of n d] put_front_ok[OF assms(1), of n d] assms show ?thesis
    by (auto simp: rows_nth(2))
qed

text \<open>The bytes of the live rows: their slots are stretches of the tuples apart from each other.\<close>

definition live_bytes :: "byte list option list \<Rightarrow> nat" where
  "live_bytes rs = sum_list (map (\<lambda>r. case r of None \<Rightarrow> 0 | Some d \<Rightarrow> length d) rs)"

definition stretch :: "slot_entry \<Rightarrow> nat set" where
  "stretch s = (if slot_dead s then {} else {se_offset s..<se_offset s + se_length s})"

lemma slots_stretches:
  assumes "slots_apart ss" "i < length ss" "j < length ss" "i \<noteq> j"
  shows "stretch (ss ! i) \<inter> stretch (ss ! j) = {}"
proof -
  have "slot_dead (ss ! i) \<or> slot_dead (ss ! j) \<or> apart (ss ! i) (ss ! j)"
    using assms unfolding slots_apart_def by blast
  then show ?thesis by (auto simp: stretch_def apart_def)
qed

lemma live_bytes_le:
  assumes "page_ok p"
  shows "live_bytes (rows p) \<le> 4096 - get_free_space_end p"
proof -
  let ?ss = "pg_slots p"
  have "card (stretch s) = (case slot_row (pg_tuples p) s of None \<Rightarrow> 0 | Some d \<Rightarrow> length d)" if "s \<in> set ?ss" for s
    using assms that by (auto simp: stretch_def slot_row_def page_ok_def slot_in_def)
  moreover have inside: "stretch (?ss ! i) \<subseteq> {get_free_space_end p..<4096}" if "i \<in> {..<length ?ss}" for i
  proof -
    have i: "?ss ! i \<in> set ?ss" using that by simp
    then have "slot_in (length (pg_tuples p)) (?ss ! i)" using assms by (simp add: page_ok_def)
    with fse_live[OF i] show ?thesis by (auto simp: stretch_def slot_in_def)
  qed
  ultimately have "live_bytes (rows p) = (\<Sum>i<length ?ss. card (stretch (?ss ! i)))"
    by (simp add: live_bytes_def rows_def sum_list_sum_nth lessThan_atLeast0)
  also have "\<dots> = card (\<Union>i<length ?ss. stretch (?ss ! i))"
    using slots_stretches assms by (intro card_UN_disjoint[symmetric]) (auto simp: page_ok_def stretch_def)
  also have "\<dots> \<le> card {get_free_space_end p..<4096}"
    using inside by (intro card_mono UN_least) simp_all
  finally show ?thesis by simp
qed

text \<open>Compacting a page without empty rows keeps every row and leaves nothing but the live bytes.\<close>

lemma slots_apart_Cons:
  assumes "slots_apart ss" "\<And>r. r \<in> set ss \<Longrightarrow> slot_dead r \<or> slot_dead s \<or> apart s r"
  shows "slots_apart (s # ss)"
  using assms unfolding slots_apart_def apart_def by (auto simp: less_Suc_eq_0_disj) (metis nth_mem)+

definition compacted ::
    "byte list \<Rightarrow> slot_entry list \<Rightarrow> nat \<Rightarrow> byte list \<Rightarrow> slot_entry list \<Rightarrow> byte list \<Rightarrow> bool" where
  "compacted t ss off dn ss' dn' \<longleftrightarrow>
     compact_slots (4096 - length t) t ss off (replicate off 0 @ dn) =
       Some (ss', off - length dn', replicate (off - length dn') 0 @ dn' @ dn) \<and>
     length dn' = live_bytes (map (slot_row t) ss) \<and> map (slot_row (dn' @ dn)) ss' = map (slot_row t) ss \<and>
     (\<forall>s\<in>set ss'. slot_dead s \<or> off \<le> se_offset s + length dn' \<and> se_offset s + se_length s \<le> off) \<and> slots_apart ss'"

lemma compacted_dead:
  assumes "slot_dead s" "compacted t ss off dn ss' dn'"
  shows "compacted t (s # ss) off dn (s # ss') dn'"
proof -
  have "slot_row x s = None" for x using assms(1) by (simp add: slot_row_def)
  moreover have "slots_apart (s # ss')" using assms by (intro slots_apart_Cons) (simp_all add: compacted_def)
  ultimately show ?thesis using assms by (auto simp: compacted_def live_bytes_def slot_dead_def)
qed

lemma compacted_live:
  assumes s: "4096 \<le> se_offset s + length t" "se_offset s + se_length s \<le> 4096" "se_length s \<noteq> 0" "se_offset s \<noteq> 0"
    and t: "length t \<le> 4073" and raw: "slot_row t s = Some raw"
    and room: "se_length s + live_bytes (map (slot_row t) ss) \<le> off" "off + length dn = 4096"
    and r: "compacted t ss (off - se_length s) (raw @ dn) ss' dn'"
  shows "compacted t (s # ss) off dn (s\<lparr>se_offset := off - se_length s\<rparr> # ss') (dn' @ raw)"
proof -
  let ?c = "se_offset s + length t - 4096" and ?o = "off - se_length s"
  let ?s = "s\<lparr>se_offset := ?o\<rparr>"
  have raw': "length raw = se_length s" "get_range t ?c (?c + se_length s) = Some raw"
    using raw s t by (auto simp: slot_row_def get_range_def split: if_splits)
  have "copy_at ?o raw (replicate off 0 @ dn) = Some (replicate ?o 0 @ raw @ dn)"
    using room(1) raw'(1) by (simp add: copy_at_def min_def)
  then have "compact_slots (4096 - length t) t (s # ss) off (replicate off 0 @ dn) =
      Some (?s # ss', off - length (dn' @ raw), replicate (off - length (dn' @ raw)) 0 @ (dn' @ raw) @ dn)"
    using s raw' r room t by (simp add: compacted_def checked_minus_def diff_diff_left add.commute)
  moreover have "slot_row ((dn' @ raw) @ dn) ?s = Some raw"
    using s(3) raw'(1) room by (simp add: slot_row_def slot_dead_def)
  moreover have "slots_apart (?s # ss')" using r by (intro slots_apart_Cons) (auto simp: compacted_def apart_def)
  ultimately show ?thesis using r raw raw' room by (auto simp: compacted_def live_bytes_def)
qed

lemma compact_slots_ok:
  assumes "\<forall>s\<in>set ss. slot_in (length t) s \<and> (slot_dead s \<or> se_length s \<noteq> 0)" "length t \<le> 4073"
    and "live_bytes (map (slot_row t) ss) \<le> off" "off + length dn = 4096"
  shows "\<exists>ss' dn'. compacted t ss off dn ss' dn'"
  using assms(1,3,4)
proof (induction ss arbitrary: off dn)
  case Nil
  then show ?case by (auto simp: compacted_def live_bytes_def slots_apart_def)
next
  case (Cons s ss)
  have ss: "\<forall>s\<in>set ss. slot_in (length t) s \<and> (slot_dead s \<or> se_length s \<noteq> 0)" using Cons.prems(1) by simp
  show ?case
  proof (cases "slot_dead s")
    case True
    then have "live_bytes (map (slot_row t) ss) \<le> off" using Cons.prems(2) by (simp add: live_bytes_def slot_row_def[of _ s])
    with Cons.IH[OF ss _ Cons.prems(3)] compacted_dead[OF True] show ?thesis by blast
  next
    case False
    then have s: "4096 \<le> se_offset s + length t" "se_offset s + se_length s \<le> 4096" "se_length s \<noteq> 0" "se_offset s \<noteq> 0"
      using Cons.prems(1) assms(2) by (auto simp: slot_in_def)
    then obtain raw where raw: "slot_row t s = Some raw" "length raw = se_length s" using False by (auto simp: slot_row_def)
    have room: "se_length s + live_bytes (map (slot_row t) ss) \<le> off" using Cons.prems(2) raw by (simp add: live_bytes_def)
    then have "live_bytes (map (slot_row t) ss) \<le> off - se_length s" "off - se_length s + length (raw @ dn) = 4096"
      using Cons.prems(3) raw(2) by auto
    then obtain ss' dn' where "compacted t ss (off - se_length s) (raw @ dn) ss' dn'"
      using Cons.IH[OF ss] by blast
    with compacted_live[OF s assms(2) raw(1) room Cons.prems(3)] show ?thesis by blast
  qed
qed

lemma page_compact_ok:
  assumes "page_ok p" "\<forall>s\<in>set (pg_slots p). slot_dead s \<or> se_length s \<noteq> 0"
  shows "\<exists>q. page_compact p = Some q \<and> page_ok q \<and> rows q = rows p \<and> length (pg_tuples q) = live_bytes (rows p)"
proof -
  have T: "23 + 4 * length (pg_slots p) + length (pg_tuples p) \<le> 4096" using assms(1) by (simp add: page_ok_def)
  have live: "live_bytes (rows p) \<le> length (pg_tuples p)" using live_bytes_le[OF assms(1)] fse_ge[OF assms(1)] by linarith
  obtain ss' dn' where "compacted (pg_tuples p) (pg_slots p) 4096 [] ss' dn'"
    using compact_slots_ok[of "pg_slots p" "pg_tuples p" 4096 "[]"] assms T live by (auto simp: page_ok_def rows_def)
  then have r: "compact_slots (4096 - length (pg_tuples p)) (pg_tuples p) (pg_slots p) 4096 (replicate 4096 0) =
        Some (ss', 4096 - length dn', replicate (4096 - length dn') 0 @ dn')"
      "length dn' = live_bytes (rows p)" "map (slot_row dn') ss' = rows p"
      "\<forall>s\<in>set ss'. slot_dead s \<or> 4096 \<le> se_offset s + length dn' \<and> se_offset s + se_length s \<le> 4096" "slots_apart ss'"
    by (auto simp: compacted_def rows_def)
  have "length ss' = length (pg_slots p)" using arg_cong[OF r(3), of length] by (simp add: rows_nth)
  with r live T have "page_compact p = Some (p\<lparr>pg_slots := ss', pg_tuples := dn'\<rparr>)"
      "page_ok (p\<lparr>pg_slots := ss', pg_tuples := dn'\<rparr>)"
    by (simp_all add: page_compact_def checked_minus_def get_range_def page_ok_def slot_in_def)
  with r show ?thesis by (auto simp: rows_def)
qed

text \<open>An image that stands for rows and room.\<close>

definition image_ok :: "byte list \<Rightarrow> byte list option list \<Rightarrow> nat \<Rightarrow> bool" where
  "image_ok img rs room \<longleftrightarrow> (\<exists>p. page_ok p \<and> img = layout p \<and> rs = rows p \<and> room = free_space (reloaded p))"

lemma reloaded_free:
  assumes "page_ok p"
  shows "free_space p \<le> free_space (reloaded p)" "tight p \<Longrightarrow> free_space (reloaded p) = free_space p"
  using reloaded_ok(4,5)[OF assms] fse_ge[OF assms] fse_le[of p] by (auto simp: free_space_def tight_def)

lemma stamp_same:
  "page_ok (stamp l p) = page_ok p" "rows (stamp l p) = rows p" "free_space (stamp l p) = free_space p"
  "get_free_space_end (stamp l p) = get_free_space_end p" "tight (stamp l p) = tight p"
  by (cases l; simp add: stamp_def page_ok_def rows_def free_space_def tight_def get_free_space_end_def)+

lemma spec_write_refused: "snd (spec_write w a) = Inl e \<Longrightarrow> fst (spec_write w a) = a"
  by (cases a; cases w) (auto split: sum.splits if_splits)

lemma image_write_page:
  assumes "page_ok p"
  shows "\<exists>q. write_on w (reloaded p) = Some (q, snd (spec_write w (rows p, free_space (reloaded p)))) \<and> page_ok q \<and>
    (rows q, free_space q) = fst (spec_write w (rows p, free_space (reloaded p))) \<and> (is_delete w \<or> tight q) \<and>
    image_write lsn w (layout p) = Some (case snd (spec_write w (rows p, free_space (reloaded p))) of
        Inl e \<Rightarrow> (layout p, Inl e) | Inr n \<Rightarrow> (layout (stamp lsn q), Inr n))"
proof -
  obtain q where q: "write_on w (reloaded p) = Some (q, snd (spec_write w (rows p, free_space (reloaded p))))" "page_ok q"
      "(rows q, free_space q) = fst (spec_write w (rows p, free_space (reloaded p)))" "is_delete w \<or> tight q"
    using write_on_ok[OF reloaded_ok(1,2)[OF assms], of w] unfolding reloaded_ok(3)[OF assms] by blast
  then show ?thesis
    using page_serialize_ok[of "stamp lsn q"]
    by (intro exI[of _ q]) (simp add: image_write_def page_deserialize_ok[OF assms] stamp_same split: sum.split)
qed

lemma image_write_ok:
  assumes "image_ok img rs room" "spec_write w (rs, room) = ((rs', room'), r)"
  shows "\<exists>img' left. image_write lsn w img = Some (img', r) \<and> image_ok img' rs' left \<and>
    (left = room' \<or> is_delete w \<and> room' \<le> left)"
proof -
  obtain p where p: "page_ok p" "img = layout p" "rs = rows p" "room = free_space (reloaded p)"
    using assms(1) by (auto simp: image_ok_def)
  obtain q where q: "page_ok q" "rows q = rs'" "free_space q = room'" "is_delete w \<or> tight q"
      "image_write lsn w img = Some (case r of Inl e \<Rightarrow> (img, Inl e) | Inr n \<Rightarrow> (layout (stamp lsn q), Inr n))"
    using image_write_page[OF p(1), of w lsn] assms(2) p(2-4) by auto
  show ?thesis
  proof (cases r)
    case (Inl e)
    with assms spec_write_refused[of w "(rs, room)" e] q(5) show ?thesis by auto
  next
    case (Inr n)
    have "image_ok (layout (stamp lsn q)) rs' (free_space (reloaded (stamp lsn q)))"
      using q by (auto simp: image_ok_def stamp_same intro!: exI[of _ "stamp lsn q"])
    moreover have "free_space (reloaded (stamp lsn q)) = room' \<or> is_delete w \<and> room' \<le> free_space (reloaded (stamp lsn q))"
      using q reloaded_free[of "stamp lsn q"] by (auto simp: stamp_same)
    ultimately show ?thesis using q(5) Inr by auto
  qed
qed

lemma page_empty_ok: "page_ok (page_empty pid)"
  by (simp add: page_ok_def page_empty_def slots_apart_def)

lemma image_empty_ok: "\<exists>img. image_empty pid = Some img \<and> image_ok img [] 4073"
proof -
  have "rows (page_empty pid) = []" "free_space (reloaded (page_empty pid)) = 4073"
    by (simp_all add: rows_def free_space_def reloaded_def page_empty_def)
  then show ?thesis
    using page_serialize_ok[OF page_empty_ok] page_empty_ok by (force simp: image_empty_def image_ok_def)
qed

lemma page_image_facts:
  assumes "image_ok img rs room"
  shows "length img = 4096" "image_read n img = Some (spec_read n rs)" "23 + 4 * length rs + live_bytes rs + room \<le> 4096"
proof -
  obtain p where p: "page_ok p" "img = layout p" "rs = rows p" "room = free_space (reloaded p)"
    using assms by (auto simp: image_ok_def)
  show "length img = 4096" using p length_layout by simp
  show "image_read n img = Some (spec_read n rs)"
    using page_read_ok[OF reloaded_ok(1,2)[OF p(1)], of n] p reloaded_ok(3)[OF p(1)]
    by (simp add: image_read_def page_deserialize_ok spec_read_def)
  show "23 + 4 * length rs + live_bytes rs + room \<le> 4096"
    using live_bytes_le[OF p(1)] reloaded_ok(1,4,5)[OF p(1)] fse_le[of p] p
    by (auto simp: free_space_def rows_nth page_ok_def)
qed

fun image_run :: "(nat option \<times> page_write) list \<Rightarrow> byte list \<Rightarrow> (byte list \<times> nat result list) option" where
  "image_run [] img = Some (img, [])"
| "image_run ((lsn, w) # ws) img = do {
     (img, r) \<leftarrow> image_write lsn w img;
     (img, rs) \<leftarrow> image_run ws img;
     Some (img, r # rs)
   }"

text \<open>A run of the contract. A deletion may leave more room than there was: the bytes below the lowest row come free.\<close>

inductive page_trace :: "page_write list \<Rightarrow> page_state \<Rightarrow> nat result list \<Rightarrow> page_state \<Rightarrow> bool" where
  trace_done: "page_trace [] a [] a"
| trace_step: "spec_write w a = ((rs, room), r) \<Longrightarrow> left = room \<or> is_delete w \<and> room \<le> left \<Longrightarrow>
     page_trace ws (rs, left) answers b \<Longrightarrow> page_trace (w # ws) a (r # answers) b"

lemma image_run_ok:
  "image_ok img rs room \<Longrightarrow> \<exists>img' answers rs' room'. image_run ws img = Some (img', answers) \<and>
     page_trace (map snd ws) (rs, room) answers (rs', room') \<and> image_ok img' rs' room'"
proof (induction ws arbitrary: img rs room)
  case Nil
  then show ?case by (auto intro: trace_done)
next
  case (Cons lw ws)
  obtain lsn w where lw: "lw = (lsn, w)" by fastforce
  obtain rs1 room1 r where s: "spec_write w (rs, room) = ((rs1, room1), r)" by (metis surj_pair)
  obtain img1 left where i: "image_write lsn w img = Some (img1, r)" "image_ok img1 rs1 left"
      "left = room1 \<or> is_delete w \<and> room1 \<le> left"
    using image_write_ok[OF Cons.prems s, of lsn] by blast
  obtain img2 answers rs2 room2 where "image_run ws img1 = Some (img2, answers)"
      "page_trace (map snd ws) (rs1, left) answers (rs2, room2)" "image_ok img2 rs2 room2"
    using Cons.IH[OF i(2)] by blast
  with i(1,3) s lw show ?case by (auto intro: trace_step)
qed

text \<open>
  (C13) A heap page is a list of rows with room for more. From a fresh page, any sequence of inserts, updates,
  deletions and restorations, each on the image the one before left, returns (no offset arithmetic underflows, no
  slice is out of range) and answers as the contract says: a slot number never changes its row, a row that does not
  fit is refused and nothing is lost, a deleted slot stays deleted until it is restored. Reading any slot
  number then gives exactly the row, \<open>SlotDeleted\<close> or the out-of-bounds error, and header, slots, live rows and the
  room counted as free fit the 4096 bytes together.
\<close>

theorem heap_page_refinement:
  "\<exists>fresh img answers rs room. image_empty pid = Some fresh \<and> image_run ws fresh = Some (img, answers) \<and>
     page_trace (map snd ws) ([], 4073) answers (rs, room) \<and>
     length img = 4096 \<and> (\<forall>n. image_read n img = Some (spec_read n rs)) \<and>
     23 + 4 * length rs + live_bytes rs + room \<le> 4096"
proof -
  obtain fresh where f: "image_empty pid = Some fresh" "image_ok fresh [] 4073" using image_empty_ok by blast
  obtain img answers rs room where "image_run ws fresh = Some (img, answers)"
      "page_trace (map snd ws) ([], 4073) answers (rs, room)" "image_ok img rs room"
    using image_run_ok[OF f(2), of ws] by blast
  with f(1) page_image_facts show ?thesis by blast
qed

end
