(* ===== verification/Page_Redo.thy ===== *)
theory Page_Redo
  imports Heap_Page
begin

text \<open>
  What recovery does to a heap page: \<open>redo_one\<close> of \<open>wal/recovery.rs\<close>, which applies a logged record to a page image
  unless the page's LSN says it already holds it, and the records the writes of \<open>Heap_Page\<close> log
  (\<open>HeapFileManager\<close> and the compensation records of \<open>TxnManager::abort\<close>).
\<close>

section \<open>Logging and replaying\<close>

text \<open>The bytes a slot held before a write, as the record keeps them.\<close>

definition old_bytes :: "page_write \<Rightarrow> byte list \<Rightarrow> byte list" where
  "old_bytes w img =
     (case w of
        WUpdate n _ \<Rightarrow> (case image_read n img of Some (Inr d) \<Rightarrow> d | _ \<Rightarrow> [])
      | WDelete n \<Rightarrow> (case image_read n img of Some (Inr d) \<Rightarrow> d | _ \<Rightarrow> [])
      | _ \<Rightarrow> [])"

fun record_of :: "nat \<Rightarrow> nat \<Rightarrow> page_write \<Rightarrow> byte list \<Rightarrow> nat \<Rightarrow> rec_kind" where
  "record_of dir pid (WInsert d) old slot = HeapInsert dir pid slot d"
| "record_of dir pid (WUpdate n d) old slot = HeapUpdate dir pid n old d"
| "record_of dir pid (WDelete n) old slot = HeapDelete dir pid n old"
| "record_of dir pid (WRestore n d) old slot = HeapInsert dir pid n d"

text \<open>A run of logged writes: the image it leaves and the records, with their LSNs, it wrote.\<close>

fun logged_run :: "nat \<Rightarrow> nat \<Rightarrow> (nat \<times> page_write) list \<Rightarrow> byte list \<Rightarrow> (byte list \<times> (nat \<times> rec_kind) list) option" where
  "logged_run dir pid [] img = Some (img, [])"
| "logged_run dir pid ((lsn, w) # ws) img = do {
     let old = old_bytes w img;
     (img, r) \<leftarrow> image_write (Some lsn) w img;
     (img, recs) \<leftarrow> logged_run dir pid ws img;
     Some (img, (case r of Inl _ \<Rightarrow> [] | Inr slot \<Rightarrow> [(lsn, record_of dir pid w old slot)]) @ recs)
   }"

fun redo_page :: "rec_kind \<Rightarrow> nat option" where
  "redo_page (HeapInsert _ pid _ _) = Some pid"
| "redo_page (HeapDelete _ pid _ _) = Some pid"
| "redo_page (HeapUpdate _ pid _ _ _) = Some pid"
| "redo_page _ = None"

fun redo_on :: "rec_kind \<Rightarrow> heap_page \<Rightarrow> (heap_page \<times> unit result) option" where
  "redo_on (HeapDelete _ _ slot _) p = Some (page_delete slot p)"
| "redo_on (HeapInsert _ _ slot d) p =
     (if slot = length (pg_slots p) then do {
        (p, r) \<leftarrow> page_insert d p;
        case r of
          Inl e \<Rightarrow> Some (p, Inl e)
        | Inr s \<Rightarrow> if s = slot then Some (p, Inr ()) else None
      }
      else restore_at slot d p)"
| "redo_on (HeapUpdate _ _ slot _ d) p = page_update slot d p"
| "redo_on _ p = None"

definition redo_one :: "nat \<Rightarrow> rec_kind \<Rightarrow> byte list \<Rightarrow> byte list result option" where
  "redo_one lsn kind img =
     (case redo_page kind of
        None \<Rightarrow> Some (Inr img)
      | Some pid \<Rightarrow> do {
          stored \<leftarrow> get_range img 1 5;
          p \<leftarrow> (if from_be stored \<noteq> pid then Some (page_empty pid) else page_deserialize img);
          if lsn \<le> pg_lsn p then Some (Inr img)
          else do {
            (p, r) \<leftarrow> redo_on kind p;
            case r of
              Inl e \<Rightarrow> Some (Inl e)
            | Inr _ \<Rightarrow> do { img \<leftarrow> page_serialize (p\<lparr>pg_lsn := lsn\<rparr>); Some (Inr img) }
          }
        })"

fun redo_all :: "(nat \<times> rec_kind) list \<Rightarrow> byte list \<Rightarrow> byte list result option" where
  "redo_all [] img = Some (Inr img)"
| "redo_all ((lsn, kind) # recs) img = do {
     r \<leftarrow> redo_one lsn kind img;
     case r of Inl e \<Rightarrow> Some (Inl e) | Inr img \<Rightarrow> redo_all recs img
   }"

section \<open>Replaying one record\<close>

text \<open>An image of page \<open>pid\<close> whose last logged write has LSN \<open>l\<close>.\<close>

definition image_at :: "nat \<Rightarrow> nat \<Rightarrow> byte list \<Rightarrow> bool" where
  "image_at pid l img \<longleftrightarrow> (\<exists>p. page_ok p \<and> img = layout p \<and> pg_id p = pid \<and> pg_lsn p = l)"

lemma redo_page_record [simp]: "redo_page (record_of dir pid w old slot) = Some pid"
  by (cases w) simp_all

lemma write_on_fields:
  assumes "page_ok p" "tight p" "write_on w p = Some (q, r)"
  shows "pg_id q = pg_id p" "pg_lsn q = pg_lsn p"
  using assms(3)
  by (cases w; auto simp: page_insert_def page_update_def page_delete_def restore_at_def Let_def
        split: Option.bind_splits option.splits sum.splits if_splits)+

lemma redo_on_write:
  assumes "page_ok p" "tight p" "write_on w p = Some (q, Inr slot)"
  shows "redo_on (record_of dir pid w old slot) p = Some (q, Inr ())"
proof (cases w)
  case (WInsert d)
  with assms page_insert_ok[OF assms(1,2), of d] show ?thesis by (auto split: if_splits)
next
  case (WUpdate n d)
  with assms show ?thesis by (auto simp: rbind_Inr split: Option.bind_splits sum.splits)
next
  case (WDelete n)
  with assms show ?thesis by (auto simp: rbind_Inr split: Option.bind_splits sum.splits prod.splits)
next
  case (WRestore n d)
  with assms restore_at_ok[OF assms(1), of n d] show ?thesis by (auto split: if_splits)
qed

lemma image_at_load:
  assumes "image_at pid l img" "pid < 2 ^ 32" "l < 2 ^ 64"
  obtains p where "page_ok p" "img = layout p" "page_deserialize img = Some (reloaded p)"
    "get_range img 1 5 = Some (be_bytes 4 pid)" "pg_lsn (reloaded p) = l" "pg_id (reloaded p) = pid"
proof -
  obtain p where p: "page_ok p" "img = layout p" "pg_id p = pid" "pg_lsn p = l" using assms(1) by (auto simp: image_at_def)
  then show thesis
    using assms(2,3) that[of p] layout_fields(2)[OF p(1)] page_deserialize_ok[OF p(1)] by (simp add: reloaded_def)
qed

lemma redo_skip:
  assumes "image_at pid l img" "pid < 2 ^ 32" "l < 2 ^ 64" "lsn \<le> l" "redo_page kind = Some pid"
  shows "redo_one lsn kind img = Some (Inr img)"
proof -
  obtain p where p: "page_deserialize img = Some (reloaded p)" "get_range img 1 5 = Some (be_bytes 4 pid)"
      "pg_lsn (reloaded p) = l"
    using image_at_load[OF assms(1-3)] by metis
  show ?thesis unfolding redo_one_def assms(5) option.case p(2) using p assms(2,4) by (simp add: from_be_be_bytes)
qed

text \<open>Where the frame holds another page's bytes, redo starts from an empty page.\<close>

lemma redo_from:
  assumes "page_ok p" "pg_lsn (reloaded p) < lsn" "pg_id (reloaded p) = pid"
    and "write_on w (reloaded p) = Some (q, Inr slot)" "page_ok q"
    and "get_range img 1 5 = Some stored"
    and "(if from_be stored \<noteq> pid then Some (page_empty pid) else page_deserialize img) = Some (reloaded p)"
  shows "redo_one lsn (record_of dir pid w old slot) img = Some (Inr (layout (q\<lparr>pg_lsn := lsn\<rparr>)))"
proof -
  have "page_ok (q\<lparr>pg_lsn := lsn\<rparr>)" using assms(5) stamp_same(1)[of "Some lsn" q] by (simp add: stamp_def)
  with assms(2) redo_on_write[OF reloaded_ok(1,2)[OF assms(1)] assms(4), of dir pid old] show ?thesis
    unfolding redo_one_def redo_page_record option.case assms(6)
    by (simp only: bind.bind_lunit assms(7)) (simp add: page_serialize_ok)
qed

lemma logged_step:
  assumes "image_at pid l img" "pid < 2 ^ 32" "l < 2 ^ 64"
  shows "\<exists>img' r. image_write (Some lsn) w img = Some (img', r) \<and>
    (case r of Inl _ \<Rightarrow> img' = img
     | Inr slot \<Rightarrow> image_at pid lsn img' \<and>
         (l < lsn \<longrightarrow> redo_one lsn (record_of dir pid w old slot) img = Some (Inr img')) \<and>
         (l = 0 \<and> 0 < lsn \<and> image_empty pid = Some img \<longrightarrow> (\<forall>junk stored. get_range junk 1 5 = Some stored \<longrightarrow>
            from_be stored \<noteq> pid \<longrightarrow> redo_one lsn (record_of dir pid w old slot) junk = Some (Inr img'))))"
proof -
  obtain p where p: "page_ok p" "img = layout p" "page_deserialize img = Some (reloaded p)"
      "get_range img 1 5 = Some (be_bytes 4 pid)" "pg_lsn (reloaded p) = l" "pg_id (reloaded p) = pid"
    by (rule image_at_load[OF assms])
  obtain q r where q: "write_on w (reloaded p) = Some (q, r)" "page_ok q"
      "image_write (Some lsn) w img = Some (case r of Inl e \<Rightarrow> (img, Inl e) | Inr n \<Rightarrow> (layout (stamp (Some lsn) q), Inr n))"
    using image_write_page[OF p(1), of w "Some lsn"] p(2) by blast
  show ?thesis
  proof (cases r)
    case (Inl e)
    with q(3) show ?thesis by simp
  next
    case (Inr slot)
    let ?img = "layout (q\<lparr>pg_lsn := lsn\<rparr>)"
    have q': "page_ok (q\<lparr>pg_lsn := lsn\<rparr>)" using q(2) stamp_same(1)[of "Some lsn" q] by (simp add: stamp_def)
    have "pg_id q = pid" using write_on_fields[OF reloaded_ok(1,2)[OF p(1)] q(1)] p(6) by simp
    then have at: "image_at pid lsn ?img" using q' by (auto simp: image_at_def intro!: exI[of _ "q\<lparr>pg_lsn := lsn\<rparr>"])
    have "redo_one lsn (record_of dir pid w old slot) img = Some (Inr ?img)" if "l < lsn"
      using that q(1) Inr p assms(2) by (intro redo_from[OF p(1) _ p(6) _ q(2) p(4)]) (simp_all add: from_be_be_bytes)
    moreover have "redo_one lsn (record_of dir pid w old slot) junk = Some (Inr ?img)"
      if "l = 0" "0 < lsn" "image_empty pid = Some img" "get_range junk 1 5 = Some stored" "from_be stored \<noteq> pid" for junk stored
    proof (rule redo_from[OF p(1) _ p(6) _ q(2) that(4)])
      have "img = layout (page_empty pid)" using that(3) page_serialize_ok[OF page_empty_ok] by (simp add: image_empty_def)
      then have "reloaded p = reloaded (page_empty pid)" using p(3) page_deserialize_ok[OF page_empty_ok] by simp
      moreover have "reloaded (page_empty pid) = page_empty pid" using assms(2) by (simp add: reloaded_def page_empty_def)
      ultimately show "(if from_be stored \<noteq> pid then Some (page_empty pid) else page_deserialize junk) = Some (reloaded p)"
        using that(5) by simp
    qed (use that(1,2) q(1) Inr p(5) in simp_all)
    ultimately show ?thesis using q(3) Inr at by (auto simp: stamp_def)
  qed
qed

section \<open>Replaying a history\<close>

definition lsns_ok :: "nat \<Rightarrow> (nat \<times> page_write) list \<Rightarrow> bool" where
  "lsns_ok l ws \<longleftrightarrow> sorted_wrt (<) (l # map fst ws) \<and> list_all (\<lambda>(lsn, _). lsn < 2 ^ 64) ws \<and> l < 2 ^ 64"

lemma logged_run_ok:
  assumes "image_at pid l img" "pid < 2 ^ 32" "lsns_ok l ws"
  shows "\<exists>img' recs l'. logged_run dir pid ws img = Some (img', recs) \<and> image_at pid l' img' \<and> l \<le> l' \<and>
    l' \<in> insert l (fst ` set ws) \<and> l' < 2 ^ 64 \<and>
    list_all (\<lambda>(lsn, kind). lsn \<le> l' \<and> redo_page kind = Some pid) recs \<and> redo_all recs img = Some (Inr img') \<and>
    (recs \<noteq> [] \<and> l = 0 \<and> image_empty pid = Some img \<longrightarrow> (\<forall>junk stored. get_range junk 1 5 = Some stored \<longrightarrow>
       from_be stored \<noteq> pid \<longrightarrow> redo_all recs junk = Some (Inr img')))"
  using assms
proof (induction ws arbitrary: l img)
  case Nil
  then show ?case by (auto simp: lsns_ok_def)
next
  case (Cons lw ws)
  obtain lsn w where lw: "lw = (lsn, w)" by fastforce
  have l: "l < 2 ^ 64" "l < lsn" "lsns_ok lsn ws" "lsns_ok l ws" using Cons.prems(3) lw by (auto simp: lsns_ok_def)
  obtain img1 r where w: "image_write (Some lsn) w img = Some (img1, r)"
    and r: "case r of Inl _ \<Rightarrow> img1 = img
     | Inr slot \<Rightarrow> image_at pid lsn img1 \<and>
         (l < lsn \<longrightarrow> redo_one lsn (record_of dir pid w (old_bytes w img) slot) img = Some (Inr img1)) \<and>
         (l = 0 \<and> 0 < lsn \<and> image_empty pid = Some img \<longrightarrow> (\<forall>junk stored. get_range junk 1 5 = Some stored \<longrightarrow>
            from_be stored \<noteq> pid \<longrightarrow> redo_one lsn (record_of dir pid w (old_bytes w img) slot) junk = Some (Inr img1)))"
    using logged_step[OF Cons.prems(1,2) l(1)] by blast
  show ?case
  proof (cases r)
    case (Inl e)
    with r w lw Cons.IH[OF Cons.prems(1,2) l(4)] show ?thesis by (auto simp: Let_def)
  next
    case (Inr slot)
    with r have at: "image_at pid lsn img1" by simp
    obtain img2 recs l' where "logged_run dir pid ws img1 = Some (img2, recs)" "image_at pid l' img2" "lsn \<le> l'" "l' < 2 ^ 64"
        "l' \<in> insert lsn (fst ` set ws)"
        "list_all (\<lambda>(lsn, kind). lsn \<le> l' \<and> redo_page kind = Some pid) recs" "redo_all recs img1 = Some (Inr img2)"
      using Cons.IH[OF at Cons.prems(2) l(3)] by blast
    with Inr r w lw l(2) show ?thesis by (intro exI[of _ img2]) (auto simp: Let_def)
  qed
qed

lemma redo_all_append:
  "redo_all (xs @ ys) img = do { r \<leftarrow> redo_all xs img; case r of Inl e \<Rightarrow> Some (Inl e) | Inr img \<Rightarrow> redo_all ys img }"
  by (induction xs img rule: redo_all.induct) (auto split: Option.bind_splits sum.splits)

lemma redo_all_skip:
  assumes "image_at pid l img" "pid < 2 ^ 32" "l < 2 ^ 64"
    and "list_all (\<lambda>(lsn, kind). lsn \<le> l \<and> redo_page kind = Some pid) recs"
  shows "redo_all recs img = Some (Inr img)"
  using assms(4)
proof (induction recs)
  case (Cons r recs)
  then show ?case using redo_skip[OF assms(1-3)] by (cases r) simp
qed simp

lemma logged_run_append:
  "logged_run dir pid (xs @ ys) img = do {
     (mid, r1) \<leftarrow> logged_run dir pid xs img;
     (img, r2) \<leftarrow> logged_run dir pid ys mid;
     Some (img, r1 @ r2) }"
  by (induction xs arbitrary: img) (auto simp: Let_def split: Option.bind_splits)

lemma redo_from_prefix:
  assumes "image_at pid 0 img" "pid < 2 ^ 32" "lsns_ok 0 (xs @ ys)" "logged_run dir pid (xs @ ys) img = Some (img', recs)"
  shows "\<exists>mid recs1. logged_run dir pid xs img = Some (mid, recs1) \<and> redo_all recs mid = Some (Inr img')"
proof -
  have xs: "lsns_ok 0 xs" using assms(3) by (auto simp: lsns_ok_def sorted_wrt_append)
  obtain mid recs1 l where 1: "logged_run dir pid xs img = Some (mid, recs1)" "image_at pid l mid" "l < 2 ^ 64"
      "l \<in> insert 0 (fst ` set xs)" "list_all (\<lambda>(lsn, kind). lsn \<le> l \<and> redo_page kind = Some pid) recs1"
    using logged_run_ok[OF assms(1,2) xs, of dir] by blast
  have ys: "lsns_ok l ys" using assms(3) 1(3,4) by (auto simp: lsns_ok_def sorted_wrt_append)
  obtain recs2 where "logged_run dir pid ys mid = Some (img', recs2)" "recs = recs1 @ recs2" "redo_all recs2 mid = Some (Inr img')"
    using logged_run_ok[OF 1(2) assms(2) ys, of dir] assms(4) 1(1) by (auto simp: logged_run_append)
  with 1 redo_all_skip[OF 1(2) assms(2) 1(3,5)] show ?thesis by (auto simp: redo_all_append)
qed

lemma fresh_at: "image_empty pid = Some fresh \<Longrightarrow> image_at pid 0 fresh"
  using page_serialize_ok[OF page_empty_ok, of pid] page_empty_ok[of pid]
  by (auto simp: image_empty_def image_at_def page_empty_def intro!: exI[of _ "page_empty pid"])

text \<open>
  (C14) Redo is exact and repeats nothing. Take any history of logged writes to one page, refused ones among them,
  with rising LSNs. Whatever part of it the disk held when the machine stopped (any prefix, none of it, or all
  of it), replaying every record of the history over that image succeeds and gives the very bytes the page held at
  the end; so replaying twice changes nothing. The same holds when the frame still carries another page's bytes.
\<close>

theorem redo_replays_page:
  assumes "lsns_ok 0 ws" "pid < 2 ^ 32" "image_empty pid = Some fresh"
  shows "\<exists>img recs. logged_run dir pid ws fresh = Some (img, recs) \<and>
    (\<exists>mid recs1. logged_run dir pid (take k ws) fresh = Some (mid, recs1) \<and> redo_all recs mid = Some (Inr img)) \<and>
    redo_all recs img = Some (Inr img) \<and>
    (recs \<noteq> [] \<longrightarrow> get_range junk 1 5 = Some stored \<longrightarrow> from_be stored \<noteq> pid \<longrightarrow> redo_all recs junk = Some (Inr img))"
proof -
  have at: "image_at pid 0 fresh" using assms(3) by (rule fresh_at)
  obtain img recs l where r: "logged_run dir pid ws fresh = Some (img, recs)" "image_at pid l img" "l < 2 ^ 64"
      "list_all (\<lambda>(lsn, kind). lsn \<le> l \<and> redo_page kind = Some pid) recs"
      "recs \<noteq> [] \<longrightarrow> get_range junk 1 5 = Some stored \<longrightarrow> from_be stored \<noteq> pid \<longrightarrow> redo_all recs junk = Some (Inr img)"
    using logged_run_ok[OF at assms(2,1), of dir] assms(3) by blast
  moreover have "\<exists>mid recs1. logged_run dir pid (take k ws) fresh = Some (mid, recs1) \<and> redo_all recs mid = Some (Inr img)"
    using redo_from_prefix[OF at assms(2), of "take k ws" "drop k ws"] assms(1) r(1) by simp
  moreover have "redo_all recs img = Some (Inr img)" using redo_all_skip[OF r(2) assms(2) r(3,4)] .
  ultimately show ?thesis by blast
qed

theorem redo_replays_page_witness:
  "\<exists>fresh img recs. image_empty 7 = Some fresh \<and> lsns_ok 0 [(5, WInsert [1, 2]), (9, WUpdate 0 [3])] \<and>
     logged_run 4 7 [(5, WInsert [1, 2]), (9, WUpdate 0 [3])] fresh = Some (img, recs) \<and>
     (\<exists>mid recs1. logged_run 4 7 [(5, WInsert [1, 2])] fresh = Some (mid, recs1) \<and> redo_all recs mid = Some (Inr img))"
proof -
  obtain fresh where f: "image_empty 7 = Some fresh" using image_empty_ok by blast
  have l: "lsns_ok 0 [(5, WInsert [1, 2]), (9, WUpdate 0 [3])]" by (simp add: lsns_ok_def)
  have p: "(7 :: nat) < 2 ^ 32" and t: "take 1 [(5, WInsert [1, 2]), (9, WUpdate 0 [3])] = [(5, WInsert [1, 2])]" by simp_all
  show ?thesis using redo_replays_page[OF l p f, where dir = 4 and k = 1 and junk = "[]" and stored = "[]", unfolded t] f l by blast
qed

end
