(* ===== verification/Spec2Isabelle.thy ===== *)
theory Spec2Isabelle
  imports Append_Rule Snapshot_Stream Cluster Arc_Sections Log_Contract Persistent_Map Page_Redo
begin

text \<open>
  A verification development for ferrodb, a database engine in Rust with its own consensus layer. File names are
  relative to \<open>src/src/\<close>.

  \<^bold>\<open>The program\<close>

  A cluster of ferrodb nodes agrees on a log of commands (\<open>consensus/\<close>). The state machine \<open>Consensus\<close> is pure: an
  event goes in, a new state and a list of actions come out. A driver (\<open>consensus/node.rs\<close>) performs the actions in
  order: it stores the hard state and the entries in the durable round log (\<open>consensus/log.rs\<close>), and sends messages
  through the transport (\<open>consensus/transport.rs\<close>), which frames and signs them (\<open>consensus/signing.rs\<close>, over
  \<open>provenance/sha256.rs\<close>). A node too far behind is sent a snapshot (\<open>consensus/snapshot.rs\<close>). Below that, tables live
  on heap pages (\<open>storage/heap_page.rs\<close>) in a buffer pool whose replacement policy is \<open>buffer/arc.rs\<close>; every write
  to a page is logged (\<open>wal/log.rs\<close>) and replayed by recovery (\<open>wal/recovery.rs\<close>). Tasks that fork a session share
  its staged rows through a persistent map (\<open>agent_sql/persistent_map.rs\<close>).

  \<^bold>\<open>Conventions\<close>

  \<^item> A struct is a record, an enum a datatype, each function one definition under the source's name where HOL allows it
    (with a prefix where two files share a name: \<open>log_\<close>, \<open>lhs_\<close>, \<open>arc_\<close>, \<open>pm_\<close>, \<open>page_\<close>, \<open>tail_\<close>).
  \<^item> A \<open>Result\<close> is a sum, \<open>Inl\<close> the error; a panic is \<open>None\<close>. The theorems that say a function returns say so
    with \<open>Some\<close>, never under the premise that it did. Of an error's text a short tag is kept.
  \<^item> Bytes, digests and checksums are words and wrap. Terms, rounds, ticks, ids and lengths are \<open>nat\<close>: a saturating
    addition is written with its ceiling, \<open>as u16\<close> with its remainder, and a plain \<open>+\<close> is the sum the source computes
    while the counter stays below its width. Where the width matters to a theorem it is a hypothesis: terms at most
    \<open>u64_max\<close>; rounds below it wherever the source names the round after one (\<open>rounds_fit\<close> and \<open>event_fits\<close> for a node and
    its events, \<open>call_fits\<close> and \<open>log_room\<close> for the round log, explicit bounds for an \<open>Append\<close> and a proposal). Past the
    ceiling the source overflows, and nothing is claimed.
  \<^item> No definition carries fuel. Loops are structural recursion or \<open>function\<close> with a measure; the one walk that could
    go round for ever, \<open>walk_unpinned\<close>, is a \<open>partial_function\<close> into \<open>option\<close>, and is proved to end on every list the
    operations can build. \<open>PAGE_SIZE\<close> and the other sizes are the source's constants.

  \<^bold>\<open>Shared theories\<close>

  \<^item> \<open>Ferro_Prelude\<close>: machine types, big-endian integers, the effect of a handler with its weakest precondition, and the
    locales \<open>step_rel\<close> and \<open>step_inv\<close> by which a law is carried through the composition of handlers.
  \<^item> \<open>Wire_Bytes\<close>: the error type (\<open>error.rs\<close>), the bounds-checked readers of \<open>wal/log.rs\<close>, and the locale \<open>codec\<close>: a
    reader returns a value exactly when the bytes at its cursor begin with that value's encoding. Every format below
    is an interpretation of it.
  \<^item> \<open>Crc32\<close>, \<open>Sha256\<close>, \<open>Digest\<close>: the checksum of \<open>wal/log.rs\<close>, the streaming hash, the rolling digest of entries. The bytes
    the digest reads are prefix-free field by field (locale \<open>prefix_free\<close>), so they determine the entry.

  \<^bold>\<open>Consensus\<close>

  \<^item> \<open>Config\<close> (\<open>consensus/config.rs\<close>): the voter set and its majorities; the locale \<open>quorum_system\<close> has the intersection law.
  \<^item> \<open>Contract\<close>, \<open>Consensus_Core\<close> (\<open>consensus/mod.rs\<close>): the types and the record \<open>consensus\<close>, construction, the
    generator, stepping down, the guards of the node's own log.
  \<^item> \<open>Log_Tail\<close>: \<open>LogTail\<close> of \<open>consensus/replicate.rs\<close>, with the locale \<open>tail_store\<close> that the append path relies on.
  \<^item> \<open>Node_Laws\<close>: the two laws of every handler, \<open>evolves\<close> (watermarks never move back, what is in memory is what was
    stored, a vote is stored before it is sent) and \<open>calm\<close> (a node changes standing only by stepping down, a leader's log
    only grows).
  \<^item> \<open>Replication_Send\<close>, \<open>Replicate\<close> (\<open>consensus/replicate.rs\<close>), \<open>Membership\<close> (\<open>consensus/membership.rs\<close>),
    \<open>Snapshot_Payload\<close>, \<open>Snapshot_Transfer\<close> (\<open>consensus/snapshot.rs\<close>), \<open>Election\<close> (\<open>consensus/election.rs\<close> and the
    dispatch of \<open>consensus/mod.rs\<close>): one definition per handler, each shown to keep the laws and the invariant.
  \<^item> \<open>Node_Runs\<close>: the states one node can reach, and those it reaches with its rounds below the ceiling. The invariant
    holds in all of them, and below the ceiling nothing panics; term, commit and applied are monotone.
    \<open>Node_Rules\<close>: committing, the lease, proposing, the retry hint. \<open>Append_Rule\<close>: accepting an
    \<open>Append\<close> implements the protocol's merge and never touches a committed entry. \<open>Snapshot_Stream\<close>: whatever chunks
    arrive, what a receiver assembles is a gapless run of them; a transfer in lockstep completes.
  \<^item> \<open>Cluster\<close>: nodes over a network that loses, repeats and reorders, crashes between any two actions, restarts from
    disk. At most one node leads a term. The configuration of the cluster is fixed there; that single membership
    changes keep majorities intersecting is a theorem on \<open>check_membership\<close>, and that election safety holds across a
    change is not claimed.
  \<^item> \<open>Transport_Codec\<close>, \<open>Signing\<close>: frames decode exactly from their one encoding, what is admitted fits a signed frame,
    and a frame verifies exactly when it carries its HMAC. Nothing is assumed or shown about the hardness of SHA-256.

  \<^bold>\<open>The durable round log\<close>

  \<^item> \<open>Sim_Storage\<close> (\<open>storage/sim.rs\<close>): the device, with torn and dropped writes, refused syncs and lost truncations.
  \<^item> \<open>Log_Codec\<close>, \<open>Round_Log\<close> (\<open>consensus/log.rs\<close>): header, frames, the two files, every operation and the scan.
  \<^item> \<open>Log_Recovery\<close>, \<open>Log_Contract\<close>: what the two files stand for, and the contract over a floor and a list of entries.
    A call the device survives answers as the contract says; a call it does not survive leaves a log that reopens as
    the one before or after it, cut at most above what was promised durable. The hypotheses: rounds, generation and
    file offsets stay within \<open>u64\<close> (\<open>alive_below\<close>, \<open>call_fits\<close>, \<open>log_room\<close>); a faulty write is cut short or dropped but not
    altered; and \<open>tear_safe\<close>, that a device writing through to its platters makes a half-written header fail
    its checksum (on a device that keeps only what is synced nothing is needed). A CRC collision with an old header is
    what \<open>tear_safe\<close> excludes.

  \<^bold>\<open>Storage\<close>

  \<^item> \<open>Linked_Hash_Set\<close>, \<open>Arc_Cache\<close> (\<open>buffer/\<close>): slots, links and free list refine a list ordered by recency (locale
    \<open>recency_list\<close>); one thread at a time the cache never panics, keeps its bounds, and answers as its four lists say.
    \<open>Arc_Sections\<close> (\<open>buffer/buffer_pool.rs\<close>): the lock sections of concurrent faults interleaved, the faults in flight part
    of the state. The resident lists keep their bounds; the ghosts need not, and a run that takes them past theirs is
    evaluated. Left out: a page freed and fetched again between the decision to decline it and the giving back, and
    a fetch that overtakes the deletion of its own page.
  \<^item> \<open>Wal_Record\<close> (\<open>wal/log.rs\<close>): the records and their round trip.
  \<^item> \<open>Heap_Page\<close> (\<open>storage/heap_page.rs\<close>, and what \<open>storage/heap_file_manager.rs\<close> and the undo of \<open>wal/txn.rs\<close> do to
    one image): a page image refines a list of optional rows with room for more. Each write is the round the engine
    makes: deserialize, one method, set the LSN, serialize.
  \<^item> \<open>Page_Redo\<close> (\<open>redo_one\<close> of \<open>wal/recovery.rs\<close>): replaying a page's records over any prefix of its history gives the
    very bytes it ended with. LSNs rise along the history, as the log hands them out.
  \<^item> \<open>Persistent_Map\<close> (\<open>agent_sql/persistent_map.rs\<close>): the weight-balanced tree refines a finite map, its iterators give
    the entries in order, its height is logarithmic.

  \<^bold>\<open>Not modelled\<close>

  \<^item> I/O and threads: sockets, locks (but for the sections of \<open>Arc_Sections\<close>), key files, the disk manager, the
    driver's file handling. The driver's order of actions is the crash model of \<open>Cluster\<close>.
  \<^item> The page directory, the choice of a page for a row, relocation across pages, the index trees, the tuple encoding,
    the buffer pool's frames and page table: they need a model of many pages behind one pool.
  \<^item> Transactions, visibility, and the analysis and undo phases of recovery: state behind locks over the whole database.
  \<^item> The copy-on-write trees and the branches over them: their page store and reclamation depend on the arena allocator
    and the branch catalog.
  \<^item> The SQL front end, optimizer, execution, the client protocol, provenance stores, change feeds and the effect log:
    separate subsystems that none of the modelled components calls.
  \<^item> Test harnesses (\<open>consensus/sim.rs\<close>), \<open>Debug\<close> and \<open>Display\<close> texts, and \<open>Arc\<close> sharing, which values have for free.
\<close>

end
